(* ===== verification/Ipc_Prelude.thy ===== *)
theory Ipc_Prelude
  imports Main "HOL-Library.Word"
begin

text \<open>
  Shared vocabulary of the development: the machine integers of the Rust code, the collections of
  simplification rules the components feed, the two interfaces every step system of the library
  goes through (reachability with its invariant rule, and simulation between two step systems), and
  the generic lemmas on counting threads and on overwriting a prefix of a buffer.
\<close>

unbundle bit_operations_syntax

section \<open>Machine integers and identifiers\<close>

type_synonym u8 = "8 word"
type_synonym u16 = "16 word"
type_synonym u32 = "32 word"
type_synonym u64 = "64 word"
type_synonym usize = "64 word"
type_synonym bytes = "u8 list"
type_synonym tid = nat

section \<open>Collections of simplification rules\<close>

named_theorems packed_simps \<open>packing and unpacking of the two atomic words of a message\<close>
named_theorems machine_simps \<open>unfolding of the step functions of the interleaved model\<close>
named_theorems op_simps \<open>unfolding of the whole-operation functions of a message\<close>

section \<open>Interface: reachable states\<close>

text \<open>
  A step system is an initial condition, a step relation and the set of states reached from the one
  by the other; the only law a client needs is the induction rule of that set.
\<close>

locale reachability =
  fixes initial :: "'s \<Rightarrow> bool"
    and step :: "'s \<Rightarrow> 's \<Rightarrow> bool"
    and reach :: "'s \<Rightarrow> bool"
  assumes reach_initial: "initial s \<Longrightarrow> reach s"
    and reach_step: "reach s \<Longrightarrow> step s s' \<Longrightarrow> reach s'"
    and reach_rule: "reach s \<Longrightarrow> (\<And>s. initial s \<Longrightarrow> P s) \<Longrightarrow>
          (\<And>s s'. reach s \<Longrightarrow> P s \<Longrightarrow> step s s' \<Longrightarrow> P s') \<Longrightarrow> P s"
begin

lemma invariant_rule:
  assumes "reach s"
    and "\<And>s. initial s \<Longrightarrow> I s"
    and "\<And>s s'. I s \<Longrightarrow> step s s' \<Longrightarrow> I s'"
  shows "I s"
  using assms(1) by (rule reach_rule) (blast intro: assms(2,3))+

lemma invariant_rule_using:
  assumes "reach s"
    and "\<And>s. reach s \<Longrightarrow> J s"
    and "\<And>s. initial s \<Longrightarrow> I s"
    and "\<And>s s'. J s \<Longrightarrow> J s' \<Longrightarrow> I s \<Longrightarrow> step s s' \<Longrightarrow> I s'"
  shows "I s"
  using assms(1) by (rule reach_rule) (blast intro: assms(2,3,4) reach_step)+

end

text \<open>
  A simulation maps every state of a detailed system to one of an abstract system so that a step from a
  reachable state is a step of the abstract system or leaves the abstract state alone. Invariants of the abstract
  system then hold of the image of every reachable detailed state.
\<close>

locale simulation =
  detailed: reachability initial step reach +
  abstract: reachability initial' step' reach'
  for initial :: "'s \<Rightarrow> bool" and step and reach
    and initial' :: "'a \<Rightarrow> bool" and step' and reach' +
  fixes abs :: "'s \<Rightarrow> 'a"
  assumes sim_initial: "initial s \<Longrightarrow> initial' (abs s)"
    and sim_step: "reach s \<Longrightarrow> step s s' \<Longrightarrow> abs s' = abs s \<or> step' (abs s) (abs s')"
begin

lemma sim_reach:
  assumes "reach s"
  shows "reach' (abs s)"
  using assms
proof (rule detailed.reach_rule)
  show "reach' (abs s)" if "initial s" for s
    using that by (intro abstract.reach_initial sim_initial)
  show "reach' (abs s')" if "reach s" "reach' (abs s)" "step s s'" for s s'
    using sim_step [OF that(1,3)] that(2) by (auto intro: abstract.reach_step)
qed

end

section \<open>Interface: calls that implement a specification\<close>

text \<open>A sequence of calls, each run to its end; it stops at a call whose result halts the caller.\<close>

fun run_calls :: "('call \<Rightarrow> 's \<Rightarrow> 'r \<times> 's) \<Rightarrow> ('r \<Rightarrow> bool) \<Rightarrow> 'call list \<Rightarrow> 's \<Rightarrow> 'r list \<times> 's" where
  "run_calls f halts [] s = ([], s)"
| "run_calls f halts (c # cs) s =
     (case f c s of (r, s') \<Rightarrow>
        if halts r then ([r], s')
        else (case run_calls f halts cs s' of (rs, s'') \<Rightarrow> (r # rs, s'')))"

lemma run_calls_invariant:
  assumes "\<And>c s. I s \<Longrightarrow> I (snd (f c s))" "I s"
  shows "I (snd (run_calls f halts cs s))"
  using assms(2)
proof (induction cs arbitrary: s)
  case (Cons c cs)
  obtain r s' where c: "f c s = (r, s')" by fastforce
  with assms(1) [OF Cons.prems, of c] have "I s'" by simp
  with Cons.IH [of s'] c show ?case by (simp add: case_prod_beta)
qed simp

locale call_refinement =
  fixes abs :: "'c \<Rightarrow> 'a"
    and ok :: "'c \<Rightarrow> bool"
    and conc :: "'call \<Rightarrow> 'c \<Rightarrow> 'r \<times> 'c"
    and spec :: "'call \<Rightarrow> 'a \<Rightarrow> 'r \<times> 'a"
    and halts :: "'r \<Rightarrow> bool"
  assumes call_refines: "ok m \<Longrightarrow> conc c m = (r, m') \<Longrightarrow> spec c (abs m) = (r, abs m')"
    and call_keeps: "ok m \<Longrightarrow> conc c m = (r, m') \<Longrightarrow> \<not> halts r \<Longrightarrow> ok m'"
begin

lemma run_refines:
  "ok m \<Longrightarrow> run_calls conc halts cs m = (rs, m') \<Longrightarrow> run_calls spec halts cs (abs m) = (rs, abs m')"
proof (induction cs arbitrary: m rs)
  case (Cons c cs)
  obtain r m1 where c: "conc c m = (r, m1)" by fastforce
  with Cons.prems(1) have s: "spec c (abs m) = (r, abs m1)" by (rule call_refines)
  show ?case
  proof (cases "halts r")
    case True
    with Cons.prems(2) c s show ?thesis by simp
  next
    case False
    from call_keeps [OF Cons.prems(1) c False] have ok: "ok m1" .
    obtain rs1 where rs1: "run_calls conc halts cs m1 = (rs1, m')" "rs = r # rs1"
      using Cons.prems(2) c False by (auto split: prod.splits)
    from Cons.IH [OF ok rs1(1)] s False rs1(2) show ?thesis by simp
  qed
qed simp

lemma run_keeps:
  "ok m \<Longrightarrow> run_calls conc halts cs m = (rs, m') \<Longrightarrow> list_all (\<lambda>r. \<not> halts r) rs \<Longrightarrow> ok m'"
proof (induction cs arbitrary: m rs)
  case (Cons c cs)
  obtain r m1 where c: "conc c m = (r, m1)" by fastforce
  with Cons.prems(2,3) have nh: "\<not> halts r" by (auto split: if_splits prod.splits)
  obtain rs1 where "run_calls conc halts cs m1 = (rs1, m')" "rs = r # rs1"
    using Cons.prems(2) c nh by (auto split: prod.splits)
  with Cons.IH [OF call_keeps [OF Cons.prems(1) c nh]] Cons.prems(3) show ?case by simp
qed simp

end

section \<open>Counting threads\<close>

text \<open>How many of the first \<open>n\<close> threads satisfy \<open>P\<close> in a map from threads to program counters.\<close>

definition count_threads :: "nat \<Rightarrow> ('p \<Rightarrow> bool) \<Rightarrow> (tid \<Rightarrow> 'p) \<Rightarrow> nat" where
  "count_threads n P f = length (filter (\<lambda>t. P (f t)) [0..<n])"

lemma count_threads_le: "count_threads n P f \<le> n"
  unfolding count_threads_def by (rule order_trans [OF length_filter_le]) simp

lemma count_threads_alt: "count_threads n P f = card {t. t < n \<and> P (f t)}"
proof -
  have "distinct (filter (\<lambda>t. P (f t)) [0..<n])" by simp
  from distinct_card [OF this] have
    "length (filter (\<lambda>t. P (f t)) [0..<n]) = card (set (filter (\<lambda>t. P (f t)) [0..<n]))" by simp
  also have "set (filter (\<lambda>t. P (f t)) [0..<n]) = {t. t < n \<and> P (f t)}" by auto
  finally show ?thesis by (simp add: count_threads_def)
qed

lemma count_threads_zero: "count_threads n P f = 0 \<Longrightarrow> t < n \<Longrightarrow> \<not> P (f t)"
  by (auto simp: count_threads_def filter_empty_conv)

lemma count_threads_pos: "t < n \<Longrightarrow> P (f t) \<Longrightarrow> 0 < count_threads n P f"
  using count_threads_zero by fastforce

lemma count_threads_same:
  assumes "P (f t) = P p"
  shows "count_threads n P (f(t := p)) = count_threads n P f"
  unfolding count_threads_def
  by (rule arg_cong [where f = length], rule filter_cong) (use assms in auto)

lemma count_threads_enter:
  assumes "t < n" "\<not> P (f t)" "P p"
  shows "count_threads n P (f(t := p)) = Suc (count_threads n P f)"
proof -
  have "{u. u < n \<and> P ((f(t := p)) u)} = insert t {u. u < n \<and> P (f u)}"
    using assms by auto
  moreover have "t \<notin> {u. u < n \<and> P (f u)}" using assms by simp
  ultimately show ?thesis by (simp add: count_threads_alt)
qed

lemma count_threads_leave:
  assumes "t < n" "P (f t)" "\<not> P p"
  shows "Suc (count_threads n P (f(t := p))) = count_threads n P f"
proof -
  have "{u. u < n \<and> P (f u)} = insert t {u. u < n \<and> P ((f(t := p)) u)}"
    using assms by auto
  moreover have "t \<notin> {u. u < n \<and> P ((f(t := p)) u)}" using assms by simp
  ultimately show ?thesis by (simp add: count_threads_alt)
qed

section \<open>Overwriting a prefix of a buffer\<close>

text \<open>What \<open>copy_nonoverlapping\<close> leaves in a buffer at least as long as the source.\<close>

definition overwrite_prefix :: "'a list \<Rightarrow> 'a list \<Rightarrow> 'a list" where
  "overwrite_prefix src dst = src @ drop (length src) dst"

lemma length_overwrite_prefix [simp]:
  "length src \<le> length dst \<Longrightarrow> length (overwrite_prefix src dst) = length dst"
  by (simp add: overwrite_prefix_def)

lemma take_overwrite_prefix [simp]: "take (length src) (overwrite_prefix src dst) = src"
  by (simp add: overwrite_prefix_def)

lemma in_set_updateD: "x \<in> set (xs[i := y]) \<Longrightarrow> x = y \<or> x \<in> set xs"
  by (auto dest!: subsetD [OF set_update_subset_insert])

lemma take_Suc_update:
  assumes "i < length xs" "take i xs = take i ys" "i < length ys" "v = ys ! i"
  shows "take (Suc i) (xs[i := v]) = take (Suc i) ys"
  using assms by (simp add: take_Suc_conv_app_nth list_update_append)

section \<open>Word arithmetic the counters need\<close>

lemma unat_inc_u16: "unat (w :: u16) = n \<Longrightarrow> n + 1 < 65536 \<Longrightarrow> unat (w + 1) = Suc n"
  by (subst unat_word_ariths(1)) simp

lemma unat_dec_u16: "unat (w :: u16) = Suc n \<Longrightarrow> unat (w - 1) = n"
  by (metis One_nat_def Suc_neq_Zero diff_Suc_1 unat_0 unat_minus_one)

lemma unat_of_nat_u64: "n < 2 ^ 64 \<Longrightarrow> unat (of_nat n :: u64) = n"
  by (simp add: unat_of_nat take_bit_nat_eq_self)

lemma unat_of_nat_u32: "n < 2 ^ 32 \<Longrightarrow> unat (of_nat n :: u32) = n"
  by (simp add: unat_of_nat take_bit_nat_eq_self)

lemma succ_neq_u16: "(w :: u16) + 1 \<noteq> w" and pred_neq_u16: "(w :: u16) - 1 \<noteq> w"
  by simp_all

end
