(* ===== verification/Packed.thy ===== *)
theory Packed
  imports Ipc_Prelude
begin

text \<open>
  The two packed atomic words of a message (\<open>src/shared_message/packed.rs\<close>): \<open>SequenceState\<close>, a
  62-bit sequence number with the flags \<open>stopped\<close> (bit 63) and \<open>writing_in_progress\<close> (bit 62), and
  \<open>ReadersStateCount\<close>, four 16-bit counters. Every access of the code goes through \<open>from\<close> and
  \<open>to_packed\<close>, so the round trips of this theory carry the proofs of the others.
\<close>

section \<open>SequenceState\<close>

record SequenceState =
  sequence :: u64
  stopped :: bool
  writing_in_progress :: bool

definition STOPPED_MASK :: u64 where
  "STOPPED_MASK = push_bit 63 1"

definition WRITING_IN_PROGRESS_MASK :: u64 where
  "WRITING_IN_PROGRESS_MASK = push_bit 62 1"

definition SEQUENCE_MASK :: u64 where
  "SEQUENCE_MASK = NOT (STOPPED_MASK OR WRITING_IN_PROGRESS_MASK)"

definition SequenceState_from :: "u64 \<Rightarrow> SequenceState" where
  "SequenceState_from packed =
     \<lparr> sequence = packed AND SEQUENCE_MASK,
       stopped = (packed AND STOPPED_MASK \<noteq> 0),
       writing_in_progress = (packed AND WRITING_IN_PROGRESS_MASK \<noteq> 0) \<rparr>"

definition SequenceState_to_packed :: "SequenceState \<Rightarrow> u64" where
  "SequenceState_to_packed s =
     push_bit 63 (of_bool (stopped s))
     OR push_bit 62 (of_bool (writing_in_progress s))
     OR (sequence s AND SEQUENCE_MASK)"

section \<open>ReadersStateCount\<close>

record ReadersStateCount =
  target_read :: u16
  consumers :: u16
  active_readers :: u16
  data_consumed :: u16

definition TARGET_SHIFT :: nat where "TARGET_SHIFT = 16 * 0"
definition CONSUMERS_SHIFT :: nat where "CONSUMERS_SHIFT = 16 * 1"
definition ACTIVE_SHIFT :: nat where "ACTIVE_SHIFT = 16 * 2"
definition CONSUMED_SHIFT :: nat where "CONSUMED_SHIFT = 16 * 3"

definition ReadersStateCount_from :: "u64 \<Rightarrow> ReadersStateCount" where
  "ReadersStateCount_from packed =
     \<lparr> target_read = ucast (drop_bit TARGET_SHIFT packed),
       consumers = ucast (drop_bit CONSUMERS_SHIFT packed),
       active_readers = ucast (drop_bit ACTIVE_SHIFT packed),
       data_consumed = ucast (drop_bit CONSUMED_SHIFT packed) \<rparr>"

definition ReadersStateCount_to_packed :: "ReadersStateCount \<Rightarrow> u64" where
  "ReadersStateCount_to_packed r =
     push_bit TARGET_SHIFT (ucast (target_read r))
     OR push_bit CONSUMERS_SHIFT (ucast (consumers r))
     OR push_bit ACTIVE_SHIFT (ucast (active_readers r))
     OR push_bit CONSUMED_SHIFT (ucast (data_consumed r))"

definition get_target_consumed :: "ReadersStateCount \<Rightarrow> u16" where
  "get_target_consumed r = min (target_read r) (consumers r)"


lemmas shift_defs =
  ReadersStateCount_from_def ReadersStateCount_to_packed_def
  TARGET_SHIFT_def CONSUMERS_SHIFT_def ACTIVE_SHIFT_def CONSUMED_SHIFT_def

section \<open>Masks\<close>

lemma mask_bits [packed_simps]:
  "bit STOPPED_MASK n \<longleftrightarrow> n = 63"
  "bit WRITING_IN_PROGRESS_MASK n \<longleftrightarrow> n = 62"
  "bit SEQUENCE_MASK n \<longleftrightarrow> n < 62"
proof -
  show s: "bit STOPPED_MASK n \<longleftrightarrow> n = 63" for n
    unfolding STOPPED_MASK_def bit_push_bit_iff by (auto simp: bit_1_iff)
  show w: "bit WRITING_IN_PROGRESS_MASK n \<longleftrightarrow> n = 62" for n
    unfolding WRITING_IN_PROGRESS_MASK_def bit_push_bit_iff by (auto simp: bit_1_iff)
  show "bit SEQUENCE_MASK n \<longleftrightarrow> n < 62"
    unfolding SEQUENCE_MASK_def bit_not_iff bit_or_iff s w by auto
qed

lemma stopped_from [packed_simps]: "stopped (SequenceState_from p) = bit p 63"
proof -
  have "p AND STOPPED_MASK \<noteq> 0 \<longleftrightarrow> (\<exists>n. bit (p AND STOPPED_MASK) n)"
    by (metis bit_eq_iff bit_0_eq bot_apply bot_bool_def)
  then show ?thesis by (simp add: SequenceState_from_def bit_and_iff mask_bits)
qed

lemma writing_from [packed_simps]: "writing_in_progress (SequenceState_from p) = bit p 62"
proof -
  have "p AND WRITING_IN_PROGRESS_MASK \<noteq> 0 \<longleftrightarrow> (\<exists>n. bit (p AND WRITING_IN_PROGRESS_MASK) n)"
    by (metis bit_eq_iff bit_0_eq bot_apply bot_bool_def)
  then show ?thesis by (simp add: SequenceState_from_def bit_and_iff mask_bits)
qed

lemma sequence_from [packed_simps]: "sequence (SequenceState_from p) = p AND SEQUENCE_MASK"
  by (simp add: SequenceState_from_def)

lemma SEQUENCE_MASK_eq: "SEQUENCE_MASK = mask 62"
  by (rule bit_word_eqI) (simp add: mask_bits bit_mask_iff)

lemma mask_numerals:
  "STOPPED_MASK = 9223372036854775808" "WRITING_IN_PROGRESS_MASK = 4611686018427387904"
  "SEQUENCE_MASK = 4611686018427387903"
  by (simp_all add: STOPPED_MASK_def WRITING_IN_PROGRESS_MASK_def SEQUENCE_MASK_eq push_bit_eq_mult mask_eq_exp_minus_1)

lemma and_SEQUENCE_MASK_id: "q AND SEQUENCE_MASK = q \<longleftrightarrow> unat q < 2 ^ 62"
proof -
  have "q AND SEQUENCE_MASK = take_bit 62 q"
    by (simp add: SEQUENCE_MASK_eq take_bit_eq_mask)
  then show ?thesis
    by (simp add: word_unat_eq_iff unsigned_take_bit_eq take_bit_nat_eq_self_iff)
qed

section \<open>Round trips\<close>

lemma bit_to_packed:
  "bit (SequenceState_to_packed s) n \<longleftrightarrow>
     n = 63 \<and> stopped s \<or> n = 62 \<and> writing_in_progress s \<or> n < 62 \<and> bit (sequence s) n"
  by (auto simp: SequenceState_to_packed_def bit_simps mask_bits)

lemma SequenceState_from_to_packed [packed_simps]:
  "SequenceState_from (SequenceState_to_packed s) = s\<lparr>sequence := sequence s AND SEQUENCE_MASK\<rparr>"
proof (rule SequenceState.equality)
  show "sequence (SequenceState_from (SequenceState_to_packed s)) =
        sequence (s\<lparr>sequence := sequence s AND SEQUENCE_MASK\<rparr>)"
    by (rule bit_word_eqI) (auto simp: packed_simps bit_to_packed bit_and_iff)
qed (simp_all add: packed_simps bit_to_packed)

lemma SequenceState_to_packed_from [packed_simps]:
  "SequenceState_to_packed (SequenceState_from p) = p"
proof (rule bit_word_eqI)
  fix n
  assume "n < LENGTH(64)"
  then have "n = 63 \<or> n = 62 \<or> n < 62" by auto
  then show "bit (SequenceState_to_packed (SequenceState_from p)) n = bit p n"
    by (auto simp: bit_to_packed packed_simps bit_and_iff)
qed

lemma SequenceState_from_set_writing [packed_simps]:
  "SequenceState_from (p OR WRITING_IN_PROGRESS_MASK) =
   (SequenceState_from p)\<lparr>writing_in_progress := True\<rparr>"
proof (rule SequenceState.equality)
  show "sequence (SequenceState_from (p OR WRITING_IN_PROGRESS_MASK)) =
        sequence ((SequenceState_from p)\<lparr>writing_in_progress := True\<rparr>)"
    by (rule bit_word_eqI) (auto simp: packed_simps bit_and_iff bit_or_iff)
qed (simp_all add: packed_simps bit_or_iff)

lemma SequenceState_from_clear_writing [packed_simps]:
  "SequenceState_from (p AND NOT WRITING_IN_PROGRESS_MASK) =
   (SequenceState_from p)\<lparr>writing_in_progress := False\<rparr>"
proof (rule SequenceState.equality)
  show "sequence (SequenceState_from (p AND NOT WRITING_IN_PROGRESS_MASK)) =
        sequence ((SequenceState_from p)\<lparr>writing_in_progress := False\<rparr>)"
    by (rule bit_word_eqI) (auto simp: packed_simps bit_and_iff bit_not_iff)
qed (simp_all add: packed_simps bit_and_iff bit_not_iff)

lemma SequenceState_from_set_stopped [packed_simps]:
  "SequenceState_from (p OR STOPPED_MASK) = (SequenceState_from p)\<lparr>stopped := True\<rparr>"
proof (rule SequenceState.equality)
  show "sequence (SequenceState_from (p OR STOPPED_MASK)) =
        sequence ((SequenceState_from p)\<lparr>stopped := True\<rparr>)"
    by (rule bit_word_eqI) (auto simp: packed_simps bit_and_iff bit_or_iff)
qed (simp_all add: packed_simps bit_or_iff)

lemma sequence_masked: "sequence (SequenceState_from p) AND SEQUENCE_MASK = sequence (SequenceState_from p)"
  by (simp add: packed_simps and.assoc)

lemma ReadersStateCount_from_to_packed [packed_simps]:
  "ReadersStateCount_from (ReadersStateCount_to_packed r) = r"
proof (rule ReadersStateCount.equality)
  show "target_read (ReadersStateCount_from (ReadersStateCount_to_packed r)) = target_read r"
    by (rule bit_word_eqI) (auto simp: shift_defs bit_simps dest: bit_imp_le_length)
  show "consumers (ReadersStateCount_from (ReadersStateCount_to_packed r)) = consumers r"
    by (rule bit_word_eqI) (auto simp: shift_defs bit_simps dest: bit_imp_le_length)
  show "active_readers (ReadersStateCount_from (ReadersStateCount_to_packed r)) = active_readers r"
    by (rule bit_word_eqI) (auto simp: shift_defs bit_simps dest: bit_imp_le_length)
  show "data_consumed (ReadersStateCount_from (ReadersStateCount_to_packed r)) = data_consumed r"
    by (rule bit_word_eqI) (auto simp: shift_defs bit_simps dest: bit_imp_le_length)
qed simp

lemma ReadersStateCount_to_packed_from [packed_simps]:
  "ReadersStateCount_to_packed (ReadersStateCount_from p) = p"
proof (rule bit_word_eqI)
  fix n
  assume "n < LENGTH(64)"
  then consider "n < 16" | "16 \<le> n" "n < 32" | "32 \<le> n" "n < 48" | "48 \<le> n" "n < 64"
    by fastforce
  then show "bit (ReadersStateCount_to_packed (ReadersStateCount_from p)) n = bit p n"
    by cases (auto simp: shift_defs bit_simps)
qed

lemma ReadersStateCount_to_packed_inject [packed_simps]:
  "ReadersStateCount_to_packed r = ReadersStateCount_to_packed r' \<longleftrightarrow> r = r'"
  by (metis ReadersStateCount_from_to_packed)

section \<open>Properties\<close>

text \<open>
  C23: The two packed words lose nothing. Every 64-bit word is the packing of the state it unpacks to, so
  packing is onto and the compare-exchange loops compare states when they compare words; unpacking what
  was packed gives back the reader counts, all four 16-bit fields at any values, and the sequence state
  exactly when its number fits below the two flags.
\<close>

theorem packed_round_trip:
  "SequenceState_to_packed (SequenceState_from p) = p \<and>
   ReadersStateCount_to_packed (ReadersStateCount_from p) = p \<and>
   ReadersStateCount_from (ReadersStateCount_to_packed r) = r \<and>
   (SequenceState_from (SequenceState_to_packed s) = s \<longleftrightarrow> unat (sequence s) < 2 ^ 62)"
proof -
  have "s\<lparr>sequence := sequence s AND SEQUENCE_MASK\<rparr> = s \<longleftrightarrow> sequence s AND SEQUENCE_MASK = sequence s"
    by (metis SequenceState.select_convs(1) SequenceState.surjective SequenceState.update_convs(1))
  then show ?thesis by (simp add: packed_simps and_SEQUENCE_MASK_id)
qed

end
