(* ===== verification/Futex_Lock.thy ===== *)
theory Futex_Lock
  imports Ipc_Prelude
begin

text \<open>
  The futex-based lock (\<open>src/sync/lock/futex_lock.rs\<close>) and the mutex around it
  (\<open>src/sync/lock/mutex.rs\<close>), one atomic access per step. A thread inside \<open>lock\<close> or \<open>unlock\<close> is at a
  program counter of the data types \<open>lock_pc\<close> and \<open>unlock_pc\<close>; \<open>lock_step\<close> and \<open>unlock_step\<close> perform
  its next access. Any number of threads interleave in \<open>lock_sys_step\<close>.

  The futex system call is the operating system's: it is the parameter \<open>futex_kernel\<close>, the queue of
  sleeping threads behind one futex word. What the documentation of \<open>futex(2)\<close> promises of it is
  \<open>futex_laws\<close>. Mutual exclusion needs none of these laws; that no wake-up is lost does.
\<close>

section \<open>The futex system call, a parameter\<close>

text \<open>
  \<open>kernel_wait t cur expected q\<close> is the call \<open>FUTEX_WAIT\<close> of thread \<open>t\<close> on a word that holds \<open>cur\<close>:
  \<open>True\<close> puts the caller to sleep, \<open>False\<close> returns at once. \<open>kernel_wake n q\<close> is \<open>FUTEX_WAKE\<close> for at
  most \<open>n\<close> sleepers. \<open>kernel_interrupt t q\<close> is a return of the sleeping call of \<open>t\<close> for any other
  reason (a signal, a spurious wake-up).
\<close>

record 'k futex_kernel =
  kernel_wait :: "tid \<Rightarrow> u32 \<Rightarrow> u32 \<Rightarrow> 'k \<Rightarrow> bool \<times> 'k"
  kernel_wake :: "nat \<Rightarrow> 'k \<Rightarrow> 'k"
  kernel_interrupt :: "tid \<Rightarrow> 'k \<Rightarrow> 'k"
  kernel_asleep :: "'k \<Rightarrow> tid set"

definition futex_laws :: "'k futex_kernel \<Rightarrow> bool" where
  "futex_laws K \<longleftrightarrow>
     (\<forall>t cur expected q. cur \<noteq> expected \<longrightarrow> kernel_wait K t cur expected q = (False, q)) \<and>
     (\<forall>t cur q. fst (kernel_wait K t cur cur q) \<longrightarrow>
        kernel_asleep K (snd (kernel_wait K t cur cur q)) = insert t (kernel_asleep K q)) \<and>
     (\<forall>t cur q. \<not> fst (kernel_wait K t cur cur q) \<longrightarrow>
        kernel_asleep K (snd (kernel_wait K t cur cur q)) = kernel_asleep K q) \<and>
     (\<forall>n q. kernel_asleep K (kernel_wake K n q) \<subseteq> kernel_asleep K q) \<and>
     (\<forall>n q. 0 < n \<longrightarrow> kernel_asleep K q \<noteq> {} \<longrightarrow> kernel_asleep K (kernel_wake K n q) \<noteq> kernel_asleep K q) \<and>
     (\<forall>n q. finite (kernel_asleep K q) \<longrightarrow> card (kernel_asleep K q) \<le> n \<longrightarrow>
        kernel_asleep K (kernel_wake K n q) = {}) \<and>
     (\<forall>t q. kernel_asleep K (kernel_interrupt K t q) = kernel_asleep K q - {t})"

text \<open>A first-in first-out queue of sleepers satisfies the laws.\<close>

definition fifo_kernel :: "tid list futex_kernel" where
  "fifo_kernel =
     \<lparr> kernel_wait = (\<lambda>t cur expected q. if cur = expected then (True, q @ [t]) else (False, q)),
       kernel_wake = (\<lambda>n q. drop n (remdups q)),
       kernel_interrupt = (\<lambda>t q. filter (\<lambda>u. u \<noteq> t) q),
       kernel_asleep = set \<rparr>"

type_synonym 'k futex = "u32 \<times> 'k"

text \<open>
  \<open>futex_wait\<close> up to the point where the thread is queued (\<open>True\<close>) or the call returns at once; the
  callers ignore its result.
\<close>

definition futex_wait :: "'k futex_kernel \<Rightarrow> tid \<Rightarrow> u32 \<Rightarrow> 'k futex \<Rightarrow> bool \<times> 'k futex" where
  [simp]: "futex_wait K t state f =
     (case kernel_wait K t (fst f) state (snd f) of (queued, q) \<Rightarrow> (queued, (fst f, q)))"

text \<open>\<open>futex_wake_one\<close> and \<open>futex_wake_all\<close>, for the number of threads to wake.\<close>

definition futex_wake :: "'k futex_kernel \<Rightarrow> nat \<Rightarrow> 'k futex \<Rightarrow> 'k futex" where
  [simp]: "futex_wake K n f = (fst f, kernel_wake K n (snd f))"

section \<open>FutexLock\<close>

definition UNLOCKED :: u32 where "UNLOCKED = 0"
definition LOCKED :: u32 where "LOCKED = 1"
definition CONTENDED :: u32 where "CONTENDED = 2"

text \<open>\<open>compare_exchange\<close> and \<open>swap\<close> of an atomic word: the new word, and the value found.\<close>

definition compare_exchange :: "'w \<Rightarrow> 'w \<Rightarrow> 'w \<Rightarrow> 'w \<times> ('w + 'w)" where
  "compare_exchange current new w = (if w = current then (new, Inr w) else (w, Inl w))"

definition swap_word :: "'w \<Rightarrow> 'w \<Rightarrow> 'w \<times> 'w" where
  "swap_word new w = (new, w)"

definition try_lock :: "'k futex \<Rightarrow> 'k futex \<times> bool" where
  "try_lock c =
     (case compare_exchange UNLOCKED LOCKED (fst c) of
        (w, Inr _) \<Rightarrow> ((w, snd c), True)
      | (w, Inl _) \<Rightarrow> ((w, snd c), False))"

text \<open>The two call sites of \<open>spin\<close> in \<open>lock_contended\<close>: before the loop, and at the end of its body.\<close>

datatype spin_site = Before_loop | In_loop

datatype lock_pc =
    Lock_fast                   \<comment> \<open>the compare-exchange of \<open>lock\<close>\<close>
  | Lock_spin spin_site nat     \<comment> \<open>in \<open>spin\<close>, with the counter \<open>spin\<close>\<close>
  | Lock_retry                  \<comment> \<open>the compare-exchange of \<open>lock_contended\<close>\<close>
  | Lock_loop u32               \<comment> \<open>head of the loop, with the local \<open>state\<close>\<close>
  | Lock_wait                   \<comment> \<open>about to call \<open>futex_wait\<close>\<close>
  | Lock_asleep                 \<comment> \<open>inside \<open>futex_wait\<close>\<close>

text \<open>Where \<open>lock_contended\<close> goes with the value its \<open>spin\<close> returned.\<close>

fun after_spin :: "spin_site \<Rightarrow> u32 \<Rightarrow> lock_pc" where
  "after_spin Before_loop state = (if state = UNLOCKED then Lock_retry else Lock_loop state)"
| "after_spin In_loop state = Lock_loop state"

text \<open>One iteration of the loop of \<open>spin\<close>: \<open>Inr\<close> is the state it returns.\<close>

definition spin_iteration :: "nat \<Rightarrow> u32 \<Rightarrow> nat + u32" where
  "spin_iteration spin state =
     (if state \<noteq> LOCKED \<or> spin = 0 then Inr state else Inl (spin - 1))"

fun lock_step :: "'k futex_kernel \<Rightarrow> tid \<Rightarrow> lock_pc \<Rightarrow> 'k futex \<Rightarrow> ('k futex \<times> (lock_pc + unit)) option" where
  "lock_step K t Lock_fast (w, q) =
     (case compare_exchange UNLOCKED LOCKED w of
        (w', Inr _) \<Rightarrow> Some ((w', q), Inr ())
      | (w', Inl _) \<Rightarrow> Some ((w', q), Inl (Lock_spin Before_loop 100)))"
| "lock_step K t (Lock_spin site spin) (w, q) =
     (case spin_iteration spin w of
        Inl spin' \<Rightarrow> Some ((w, q), Inl (Lock_spin site spin'))
      | Inr state \<Rightarrow> Some ((w, q), Inl (after_spin site state)))"
| "lock_step K t Lock_retry (w, q) =
     (case compare_exchange UNLOCKED LOCKED w of
        (w', Inr _) \<Rightarrow> Some ((w', q), Inr ())
      | (w', Inl s) \<Rightarrow> Some ((w', q), Inl (Lock_loop s)))"
| "lock_step K t (Lock_loop state) (w, q) =
     (if state \<noteq> CONTENDED
      then (case swap_word CONTENDED w of
              (w', old) \<Rightarrow> if old = UNLOCKED then Some ((w', q), Inr ())
                          else Some ((w', q), Inl Lock_wait))
      else Some ((w, q), Inl Lock_wait))"
| "lock_step K t Lock_wait (w, q) =
     (case futex_wait K t CONTENDED (w, q) of
        (True, f) \<Rightarrow> Some (f, Inl Lock_asleep)
      | (False, f) \<Rightarrow> Some (f, Inl (Lock_spin In_loop 100)))"
| "lock_step K t Lock_asleep (w, q) =
     (if t \<in> kernel_asleep K q then None else Some ((w, q), Inl (Lock_spin In_loop 100)))"

datatype unlock_pc =
    Unlock_swap   \<comment> \<open>the swap of \<open>unlock\<close>\<close>
  | Unlock_wake   \<comment> \<open>about to call \<open>futex_wake_one\<close>\<close>

fun unlock_step :: "'k futex_kernel \<Rightarrow> unlock_pc \<Rightarrow> 'k futex \<Rightarrow> 'k futex \<times> (unlock_pc + unit)" where
  "unlock_step K Unlock_swap (w, q) =
     (case swap_word UNLOCKED w of
        (w', old) \<Rightarrow> ((w', q), if old = CONTENDED then Inl Unlock_wake else Inr ()))"
| "unlock_step K Unlock_wake (w, q) = (futex_wake K 1 (w, q), Inr ())"

section \<open>SharedMutex: threads that lock and unlock\<close>

text \<open>
  The life of a thread with respect to one \<open>SharedMutex\<close>: \<open>Holding\<close> is the lifetime of the
  \<open>SharedMutexGuard\<close> that \<open>lock\<close> or \<open>try_lock\<close> returned, and its \<open>Drop\<close> runs \<open>unlock\<close>.
\<close>

datatype mutex_client = Out | Acquiring lock_pc | Holding | Dropping unlock_pc

record 'k lock_sys =
  cell :: "'k futex"
  clients :: "tid \<Rightarrow> mutex_client"

definition lock_sys_initial :: "'k futex_kernel \<Rightarrow> 'k lock_sys \<Rightarrow> bool" where
  "lock_sys_initial K s \<longleftrightarrow>
     fst (cell s) = UNLOCKED \<and> kernel_asleep K (snd (cell s)) = {} \<and> clients s = (\<lambda>_. Out)"

inductive lock_sys_step :: "'k futex_kernel \<Rightarrow> 'k lock_sys \<Rightarrow> 'k lock_sys \<Rightarrow> bool" for K where
  call_lock: "clients s t = Out \<Longrightarrow>
     lock_sys_step K s (s\<lparr>clients := (clients s)(t := Acquiring Lock_fast)\<rparr>)"
| call_try_lock: "clients s t = Out \<Longrightarrow> try_lock (cell s) = (c, ok) \<Longrightarrow>
     lock_sys_step K s (s\<lparr>cell := c, clients := (clients s)(t := if ok then Holding else Out)\<rparr>)"
| locking: "clients s t = Acquiring pc \<Longrightarrow> lock_step K t pc (cell s) = Some (c, Inl pc') \<Longrightarrow>
     lock_sys_step K s (s\<lparr>cell := c, clients := (clients s)(t := Acquiring pc')\<rparr>)"
| locked: "clients s t = Acquiring pc \<Longrightarrow> lock_step K t pc (cell s) = Some (c, Inr ()) \<Longrightarrow>
     lock_sys_step K s (s\<lparr>cell := c, clients := (clients s)(t := Holding)\<rparr>)"
| drop_guard: "clients s t = Holding \<Longrightarrow>
     lock_sys_step K s (s\<lparr>clients := (clients s)(t := Dropping Unlock_swap)\<rparr>)"
| unlocking: "clients s t = Dropping pc \<Longrightarrow> unlock_step K pc (cell s) = (c, Inl pc') \<Longrightarrow>
     lock_sys_step K s (s\<lparr>cell := c, clients := (clients s)(t := Dropping pc')\<rparr>)"
| unlocked: "clients s t = Dropping pc \<Longrightarrow> unlock_step K pc (cell s) = (c, Inr ()) \<Longrightarrow>
     lock_sys_step K s (s\<lparr>cell := c, clients := (clients s)(t := Out)\<rparr>)"
| interrupt: "lock_sys_step K s (s\<lparr>cell := (fst (cell s), kernel_interrupt K t (snd (cell s)))\<rparr>)"


inductive lock_reach :: "'k futex_kernel \<Rightarrow> 'k lock_sys \<Rightarrow> bool" for K where
  lock_reach_initial: "lock_sys_initial K s \<Longrightarrow> lock_reach K s"
| lock_reach_step: "lock_reach K s \<Longrightarrow> lock_sys_step K s s' \<Longrightarrow> lock_reach K s'"

interpretation lk: reachability "lock_sys_initial K" "lock_sys_step K" "lock_reach K"
  for K :: "'k futex_kernel"
proof
  show "lock_reach K s" if "lock_sys_initial K s" for s
    using that by (rule lock_reach_initial)
  show "lock_reach K s'" if "lock_reach K s" "lock_sys_step K s s'" for s s'
    using that by (rule lock_reach_step)
  show "P s" if "lock_reach K s" "\<And>s. lock_sys_initial K s \<Longrightarrow> P s"
      "\<And>s s'. lock_reach K s \<Longrightarrow> P s \<Longrightarrow> lock_sys_step K s s' \<Longrightarrow> P s'" for s P
    using that(1) by (induction rule: lock_reach.induct) (blast intro: that(2,3))+
qed

section \<open>Mutual exclusion\<close>

lemmas lock_words = UNLOCKED_def LOCKED_def CONTENDED_def
lemmas word_ops = compare_exchange_def swap_word_def

lemma lock_words_distinct [simp]:
  "LOCKED \<noteq> UNLOCKED" "CONTENDED \<noteq> UNLOCKED" "LOCKED \<noteq> CONTENDED"
  "UNLOCKED \<noteq> LOCKED" "UNLOCKED \<noteq> CONTENDED" "CONTENDED \<noteq> LOCKED"
  by (simp_all add: lock_words)

text \<open>The guard is alive, or its drop has not yet released the word.\<close>

fun holds_lock :: "mutex_client \<Rightarrow> bool" where
  "holds_lock Holding = True"
| "holds_lock (Dropping Unlock_swap) = True"
| "holds_lock _ = False"

text \<open>What one access of \<open>lock\<close> and \<open>unlock\<close> does to the futex word.\<close>

lemma lock_step_acquires:
  "lock_step K t pc c = Some (c', Inr ()) \<Longrightarrow>
     fst c = UNLOCKED \<and> (fst c' = LOCKED \<or> fst c' = CONTENDED) \<and> snd c' = snd c"
  by (cases c; cases pc) (auto simp: word_ops spin_iteration_def split: if_splits prod.splits bool.splits)

lemma lock_step_continues:
  "lock_step K t pc c = Some (c', Inl pc') \<Longrightarrow>
     fst c' = fst c \<or> fst c \<noteq> UNLOCKED \<and> fst c' = CONTENDED"
  by (cases c; cases pc) (auto simp: word_ops spin_iteration_def split: if_splits prod.splits bool.splits)

lemma unlock_step_swap:
  "unlock_step K Unlock_swap c = (c', r) \<Longrightarrow>
     fst c' = UNLOCKED \<and> snd c' = snd c \<and> r = (if fst c = CONTENDED then Inl Unlock_wake else Inr ())"
  by (cases c) (auto simp: word_ops)

lemma unlock_step_wake:
  "unlock_step K Unlock_wake c = (c', r) \<Longrightarrow>
     fst c' = fst c \<and> snd c' = kernel_wake K 1 (snd c) \<and> r = Inr ()"
  by (cases c) auto

lemma try_lock_result:
  "try_lock c = (c', ok) \<Longrightarrow> snd c' = snd c \<and>
     (if ok then fst c = UNLOCKED \<and> fst c' = LOCKED else fst c \<noteq> UNLOCKED \<and> fst c' = fst c)"
  by (auto simp: try_lock_def word_ops split: if_splits)

definition mutex_inv :: "'k lock_sys \<Rightarrow> bool" where
  "mutex_inv s \<longleftrightarrow>
     fst (cell s) \<in> {UNLOCKED, LOCKED, CONTENDED} \<and>
     (\<forall>t u. holds_lock (clients s t) \<longrightarrow> holds_lock (clients s u) \<longrightarrow> t = u) \<and>
     (fst (cell s) = UNLOCKED \<longleftrightarrow> (\<forall>t. \<not> holds_lock (clients s t)))"

lemma mutex_inv_initial: "lock_sys_initial K s \<Longrightarrow> mutex_inv s"
  by (simp add: mutex_inv_def lock_sys_initial_def)

text \<open>The three ways a step may move the invariant: nothing changes hands, or the lock is taken or freed.\<close>

lemma mutex_inv_frame:
  assumes "mutex_inv s" "holds_lock p = holds_lock (clients s t)"
    and "fst c = fst (cell s) \<or> fst (cell s) \<noteq> UNLOCKED \<and> fst c = CONTENDED"
  shows "mutex_inv (s\<lparr>cell := c, clients := (clients s)(t := p)\<rparr>)"
proof -
  have "holds_lock (((clients s)(t := p)) u) = holds_lock (clients s u)" for u
    using assms(2) by simp
  with assms(1,3) show ?thesis by (auto simp: mutex_inv_def simp del: fun_upd_apply)
qed

lemma mutex_inv_take:
  assumes "mutex_inv s" "fst (cell s) = UNLOCKED" "holds_lock p" "fst c = LOCKED \<or> fst c = CONTENDED"
  shows "mutex_inv (s\<lparr>cell := c, clients := (clients s)(t := p)\<rparr>)"
  using assms by (auto simp: mutex_inv_def split: if_splits)

lemma mutex_inv_free:
  assumes "mutex_inv s" "holds_lock (clients s t)" "\<not> holds_lock p" "fst c = UNLOCKED"
  shows "mutex_inv (s\<lparr>cell := c, clients := (clients s)(t := p)\<rparr>)"
  using assms by (fastforce simp: mutex_inv_def split: if_splits)

lemma mutex_inv_step: "lock_sys_step K s s' \<Longrightarrow> mutex_inv s \<Longrightarrow> mutex_inv s'"
proof (induction rule: lock_sys_step.induct)
  case (call_lock s t)
  then show ?case using mutex_inv_frame [of s "Acquiring Lock_fast" t "cell s"] by simp
next
  case (call_try_lock s t c ok)
  then show ?case
    by (cases ok) (auto dest!: try_lock_result intro: mutex_inv_take mutex_inv_frame)
next
  case (locking s t pc c pc')
  then show ?case by (intro mutex_inv_frame) (auto dest: lock_step_continues)
next
  case (locked s t pc c)
  then show ?case by (intro mutex_inv_take) (auto dest: lock_step_acquires)
next
  case (drop_guard s t)
  then show ?case using mutex_inv_frame [of s "Dropping Unlock_swap" t "cell s"] by simp
next
  case (unlocking s t pc c pc')
  then show ?case
    by (cases pc) (auto dest!: unlock_step_swap unlock_step_wake split: if_splits intro: mutex_inv_free)
next
  case (unlocked s t pc c)
  then show ?case
    by (cases pc)
      (auto dest!: unlock_step_swap unlock_step_wake split: if_splits intro: mutex_inv_free mutex_inv_frame)
next
  case (interrupt s t)
  then show ?case
    using mutex_inv_frame [of s "clients s t" t "(fst (cell s), kernel_interrupt K t (snd (cell s)))"]
    by simp
qed

lemma mutex_inv_reach: "lock_reach K s \<Longrightarrow> mutex_inv s"
  by (erule lk.invariant_rule) (auto intro: mutex_inv_initial mutex_inv_step)


section \<open>No wake-up is lost\<close>

lemma futex_laws_fifo: "futex_laws fifo_kernel"
proof -
  have "set (drop n (remdups q)) \<subseteq> set q" for n and q :: "tid list"
    by (metis set_drop_subset set_remdups)
  moreover have "set (drop n (remdups q)) \<noteq> set q" if "0 < n" "set q \<noteq> {}" for n and q :: "tid list"
  proof
    assume "set (drop n (remdups q)) = set q"
    then have "card (set (drop n (remdups q))) = card (set (remdups q))" by simp
    then have "length (drop n (remdups q)) = length (remdups q)"
      by (simp only: distinct_card distinct_drop distinct_remdups)
    then have "length (remdups q) - n = length (remdups q)" by simp
    moreover have "0 < length (remdups q)" using that(2) by (cases q) auto
    ultimately show False using that(1) by linarith
  qed
  moreover have "set (drop n (remdups q)) = {}" if "card (set q) \<le> n" for n and q :: "tid list"
    using that by (simp add: length_remdups_card_conv)
  ultimately show ?thesis by (auto simp: futex_laws_def fifo_kernel_def)
qed

lemma kernel_wait_mismatch:
  "futex_laws K \<Longrightarrow> cur \<noteq> expected \<Longrightarrow> kernel_wait K t cur expected q = (False, q)"
  by (simp add: futex_laws_def)

lemma kernel_wait_sleeps:
  assumes "futex_laws K" "kernel_wait K t cur expected q = (True, q')"
  shows "cur = expected \<and> kernel_asleep K q' = insert t (kernel_asleep K q)"
proof -
  have eq: "cur = expected"
    using assms kernel_wait_mismatch [OF assms(1)] by fastforce
  have "fst (kernel_wait K t cur cur q) \<longrightarrow>
      kernel_asleep K (snd (kernel_wait K t cur cur q)) = insert t (kernel_asleep K q)"
    using assms(1) by (simp add: futex_laws_def)
  with assms(2) eq show ?thesis by simp
qed

lemma kernel_wait_returns:
  assumes "futex_laws K" "kernel_wait K t cur expected q = (False, q')"
  shows "kernel_asleep K q' = kernel_asleep K q"
proof (cases "cur = expected")
  case True
  have "\<not> fst (kernel_wait K t cur cur q) \<longrightarrow>
      kernel_asleep K (snd (kernel_wait K t cur cur q)) = kernel_asleep K q"
    using assms(1) by (simp add: futex_laws_def)
  with assms(2) True show ?thesis by simp
next
  case False
  with assms show ?thesis by (simp add: kernel_wait_mismatch)
qed

lemma kernel_wake_subset:
  "futex_laws K \<Longrightarrow> kernel_asleep K (kernel_wake K n q) \<subseteq> kernel_asleep K q"
  by (simp add: futex_laws_def)

lemma kernel_wake_some:
  assumes "futex_laws K" "0 < n" "kernel_asleep K q \<noteq> {}"
  shows "\<exists>t. t \<in> kernel_asleep K q \<and> t \<notin> kernel_asleep K (kernel_wake K n q)"
proof -
  have "kernel_asleep K (kernel_wake K n q) \<noteq> kernel_asleep K q"
    using assms unfolding futex_laws_def by blast
  with kernel_wake_subset [OF assms(1)] show ?thesis by blast
qed

lemma kernel_wake_all:
  "futex_laws K \<Longrightarrow> finite (kernel_asleep K q) \<Longrightarrow> card (kernel_asleep K q) \<le> n \<Longrightarrow>
     kernel_asleep K (kernel_wake K n q) = {}"
  by (simp add: futex_laws_def)

lemma kernel_interrupt_asleep:
  "futex_laws K \<Longrightarrow> kernel_asleep K (kernel_interrupt K t q) = kernel_asleep K q - {t}"
  by (simp add: futex_laws_def)

text \<open>
  A thread is on duty when it is about to wake a sleeper, or is awake in the loop of
  \<open>lock_contended\<close>, which it leaves only with the word at \<open>CONTENDED\<close>.
\<close>

fun on_duty :: "mutex_client \<Rightarrow> bool" where
  "on_duty (Dropping Unlock_wake) = True"
| "on_duty (Acquiring (Lock_spin In_loop _)) = True"
| "on_duty (Acquiring (Lock_loop _)) = True"
| "on_duty (Acquiring Lock_wait) = True"
| "on_duty _ = False"

definition asleep :: "'k futex_kernel \<Rightarrow> 'k lock_sys \<Rightarrow> tid set" where
  "asleep K s = kernel_asleep K (snd (cell s))"

definition attended :: "'k futex_kernel \<Rightarrow> 'k lock_sys \<Rightarrow> bool" where
  "attended K s \<longleftrightarrow>
     fst (cell s) = CONTENDED \<or> (\<exists>t. on_duty (clients s t)) \<or>
     (\<exists>t. clients s t = Acquiring Lock_asleep \<and> t \<notin> asleep K s)"

definition wake_inv :: "'k futex_kernel \<Rightarrow> 'k lock_sys \<Rightarrow> bool" where
  "wake_inv K s \<longleftrightarrow>
     (\<forall>t \<in> asleep K s. clients s t = Acquiring Lock_asleep) \<and>
     (asleep K s \<noteq> {} \<longrightarrow> attended K s)"


text \<open>Sleepers are inside \<open>futex_wait\<close>, and a thread that has not called it is not asleep.\<close>

lemma not_asleep: "wake_inv K s \<Longrightarrow> clients s t \<noteq> Acquiring Lock_asleep \<Longrightarrow> t \<notin> asleep K s"
  by (auto simp: wake_inv_def)

text \<open>
  A step that puts no one to sleep keeps the invariant when some thread is left attending to the
  sleepers that remain.
\<close>

lemma wake_inv_frame:
  assumes "wake_inv K s" "clients s t \<noteq> Acquiring Lock_asleep"
    and "kernel_asleep K (snd c) = asleep K s"
    and "on_duty p \<or> \<not> on_duty (clients s t) \<and> fst c = fst (cell s) \<or> fst c = CONTENDED
         \<or> \<not> on_duty (clients s t) \<and> fst (cell s) \<noteq> CONTENDED"
  shows "wake_inv K (s\<lparr>cell := c, clients := (clients s)(t := p)\<rparr>)"
proof -
  let ?s' = "s\<lparr>cell := c, clients := (clients s)(t := p)\<rparr>"
  have same: "asleep K ?s' = asleep K s" using assms(3) by (simp add: asleep_def)
  have t: "t \<notin> asleep K s" using assms(1,2) by (rule not_asleep)
  have "attended K ?s'" if "asleep K s \<noteq> {}"
  proof -
    from assms(1) that have att: "attended K s" by (simp add: wake_inv_def)
    show ?thesis
    proof (cases "on_duty p \<or> fst c = CONTENDED")
      case True
      then show ?thesis by (auto simp: attended_def intro: exI [of _ t])
    next
      case False
      with assms(4) have duty: "\<not> on_duty (clients s t)"
        and word: "fst (cell s) = CONTENDED \<longrightarrow> fst c = CONTENDED" by auto
      from att consider "fst (cell s) = CONTENDED" | u where "on_duty (clients s u)"
        | u where "clients s u = Acquiring Lock_asleep" "u \<notin> asleep K s"
        unfolding attended_def by blast
      then show ?thesis
      proof cases
        case 1
        with word show ?thesis by (simp add: attended_def)
      next
        case (2 u)
        with duty have "u \<noteq> t" by auto
        with 2 show ?thesis by (auto simp: attended_def intro!: exI [of _ u])
      next
        case (3 u)
        with assms(2) have "u \<noteq> t" by auto
        with 3 same show ?thesis by (auto simp: attended_def)
      qed
    qed
  qed
  with same t assms(1) show ?thesis by (auto simp: wake_inv_def)
qed

lemma wake_inv_sleep:
  assumes "wake_inv K s" "kernel_asleep K (snd c) = insert t (asleep K s)" "fst c = CONTENDED"
  shows "wake_inv K (s\<lparr>cell := c, clients := (clients s)(t := Acquiring Lock_asleep)\<rparr>)"
  using assms by (auto simp: wake_inv_def asleep_def attended_def)

lemma wake_inv_return:
  assumes "wake_inv K s" "t \<notin> asleep K s" "on_duty p" "kernel_asleep K (snd c) = asleep K s"
  shows "wake_inv K (s\<lparr>cell := c, clients := (clients s)(t := p)\<rparr>)"
  using assms by (auto simp: wake_inv_def asleep_def attended_def intro!: exI [of _ t])

lemma wake_inv_wake:
  assumes "futex_laws K" "wake_inv K s" "clients s t = Dropping Unlock_wake"
    and "snd c = kernel_wake K 1 (snd (cell s))"
  shows "wake_inv K (s\<lparr>cell := c, clients := (clients s)(t := Out)\<rparr>)"
proof -
  let ?s' = "s\<lparr>cell := c, clients := (clients s)(t := Out)\<rparr>"
  have sub: "asleep K ?s' \<subseteq> asleep K s"
    using assms(4) kernel_wake_subset [OF assms(1)] by (simp add: asleep_def)
  have t: "t \<notin> asleep K s" using assms(2,3) by (simp add: not_asleep)
  have "attended K ?s'" if "asleep K ?s' \<noteq> {}"
  proof -
    from that sub have "asleep K s \<noteq> {}" by blast
    then obtain u where u: "u \<in> asleep K s" "u \<notin> asleep K ?s'"
      using kernel_wake_some [OF assms(1), of 1 "snd (cell s)"] assms(4) by (auto simp: asleep_def)
    with t assms(2) have "u \<noteq> t" "clients s u = Acquiring Lock_asleep" by (auto simp: wake_inv_def)
    with u(2) show ?thesis by (auto simp: attended_def)
  qed
  with sub t assms(2) show ?thesis by (auto simp: wake_inv_def)
qed


lemma lock_step_queue:
  assumes "futex_laws K" "lock_step K t pc c = Some (c', Inl pc')"
  shows "pc' = Lock_asleep \<and> fst c' = CONTENDED \<and>
           kernel_asleep K (snd c') = insert t (kernel_asleep K (snd c)) \<or>
         pc' \<noteq> Lock_asleep \<and> kernel_asleep K (snd c') = kernel_asleep K (snd c) \<and>
           (pc = Lock_asleep \<longrightarrow> t \<notin> kernel_asleep K (snd c)) \<and>
           (fst c' = fst c \<or> fst c' = CONTENDED) \<and>
           (on_duty (Acquiring pc) \<or> pc = Lock_asleep \<longrightarrow> on_duty (Acquiring pc'))"
proof (cases c)
  case (Pair w q)
  show ?thesis
  proof (cases pc)
    case (Lock_spin site spin)
    with assms(2) Pair show ?thesis
      by (cases site) (auto simp: spin_iteration_def split: if_splits)
  next
    case Lock_wait
    with assms(2) Pair show ?thesis
      by (auto split: prod.splits bool.splits
          dest: kernel_wait_sleeps [OF assms(1)] kernel_wait_returns [OF assms(1)])
  qed (use assms(2) Pair in \<open>auto simp: word_ops split: if_splits\<close>)
qed

lemma lock_step_acquires_duty:
  "lock_step K t pc c = Some (c', Inr ()) \<Longrightarrow>
     pc \<noteq> Lock_asleep \<and> (on_duty (Acquiring pc) \<longrightarrow> fst c' = CONTENDED)"
  by (cases c; cases pc) (auto simp: word_ops spin_iteration_def split: if_splits prod.splits bool.splits)

lemma wake_inv_locking:
  assumes "futex_laws K" "wake_inv K s" "clients s t = Acquiring pc"
    and step: "lock_step K t pc (cell s) = Some (c, Inl pc')"
  shows "wake_inv K (s\<lparr>cell := c, clients := (clients s)(t := Acquiring pc')\<rparr>)"
proof (cases "pc' = Lock_asleep")
  case True
  with lock_step_queue [OF assms(1) step] assms(2) show ?thesis
    by (simp add: wake_inv_sleep asleep_def)
next
  case False
  with lock_step_queue [OF assms(1) step]
  have q: "kernel_asleep K (snd c) = asleep K s"
    and a: "pc = Lock_asleep \<longrightarrow> t \<notin> asleep K s"
    and w: "fst c = fst (cell s) \<or> fst c = CONTENDED"
    and d: "on_duty (Acquiring pc) \<or> pc = Lock_asleep \<longrightarrow> on_duty (Acquiring pc')"
    by (auto simp: asleep_def)
  show ?thesis
  proof (cases "pc = Lock_asleep")
    case True
    with assms(2) q a d show ?thesis by (intro wake_inv_return) auto
  next
    case False
    with assms(2,3) q w d show ?thesis by (intro wake_inv_frame) auto
  qed
qed

lemma wake_inv_interrupt:
  assumes "futex_laws K" "wake_inv K s"
  shows "wake_inv K (s\<lparr>cell := (fst (cell s), kernel_interrupt K t (snd (cell s)))\<rparr>)"
proof -
  let ?s' = "s\<lparr>cell := (fst (cell s), kernel_interrupt K t (snd (cell s)))\<rparr>"
  have rest: "asleep K ?s' = asleep K s - {t}"
    using kernel_interrupt_asleep [OF assms(1)] by (simp add: asleep_def)
  have "attended K ?s'" if "asleep K ?s' \<noteq> {}"
  proof -
    from that rest assms(2) have "attended K s" by (auto simp: wake_inv_def)
    with rest show ?thesis by (auto simp: attended_def)
  qed
  with rest assms(2) show ?thesis by (auto simp: wake_inv_def)
qed

lemma wake_inv_step:
  assumes "futex_laws K"
  shows "lock_sys_step K s s' \<Longrightarrow> wake_inv K s \<Longrightarrow> wake_inv K s'"
proof (induction rule: lock_sys_step.induct)
  case (call_lock s t)
  then show ?case using wake_inv_frame [of K s t "cell s" "Acquiring Lock_fast"] by (simp add: asleep_def)
next
  case (call_try_lock s t c ok)
  then show ?case
    by (intro wake_inv_frame) (auto simp: asleep_def dest!: try_lock_result split: if_splits)
next
  case (locking s t pc c pc')
  then show ?case by (intro wake_inv_locking [OF assms])
next
  case (locked s t pc c)
  from lock_step_acquires [OF locked.hyps(2)] lock_step_acquires_duty [OF locked.hyps(2)] locked
  show ?case by (intro wake_inv_frame) (auto simp: asleep_def)
next
  case (drop_guard s t)
  then show ?case using wake_inv_frame [of K s t "cell s" "Dropping Unlock_swap"] by (simp add: asleep_def)
next
  case (unlocking s t pc c pc')
  then show ?case
    by (cases pc; intro wake_inv_frame)
      (auto simp: asleep_def dest!: unlock_step_swap unlock_step_wake split: if_splits)
next
  case (unlocked s t pc c)
  then show ?case
  proof (cases pc)
    case Unlock_swap
    with unlocked show ?thesis
      by (intro wake_inv_frame) (auto simp: asleep_def dest!: unlock_step_swap split: if_splits)
  next
    case Unlock_wake
    with unlocked show ?thesis by (intro wake_inv_wake [OF assms]) (auto dest: unlock_step_wake)
  qed
next
  case (interrupt s t)
  then show ?case by (intro wake_inv_interrupt [OF assms])
qed

lemma wake_inv_initial: "lock_sys_initial K s \<Longrightarrow> wake_inv K s"
  by (simp add: wake_inv_def asleep_def lock_sys_initial_def)

lemma wake_inv_reach: "futex_laws K \<Longrightarrow> lock_reach K s \<Longrightarrow> wake_inv K s"
  by (erule lk.invariant_rule) (blast intro: wake_inv_initial wake_inv_step)+

section \<open>Running one thread alone\<close>

text \<open>At most \<open>n\<close> accesses of a thread inside \<open>lock\<close>, until it has the lock.\<close>

fun lock_run :: "'k futex_kernel \<Rightarrow> tid \<Rightarrow> nat \<Rightarrow> lock_pc \<Rightarrow> 'k futex \<Rightarrow> ('k futex \<times> (lock_pc + unit)) option" where
  "lock_run K t 0 pc c = Some (c, Inl pc)"
| "lock_run K t (Suc n) pc c =
     (case lock_step K t pc c of
        None \<Rightarrow> None
      | Some (c', Inr r) \<Rightarrow> Some (c', Inr r)
      | Some (c', Inl pc') \<Rightarrow> lock_run K t n pc' c')"

lemma lock_run_free:
  assumes "futex_laws K" "t \<notin> kernel_asleep K q"
  shows "\<exists>w. lock_run K t 4 pc (UNLOCKED, q) = Some ((w, q), Inr ())"
proof (cases pc)
  case (Lock_spin site n)
  then show ?thesis
    by (cases site) (simp_all add: eval_nat_numeral word_ops spin_iteration_def)
next
  case (Lock_loop state)
  with assms show ?thesis
    by (simp add: eval_nat_numeral word_ops spin_iteration_def kernel_wait_mismatch)
qed (use assms in \<open>simp_all add: eval_nat_numeral word_ops spin_iteration_def kernel_wait_mismatch\<close>)

section \<open>Executing schedules\<close>

text \<open>A scheduling decision, and the state it leads to when the named thread can make that move.\<close>

datatype lock_event = Do_lock tid | Do_try_lock tid | Do_step tid | Do_drop tid

definition lock_put :: "tid \<Rightarrow> 'k futex \<Rightarrow> mutex_client \<Rightarrow> 'k lock_sys \<Rightarrow> 'k lock_sys" where
  "lock_put t c p s = s\<lparr>cell := c, clients := (clients s)(t := p)\<rparr>"

fun lock_move :: "'k futex_kernel \<Rightarrow> lock_event \<Rightarrow> 'k lock_sys \<Rightarrow> 'k lock_sys option" where
  "lock_move K (Do_lock t) s =
     (if clients s t = Out then Some (lock_put t (cell s) (Acquiring Lock_fast) s) else None)"
| "lock_move K (Do_try_lock t) s =
     (if clients s t = Out
      then (case try_lock (cell s) of (c, ok) \<Rightarrow> Some (lock_put t c (if ok then Holding else Out) s))
      else None)"
| "lock_move K (Do_step t) s =
     (case clients s t of
        Acquiring pc \<Rightarrow>
          (case lock_step K t pc (cell s) of
             None \<Rightarrow> None
           | Some (c, Inl pc') \<Rightarrow> Some (lock_put t c (Acquiring pc') s)
           | Some (c, Inr _) \<Rightarrow> Some (lock_put t c Holding s))
      | Dropping pc \<Rightarrow>
          (case unlock_step K pc (cell s) of
             (c, Inl pc') \<Rightarrow> Some (lock_put t c (Dropping pc') s)
           | (c, Inr _) \<Rightarrow> Some (lock_put t c Out s))
      | _ \<Rightarrow> None)"
| "lock_move K (Do_drop t) s =
     (if clients s t = Holding then Some (lock_put t (cell s) (Dropping Unlock_swap) s) else None)"

fun lock_moves :: "'k futex_kernel \<Rightarrow> lock_event list \<Rightarrow> 'k lock_sys \<Rightarrow> 'k lock_sys option" where
  "lock_moves K [] s = Some s"
| "lock_moves K (e # es) s = (case lock_move K e s of None \<Rightarrow> None | Some s' \<Rightarrow> lock_moves K es s')"

lemma lock_move_step: "lock_move K e s = Some s' \<Longrightarrow> lock_sys_step K s s'"
proof (cases e)
  case (Do_lock t)
  assume "lock_move K e s = Some s'"
  with Do_lock show ?thesis
    using call_lock [of s t K] by (auto simp: lock_put_def split: if_splits)
next
  case (Do_drop t)
  assume "lock_move K e s = Some s'"
  with Do_drop show ?thesis
    using drop_guard [of s t K] by (auto simp: lock_put_def split: if_splits)
next
  case (Do_try_lock t)
  assume "lock_move K e s = Some s'"
  with Do_try_lock obtain c ok where "clients s t = Out" "try_lock (cell s) = (c, ok)"
    "s' = lock_put t c (if ok then Holding else Out) s"
    by (auto split: if_splits prod.splits)
  then show ?thesis using call_try_lock [of s t c ok K] by (simp add: lock_put_def)
qed (auto simp: lock_put_def split: if_splits mutex_client.splits option.splits prod.splits sum.splits
      intro: locking locked unlocking unlocked)

lemma lock_moves_reach: "lock_moves K es s = Some s' \<Longrightarrow> lock_reach K s \<Longrightarrow> lock_reach K s'"
  by (induction es arbitrary: s) (auto split: option.splits dest!: lock_move_step intro: lock_reach_step)

definition lock_start :: "tid list lock_sys" where
  "lock_start = \<lparr>cell = (UNLOCKED, []), clients = (\<lambda>_. Out)\<rparr>"

lemma lock_start_reach: "lock_reach fifo_kernel lock_start"
  by (rule lk.reach_initial) (simp add: lock_sys_initial_def lock_start_def fifo_kernel_def)

text \<open>
  A schedule that leaves thread 1 asleep on a free lock: it saw the lock free, lost the race for it,
  marked it contended and slept; thread 0 has just freed the word and is about to wake it.
\<close>

definition sleeper_schedule :: "lock_event list" where
  "sleeper_schedule =
     [Do_try_lock 0, Do_lock 1, Do_step 1, Do_drop 0, Do_step 0, Do_step 1,
      Do_try_lock 0, Do_step 1, Do_step 1, Do_step 1, Do_drop 0, Do_step 0]"

definition sleeper_state :: "tid list lock_sys" where
  "sleeper_state = the (lock_moves fifo_kernel sleeper_schedule lock_start)"


lemma sleeper_state_facts:
  "lock_reach fifo_kernel sleeper_state"
  "fst (cell sleeper_state) = UNLOCKED" "1 \<in> asleep fifo_kernel sleeper_state"
  "clients sleeper_state 1 = Acquiring Lock_asleep" "clients sleeper_state 0 = Dropping Unlock_wake"
proof -
  note run = sleeper_schedule_def lock_start_def fifo_kernel_def word_ops try_lock_def spin_iteration_def
    lock_put_def
  have some: "lock_moves fifo_kernel sleeper_schedule lock_start = Some sleeper_state"
    by (simp add: sleeper_state_def) (simp add: run)
  then show "lock_reach fifo_kernel sleeper_state"
    using lock_start_reach by (rule lock_moves_reach)
  show "fst (cell sleeper_state) = UNLOCKED" "1 \<in> asleep fifo_kernel sleeper_state"
    "clients sleeper_state 1 = Acquiring Lock_asleep" "clients sleeper_state 0 = Dropping Unlock_wake"
    by (simp_all add: sleeper_state_def asleep_def) (simp_all add: run)
qed

section \<open>Properties\<close>

text \<open>
  C5: At most one thread has a live \<open>SharedMutexGuard\<close> (or a drop that has not yet released the
  word), and while there is one the futex word is not \<open>UNLOCKED\<close>, in every interleaving of any number
  of threads and for every behaviour of the futex system call.
\<close>

theorem mutex_exclusion:
  assumes "lock_reach K s" and "holds_lock (clients s t)" and "t \<noteq> u"
  shows "\<not> holds_lock (clients s u) \<and> fst (cell s) \<noteq> UNLOCKED"
  using mutex_inv_reach [OF assms(1)] assms(2,3) by (auto simp: mutex_inv_def)

definition held_state :: "tid list lock_sys" where
  "held_state = the (lock_moves fifo_kernel [Do_lock 0, Do_step 0, Do_lock 1, Do_step 1] lock_start)"

lemma held_state_facts:
  "lock_reach fifo_kernel held_state" "holds_lock (clients held_state 0)"
  "clients held_state 1 = Acquiring (Lock_spin Before_loop 100)"
proof -
  note run = lock_start_def fifo_kernel_def word_ops try_lock_def lock_put_def
  have "lock_moves fifo_kernel [Do_lock 0, Do_step 0, Do_lock 1, Do_step 1] lock_start = Some held_state"
    by (simp add: held_state_def) (simp add: run)
  then show "lock_reach fifo_kernel held_state"
    using lock_start_reach by (rule lock_moves_reach)
  show "holds_lock (clients held_state 0)" "clients held_state 1 = Acquiring (Lock_spin Before_loop 100)"
    by (simp_all add: held_state_def run)
qed

theorem mutex_exclusion_witness:
  "lock_reach fifo_kernel held_state \<and> holds_lock (clients held_state 0) \<and>
   \<not> holds_lock (clients held_state 1) \<and> fst (cell held_state) \<noteq> UNLOCKED"
  using mutex_exclusion [of fifo_kernel held_state 0 1] held_state_facts by simp

text \<open>
  C15: No wake-up is lost. Whenever the lock is free and some thread \<open>u\<close> is inside \<open>lock\<close>, asleep or
  not, there is a thread that is about to wake a sleeper, or one that is awake inside \<open>lock\<close> and has
  the lock after at most four accesses of its own.
\<close>

theorem lock_makes_progress:
  assumes laws: "futex_laws K" and reach: "lock_reach K s"
    and inside: "clients s u = Acquiring pc" and free: "fst (cell s) = UNLOCKED"
  shows "\<exists>t. clients s t = Dropping Unlock_wake \<or>
     (\<exists>pc' w. clients s t = Acquiring pc' \<and>
        lock_run K t 4 pc' (cell s) = Some ((w, snd (cell s)), Inr ()))"
proof -
  note inv = wake_inv_reach [OF laws reach]
  have run: "\<exists>w. lock_run K t 4 pc' (cell s) = Some ((w, snd (cell s)), Inr ())"
    if "t \<notin> asleep K s" for t pc'
    using lock_run_free [OF laws, of t "snd (cell s)" pc'] that free
    by (metis asleep_def prod.collapse)
  show ?thesis
  proof (cases "u \<in> asleep K s")
    case False
    with run inside show ?thesis by blast
  next
    case True
    with inv free obtain t where
      "on_duty (clients s t) \<or> clients s t = Acquiring Lock_asleep \<and> t \<notin> asleep K s"
      by (fastforce simp: wake_inv_def attended_def)
    moreover from this have "t \<notin> asleep K s" using inv by (auto simp: wake_inv_def)
    moreover have "clients s t = Dropping Unlock_wake \<or> (\<exists>pc'. clients s t = Acquiring pc')"
      using calculation(1) by (auto elim: on_duty.elims)
    ultimately show ?thesis using run by blast
  qed
qed

theorem lock_makes_progress_witness:
  "clients sleeper_state 1 = Acquiring Lock_asleep \<and> fst (cell sleeper_state) = UNLOCKED \<and>
   (\<exists>t. clients sleeper_state t = Dropping Unlock_wake \<or>
     (\<exists>pc' w. clients sleeper_state t = Acquiring pc' \<and>
        lock_run fifo_kernel t 4 pc' (cell sleeper_state) = Some ((w, snd (cell sleeper_state)), Inr ())))"
  using lock_makes_progress [OF futex_laws_fifo, of sleeper_state 1 Lock_asleep] sleeper_state_facts
  by blast

end
