(* ===== verification/Condvar.thy ===== *)
theory Condvar
  imports Futex_Lock
begin

text \<open>
  The condition variable (\<open>src/sync/condvar.rs\<close>): a futex word that every notification increments.
  A waiter reads a ticket with \<open>value\<close>, checks its condition, and calls \<open>wait\<close> with the ticket, which
  sleeps only while the word still equals it. One atomic access per step, as in the theory of the
  lock; \<open>cv_step\<close> interleaves waiters and callers of \<open>notify_all\<close> on one condition variable, which is how
  the message uses it (\<open>notify_one\<close> has no caller).
\<close>

section \<open>SharedCondvar\<close>

definition condvar_value :: "'k futex \<Rightarrow> u32" where
  "condvar_value c = fst c"

text \<open>Inside \<open>wait\<close>: iterations left of the spinning loop, then the sleep.\<close>

datatype cv_wait_pc = Cv_spin nat | Cv_asleep

definition CV_SPINS :: nat where "CV_SPINS = 1000"

fun condvar_wait_step :: "'k futex_kernel \<Rightarrow> tid \<Rightarrow> u32 \<Rightarrow> cv_wait_pc \<Rightarrow> 'k futex \<Rightarrow> ('k futex \<times> (cv_wait_pc + unit)) option" where
  "condvar_wait_step K t expected (Cv_spin n) (w, q) =
     (if n = 0
      then (case futex_wait K t expected (w, q) of
              (True, f) \<Rightarrow> Some (f, Inl Cv_asleep)
            | (False, f) \<Rightarrow> Some (f, Inr ()))
      else if w \<noteq> expected then Some ((w, q), Inr ())
      else Some ((w, q), Inl (Cv_spin (n - 1))))"
| "condvar_wait_step K t expected Cv_asleep (w, q) =
     (if t \<in> kernel_asleep K q then None else Some ((w, q), Inr ()))"

datatype cv_notify_pc = Cv_add | Cv_wake

definition WAKE_ONE :: nat where "WAKE_ONE = 1"
definition WAKE_ALL :: nat where "WAKE_ALL = 2147483647"

text \<open>
  \<open>notify_one\<close> and \<open>notify_all\<close> differ in how many sleepers they ask the kernel to wake. Both assert that
  the wake succeeded; that the assertion holds is assumed, since the call fails only on an address that
  is not mapped or not aligned.
\<close>

fun condvar_notify_step :: "'k futex_kernel \<Rightarrow> nat \<Rightarrow> cv_notify_pc \<Rightarrow> 'k futex \<Rightarrow> 'k futex \<times> (cv_notify_pc + unit)" where
  "condvar_notify_step K n Cv_add (w, q) = ((w + 1, q), Inl Cv_wake)"
| "condvar_notify_step K n Cv_wake (w, q) = (futex_wake K n (w, q), Inr ())"

section \<open>Waiters and notifiers\<close>

datatype cv_client = Cv_out | Cv_waiting u32 cv_wait_pc | Cv_notifying cv_notify_pc

record 'k cv_sys =
  cv_cell :: "'k futex"
  cv_clients :: "tid \<Rightarrow> cv_client"

definition cv_initial :: "'k futex_kernel \<Rightarrow> 'k cv_sys \<Rightarrow> bool" where
  "cv_initial K s \<longleftrightarrow> kernel_asleep K (snd (cv_cell s)) = {} \<and> cv_clients s = (\<lambda>_. Cv_out)"

text \<open>
  At most \<open>N\<close> threads. A waiter may arrive with any ticket, in particular with a stale one.
\<close>

inductive cv_step :: "'k futex_kernel \<Rightarrow> nat \<Rightarrow> 'k cv_sys \<Rightarrow> 'k cv_sys \<Rightarrow> bool" for K N where
  cv_call_wait: "t < N \<Longrightarrow> cv_clients s t = Cv_out \<Longrightarrow>
     cv_step K N s (s\<lparr>cv_clients := (cv_clients s)(t := Cv_waiting ticket (Cv_spin CV_SPINS))\<rparr>)"
| cv_waits: "t < N \<Longrightarrow> cv_clients s t = Cv_waiting ticket pc \<Longrightarrow>
     condvar_wait_step K t ticket pc (cv_cell s) = Some (c, Inl pc') \<Longrightarrow>
     cv_step K N s (s\<lparr>cv_cell := c, cv_clients := (cv_clients s)(t := Cv_waiting ticket pc')\<rparr>)"
| cv_returns: "t < N \<Longrightarrow> cv_clients s t = Cv_waiting ticket pc \<Longrightarrow>
     condvar_wait_step K t ticket pc (cv_cell s) = Some (c, Inr ()) \<Longrightarrow>
     cv_step K N s (s\<lparr>cv_cell := c, cv_clients := (cv_clients s)(t := Cv_out)\<rparr>)"
| cv_call_notify: "t < N \<Longrightarrow> cv_clients s t = Cv_out \<Longrightarrow>
     cv_step K N s (s\<lparr>cv_clients := (cv_clients s)(t := Cv_notifying Cv_add)\<rparr>)"
| cv_adds: "t < N \<Longrightarrow> cv_clients s t = Cv_notifying pc \<Longrightarrow>
     condvar_notify_step K WAKE_ALL pc (cv_cell s) = (c, Inl pc') \<Longrightarrow>
     cv_step K N s (s\<lparr>cv_cell := c, cv_clients := (cv_clients s)(t := Cv_notifying pc')\<rparr>)"
| cv_notified: "t < N \<Longrightarrow> cv_clients s t = Cv_notifying pc \<Longrightarrow>
     condvar_notify_step K WAKE_ALL pc (cv_cell s) = (c, Inr ()) \<Longrightarrow>
     cv_step K N s (s\<lparr>cv_cell := c, cv_clients := (cv_clients s)(t := Cv_out)\<rparr>)"
| cv_interrupt:
     "cv_step K N s (s\<lparr>cv_cell := (fst (cv_cell s), kernel_interrupt K t (snd (cv_cell s)))\<rparr>)"

inductive cv_reach :: "'k futex_kernel \<Rightarrow> nat \<Rightarrow> 'k cv_sys \<Rightarrow> bool" for K N where
  cv_reach_initial: "cv_initial K s \<Longrightarrow> cv_reach K N s"
| cv_reach_step: "cv_reach K N s \<Longrightarrow> cv_step K N s s' \<Longrightarrow> cv_reach K N s'"

interpretation cv: reachability "cv_initial K" "cv_step K N" "cv_reach K N"
  for K :: "'k futex_kernel" and N
proof
  show "cv_reach K N s" if "cv_initial K s" for s
    using that by (rule cv_reach_initial)
  show "cv_reach K N s'" if "cv_reach K N s" "cv_step K N s s'" for s s'
    using that by (rule cv_reach_step)
  show "P s" if "cv_reach K N s" "\<And>s. cv_initial K s \<Longrightarrow> P s"
      "\<And>s s'. cv_reach K N s \<Longrightarrow> P s \<Longrightarrow> cv_step K N s s' \<Longrightarrow> P s'" for s P
    using that(1) by (induction rule: cv_reach.induct) (blast intro: that(2,3))+
qed

section \<open>Sleepers and their tickets\<close>

text \<open>A sleeper's ticket is current, or a notifier has incremented the word and is about to wake.\<close>

definition cv_inv :: "'k futex_kernel \<Rightarrow> nat \<Rightarrow> 'k cv_sys \<Rightarrow> bool" where
  "cv_inv K N s \<longleftrightarrow>
     (\<forall>t \<in> kernel_asleep K (snd (cv_cell s)). t < N \<and>
        (\<exists>ticket. cv_clients s t = Cv_waiting ticket Cv_asleep \<and>
           (fst (cv_cell s) = ticket \<or> (\<exists>u < N. cv_clients s u = Cv_notifying Cv_wake))))"

lemma condvar_wait_step_effect:
  assumes "futex_laws K" "condvar_wait_step K t ticket pc c = Some (c', r)"
  shows "fst c' = fst c \<and>
     (r = Inl Cv_asleep \<and> fst c = ticket \<and> kernel_asleep K (snd c') = insert t (kernel_asleep K (snd c)) \<or>
      r \<noteq> Inl Cv_asleep \<and> kernel_asleep K (snd c') = kernel_asleep K (snd c) \<and>
        (pc = Cv_asleep \<longrightarrow> t \<notin> kernel_asleep K (snd c)))"
  using assms(2)
  by (cases c; cases pc)
    (auto split: if_splits prod.splits bool.splits
      dest: kernel_wait_sleeps [OF assms(1)] kernel_wait_returns [OF assms(1)])

lemma cv_inv_frame:
  assumes "cv_inv K N s" "cv_clients s t \<noteq> Cv_notifying Cv_wake"
    and "kernel_asleep K (snd c) = kernel_asleep K (snd (cv_cell s))" "fst c = fst (cv_cell s)"
    and "t \<notin> kernel_asleep K (snd (cv_cell s))"
  shows "cv_inv K N (s\<lparr>cv_cell := c, cv_clients := (cv_clients s)(t := p)\<rparr>)"
  using assms by (fastforce simp: cv_inv_def)

lemma cv_inv_sleep:
  assumes inv: "cv_inv K N s" and t: "t < N" "cv_clients s t = Cv_waiting ticket pc"
    and c: "kernel_asleep K (snd c) = insert t (kernel_asleep K (snd (cv_cell s)))"
      "fst c = fst (cv_cell s)" "fst (cv_cell s) = ticket"
  shows "cv_inv K N (s\<lparr>cv_cell := c, cv_clients := (cv_clients s)(t := Cv_waiting ticket Cv_asleep)\<rparr>)"
proof -
  let ?f = "(cv_clients s)(t := Cv_waiting ticket Cv_asleep)"
  have notifier: "\<exists>u < N. ?f u = Cv_notifying Cv_wake"
    if "\<exists>u < N. cv_clients s u = Cv_notifying Cv_wake"
    using that t(2) by (metis cv_client.distinct(5) fun_upd_other)
  have "x < N \<and> (\<exists>k. ?f x = Cv_waiting k Cv_asleep \<and>
      (fst c = k \<or> (\<exists>u < N. ?f u = Cv_notifying Cv_wake)))"
    if "x \<in> kernel_asleep K (snd (cv_cell s))" "x \<noteq> t" for x
    using inv that notifier c(2) unfolding cv_inv_def by (metis fun_upd_other)
  with t(1) c show ?thesis by (simp add: cv_inv_def)
qed

lemma cv_not_asleep:
  "cv_inv K N s \<Longrightarrow> (\<And>ticket. cv_clients s t \<noteq> Cv_waiting ticket Cv_asleep) \<Longrightarrow>
     t \<notin> kernel_asleep K (snd (cv_cell s))"
  by (auto simp: cv_inv_def)

lemma cv_spinning_not_asleep:
  "cv_inv K N s \<Longrightarrow> cv_clients s t = Cv_waiting ticket pc \<Longrightarrow> pc \<noteq> Cv_asleep \<Longrightarrow>
     t \<notin> kernel_asleep K (snd (cv_cell s))"
  by (rule cv_not_asleep) auto

lemma cv_asleep_bounded:
  assumes "cv_inv K N s"
  shows "finite (kernel_asleep K (snd (cv_cell s))) \<and> card (kernel_asleep K (snd (cv_cell s))) \<le> N"
proof -
  have sub: "kernel_asleep K (snd (cv_cell s)) \<subseteq> {..<N}" using assms by (auto simp: cv_inv_def)
  then show ?thesis using card_mono [OF _ sub] finite_subset [OF sub] by simp
qed

lemma cv_inv_step:
  assumes "futex_laws K" "N \<le> WAKE_ALL"
  shows "cv_step K N s s' \<Longrightarrow> cv_inv K N s \<Longrightarrow> cv_inv K N s'"
proof (induction rule: cv_step.induct)
  case (cv_call_wait t s ticket)
  then show ?case
    using cv_inv_frame [of K N s t "cv_cell s" "Cv_waiting ticket (Cv_spin CV_SPINS)"]
    by (simp add: cv_not_asleep)
next
  case (cv_waits t s ticket pc c pc')
  from condvar_wait_step_effect [OF assms(1) cv_waits.hyps(3)] show ?case
  proof (elim conjE disjE)
    assume "fst c = fst (cv_cell s)" "Inl pc' = Inl Cv_asleep" "fst (cv_cell s) = ticket"
      "kernel_asleep K (snd c) = insert t (kernel_asleep K (snd (cv_cell s)))"
    with cv_waits show ?case by (simp add: cv_inv_sleep)
  next
    assume "fst c = fst (cv_cell s)" "Inl pc' \<noteq> Inl Cv_asleep"
      "kernel_asleep K (snd c) = kernel_asleep K (snd (cv_cell s))"
      "pc = Cv_asleep \<longrightarrow> t \<notin> kernel_asleep K (snd (cv_cell s))"
    with cv_waits show ?case
      by (intro cv_inv_frame) (auto dest: cv_spinning_not_asleep)
  qed
next
  case (cv_returns t s ticket pc c)
  with condvar_wait_step_effect [OF assms(1) cv_returns.hyps(3)] show ?case
    by (intro cv_inv_frame) (auto dest: cv_spinning_not_asleep)
next
  case (cv_call_notify t s)
  then show ?case
    using cv_inv_frame [of K N s t "cv_cell s" "Cv_notifying Cv_add"] by (simp add: cv_not_asleep)
next
  case (cv_adds t s pc c pc')
  then have "pc' = Cv_wake" "snd c = snd (cv_cell s)" by (cases "cv_cell s"; cases pc; auto)+
  moreover have "t \<notin> kernel_asleep K (snd (cv_cell s))" using cv_adds by (simp add: cv_not_asleep)
  ultimately show ?case using cv_adds.prems cv_adds.hyps(1) by (fastforce simp: cv_inv_def)
next
  case (cv_notified t s pc c)
  then have "snd c = kernel_wake K WAKE_ALL (snd (cv_cell s))" by (cases "cv_cell s"; cases pc; auto)
  with cv_asleep_bounded [OF cv_notified.prems] assms
  have "kernel_asleep K (snd c) = {}" by (simp add: kernel_wake_all)
  then show ?case by (simp add: cv_inv_def)
next
  case (cv_interrupt s t)
  then show ?case using kernel_interrupt_asleep [OF assms(1)] by (simp add: cv_inv_def)
qed

lemma cv_inv_initial: "cv_initial K s \<Longrightarrow> cv_inv K N s"
  by (simp add: cv_inv_def cv_initial_def)

lemma cv_inv_reach: "futex_laws K \<Longrightarrow> N \<le> WAKE_ALL \<Longrightarrow> cv_reach K N s \<Longrightarrow> cv_inv K N s"
  by (erule cv.invariant_rule) (blast intro: cv_inv_initial cv_inv_step)+

text \<open>The wake of a notification leaves no one asleep.\<close>

lemma notify_wakes_all:
  assumes "futex_laws K" "N \<le> WAKE_ALL" "cv_inv K N s"
  shows "kernel_asleep K (snd (fst (condvar_notify_step K WAKE_ALL Cv_wake (cv_cell s)))) = {}"
  using cv_asleep_bounded [OF assms(3)] assms(1,2)
  by (cases "cv_cell s") (simp add: kernel_wake_all)


section \<open>A run to a sleeper with a stale ticket\<close>

lemma cv_spin_down:
  "cv_reach K N (s\<lparr>cv_clients := (cv_clients s)(t := Cv_waiting (fst (cv_cell s)) (Cv_spin n))\<rparr>) \<Longrightarrow> t < N \<Longrightarrow>
   cv_reach K N (s\<lparr>cv_clients := (cv_clients s)(t := Cv_waiting (fst (cv_cell s)) (Cv_spin 0))\<rparr>)"
proof (induction n)
  case (Suc n)
  let ?s = "s\<lparr>cv_clients := (cv_clients s)(t := Cv_waiting (fst (cv_cell s)) (Cv_spin (Suc n)))\<rparr>"
  have "condvar_wait_step K t (fst (cv_cell s)) (Cv_spin (Suc n)) (cv_cell s) =
      Some (cv_cell s, Inl (Cv_spin n))"
    by (cases "cv_cell s") simp
  then have "cv_step K N ?s (?s\<lparr>cv_cell := cv_cell s,
      cv_clients := (cv_clients ?s)(t := Cv_waiting (fst (cv_cell s)) (Cv_spin n))\<rparr>)"
    using Suc.prems(2) by (intro cv_waits) auto
  then have "cv_step K N ?s (s\<lparr>cv_clients := (cv_clients s)(t := Cv_waiting (fst (cv_cell s)) (Cv_spin n))\<rparr>)"
    by simp
  with Suc show ?case using cv_reach_step by blast
qed simp

definition cv_start :: "tid list cv_sys" where
  "cv_start = \<lparr>cv_cell = (0, []), cv_clients = (\<lambda>_. Cv_out)\<rparr>"

text \<open>Thread 0 sleeps with ticket 0; thread 1 has incremented the word and has not woken it yet.\<close>

definition cv_stale :: "tid list cv_sys" where
  "cv_stale = \<lparr>cv_cell = (1, [0]),
     cv_clients = (\<lambda>_. Cv_out)(0 := Cv_waiting 0 Cv_asleep, 1 := Cv_notifying Cv_wake)\<rparr>"

lemma cv_stale_reach: "cv_reach fifo_kernel 2 cv_stale"
proof -
  let ?c = "\<lambda>p. cv_start\<lparr>cv_clients := (cv_clients cv_start)(0 := p)\<rparr>"
  have "cv_reach fifo_kernel 2 cv_start"
    by (rule cv_reach_initial) (simp add: cv_initial_def cv_start_def fifo_kernel_def)
  then have "cv_reach fifo_kernel 2 (?c (Cv_waiting 0 (Cv_spin CV_SPINS)))"
    by (rule cv_reach_step) (rule cv_call_wait, simp_all add: cv_start_def)
  then have "cv_reach fifo_kernel 2 (?c (Cv_waiting 0 (Cv_spin 0)))"
    using cv_spin_down [of fifo_kernel 2 cv_start 0 CV_SPINS] by (simp add: cv_start_def)
  then have "cv_reach fifo_kernel 2 ((?c (Cv_waiting 0 (Cv_spin 0)))\<lparr>cv_cell := (0, [0]),
      cv_clients := (cv_clients (?c (Cv_waiting 0 (Cv_spin 0))))(0 := Cv_waiting 0 Cv_asleep)\<rparr>)"
    by (rule cv_reach_step) (rule cv_waits, auto simp: cv_start_def fifo_kernel_def)
  then have s1: "cv_reach fifo_kernel 2
      \<lparr>cv_cell = (0, [0]), cv_clients = (\<lambda>_. Cv_out)(0 := Cv_waiting 0 Cv_asleep)\<rparr>" (is "cv_reach _ _ ?s1")
    by (simp add: cv_start_def)
  then have "cv_reach fifo_kernel 2 (?s1\<lparr>cv_clients := (cv_clients ?s1)(1 := Cv_notifying Cv_add)\<rparr>)"
    (is "cv_reach _ _ ?s2")
    by (rule cv_reach_step) (rule cv_call_notify, simp_all)
  then have "cv_reach fifo_kernel 2 (?s2\<lparr>cv_cell := (1, [0]),
      cv_clients := (cv_clients ?s2)(1 := Cv_notifying Cv_wake)\<rparr>)"
    by (rule cv_reach_step) (rule cv_adds, auto)
  then show ?thesis by (simp add: cv_stale_def)
qed

section \<open>Properties\<close>

text \<open>
  C16: No notification is lost. A thread that sleeps in \<open>wait\<close> with a ticket the word no longer equals
  has a notifier that incremented the word and is about to wake; that wake leaves no one asleep. So a
  waiter stays asleep only while no notification has completed since it went to sleep.
\<close>

theorem condvar_no_lost_wakeup:
  assumes "futex_laws K" "N \<le> WAKE_ALL" "cv_reach K N s"
    and "t \<in> kernel_asleep K (snd (cv_cell s))"
    and "cv_clients s t = Cv_waiting ticket Cv_asleep" "condvar_value (cv_cell s) \<noteq> ticket"
  shows "\<exists>u < N. cv_clients s u = Cv_notifying Cv_wake \<and>
     kernel_asleep K (snd (fst (condvar_notify_step K WAKE_ALL Cv_wake (cv_cell s)))) = {}"
proof -
  from assms(1-3) have inv: "cv_inv K N s" by (rule cv_inv_reach)
  with assms(4-6) have "\<exists>u < N. cv_clients s u = Cv_notifying Cv_wake"
    by (auto simp: cv_inv_def condvar_value_def)
  with notify_wakes_all [OF assms(1,2) inv] show ?thesis by blast
qed

theorem condvar_no_lost_wakeup_witness:
  "cv_reach fifo_kernel 2 cv_stale \<and>
   (\<exists>u < 2. cv_clients cv_stale u = Cv_notifying Cv_wake \<and>
     kernel_asleep fifo_kernel (snd (fst (condvar_notify_step fifo_kernel WAKE_ALL Cv_wake (cv_cell cv_stale)))) = {})"
  using condvar_no_lost_wakeup [OF futex_laws_fifo _ cv_stale_reach, of 0 0] cv_stale_reach
  by (simp add: cv_stale_def condvar_value_def fifo_kernel_def WAKE_ALL_def)

end
