(* ===== verification/Shared_Message.thy ===== *)
theory Shared_Message
  imports Packed Condvar
begin

text \<open>
  The shared message (\<open>src/shared_message/mod.rs\<close>, \<open>src/shared_message/guard.rs\<close>), whole operations
  of one thread at a time. Every operation is a function of the memory of the message. Where the code
  sleeps, the rest of the system acts: \<open>env\<close> lists what other threads do to the memory during the
  first, second, \<open>\<dots>\<close> sleep of the call, and an empty list means that nobody wakes the caller, the
  outcome \<open>Blocks\<close>. Between two sleeps the caller runs undisturbed; the theory \<open>Message_Steps\<close> models
  the interleaving of the single accesses. Integers have the width of the code and wrap around, as in
  a release build.
\<close>

section \<open>Memory\<close>

record shared_message =
  sequence_and_flags :: u64
  data_size :: usize
  readers_state :: u64
  writer_mutex :: u32
  writer_condvar :: u32
  reader_done_condvar :: u32
  data :: bytes

datatype panic =
    Capacity_exceeded nat nat   \<comment> \<open>\<open>Data size ({} bytes) exceeds capacity ({} bytes)\<close>\<close>
  | Too_many_readers            \<comment> \<open>\<open>Too many readers!\<close>\<close>
  | No_readers_to_remove        \<comment> \<open>\<open>No readers to remove!\<close>\<close>
  | Slice_out_of_range          \<comment> \<open>the slice index check of \<open>data[..size]\<close>\<close>

datatype 'a outcome = Returns 'a | Panics panic | Blocks

type_synonym env = "(shared_message \<Rightarrow> shared_message) list"
type_synonym 'a run = "'a outcome \<times> shared_message \<times> env"

definition get_sequence_state :: "shared_message \<Rightarrow> SequenceState" where
  "get_sequence_state m = SequenceState_from (sequence_and_flags m)"

definition get_reader_state :: "shared_message \<Rightarrow> ReadersStateCount" where
  "get_reader_state m = ReadersStateCount_from (readers_state m)"

definition current_sequence :: "shared_message \<Rightarrow> u64" where
  "current_sequence m = sequence (get_sequence_state m)"

definition has_new_data :: "u64 \<Rightarrow> shared_message \<Rightarrow> bool" where
  "has_new_data last_seen_seq m \<longleftrightarrow> sequence (get_sequence_state m) \<noteq> last_seen_seq"

definition is_stopped :: "shared_message \<Rightarrow> bool" where
  "is_stopped m = stopped (get_sequence_state m)"

definition capacity :: "shared_message \<Rightarrow> nat" where
  "capacity m = length (data m)"

definition data_ref :: "shared_message \<Rightarrow> panic + bytes" where
  "data_ref m =
     (if unat (data_size m) \<le> length (data m) then Inr (take (unat (data_size m)) (data m))
      else Inl Slice_out_of_range)"

section \<open>The counters of the readers\<close>

text \<open>The closures the code passes to \<open>update_reader_state\<close>.\<close>

datatype mutator =
    Register_reader      \<comment> \<open>\<open>read\<close>: \<open>active_readers += 1\<close>\<close>
  | Unregister_reader    \<comment> \<open>\<open>read\<close>: \<open>active_readers -= 1\<close>\<close>
  | Release_reader       \<comment> \<open>\<open>release_active_reader\<close>\<close>
  | Reset_consumed       \<comment> \<open>\<open>publish_write\<close>\<close>
  | Set_target u16       \<comment> \<open>\<open>set_target_read_count\<close>\<close>
  | Add_reader           \<comment> \<open>\<open>add_reader\<close>\<close>
  | Remove_reader        \<comment> \<open>\<open>remove_reader\<close>\<close>

fun mutate :: "mutator \<Rightarrow> ReadersStateCount \<Rightarrow> panic + ReadersStateCount" where
  "mutate Register_reader r = Inr (r\<lparr>active_readers := active_readers r + 1\<rparr>)"
| "mutate Unregister_reader r = Inr (r\<lparr>active_readers := active_readers r - 1\<rparr>)"
| "mutate Release_reader r =
     Inr (r\<lparr>active_readers := active_readers r - 1, data_consumed := data_consumed r + 1\<rparr>)"
| "mutate Reset_consumed r = Inr (r\<lparr>data_consumed := 0\<rparr>)"
| "mutate (Set_target count) r = Inr (r\<lparr>target_read := count\<rparr>)"
| "mutate Add_reader r =
     (if consumers r = 65535 then Inl Too_many_readers else Inr (r\<lparr>consumers := consumers r + 1\<rparr>))"
| "mutate Remove_reader r =
     (if consumers r = 0 then Inl No_readers_to_remove else Inr (r\<lparr>consumers := consumers r - 1\<rparr>))"

definition update_reader_state :: "mutator \<Rightarrow> shared_message \<Rightarrow> (panic + ReadersStateCount) \<times> shared_message" where
  "update_reader_state mutator m =
     (let packed = readers_state m in
      case mutate mutator (ReadersStateCount_from packed) of
        Inl p \<Rightarrow> (Inl p, m)
      | Inr policy \<Rightarrow>
          (let new_packed = ReadersStateCount_to_packed policy in
           if packed = new_packed then (Inr policy, m)
           else (Inr policy, m\<lparr>readers_state := new_packed\<rparr>)))"

section \<open>Condition variables and the writer mutex\<close>

definition notify_writer_condvar :: "shared_message \<Rightarrow> shared_message" where
  "notify_writer_condvar m = m\<lparr>writer_condvar := writer_condvar m + 1\<rparr>"

definition notify_reader_done_condvar :: "shared_message \<Rightarrow> shared_message" where
  "notify_reader_done_condvar m = m\<lparr>reader_done_condvar := reader_done_condvar m + 1\<rparr>"

text \<open>\<open>wait\<close>: returns at once when the word differs from the ticket, and sleeps otherwise.\<close>

definition condvar_wait :: "(shared_message \<Rightarrow> u32) \<Rightarrow> u32 \<Rightarrow> env \<Rightarrow> shared_message \<Rightarrow> (shared_message \<times> env) option" where
  "condvar_wait condvar expected env m =
     (if condvar m \<noteq> expected then Some (m, env)
      else case env of [] \<Rightarrow> None | e # es \<Rightarrow> Some (e m, es))"

text \<open>
  \<open>lock_contended\<close> from the head of its loop, with the value \<open>state\<close> that \<open>spin\<close> returned. In an
  undisturbed call the word still holds \<open>state\<close>, so the \<open>futex_wait\<close> of the body sleeps.
\<close>

fun lock_contended_loop :: "u32 \<Rightarrow> env \<Rightarrow> shared_message \<Rightarrow> unit run" where
  "lock_contended_loop state env m =
     (if state \<noteq> CONTENDED \<and> writer_mutex m = UNLOCKED
      then (Returns (), m\<lparr>writer_mutex := CONTENDED\<rparr>, env)
      else (let m1 = (if state \<noteq> CONTENDED then m\<lparr>writer_mutex := CONTENDED\<rparr> else m) in
            case env of
              [] \<Rightarrow> (Blocks, m1, [])
            | e # es \<Rightarrow> lock_contended_loop (writer_mutex (e m1)) es (e m1)))"

declare lock_contended_loop.simps [simp del]

definition mutex_lock :: "env \<Rightarrow> shared_message \<Rightarrow> unit run" where
  "mutex_lock env m =
     (if writer_mutex m = UNLOCKED then (Returns (), m\<lparr>writer_mutex := LOCKED\<rparr>, env)
      else lock_contended_loop (writer_mutex m) env m)"

text \<open>Dropping the \<open>PayloadWriteGuard\<close>.\<close>

definition mutex_unlock :: "shared_message \<Rightarrow> shared_message" where
  "mutex_unlock m = m\<lparr>writer_mutex := UNLOCKED\<rparr>"

lemma condvar_wait_length [termination_simp]:
  "condvar_wait condvar (condvar m) env m = Some (m', env') \<Longrightarrow> length env' < length env"
  by (auto simp: condvar_wait_def split: list.splits)

section \<open>Writing\<close>

text \<open>
  The two waiting loops of \<open>start_write\<close>. \<open>Returns True\<close>: the loop was left normally; \<open>Returns False\<close>:
  the message was stopped and \<open>start_write\<close> returns \<open>None\<close>.
\<close>

function await_consumed :: "u32 \<Rightarrow> ReadersStateCount \<Rightarrow> env \<Rightarrow> shared_message \<Rightarrow> bool run" where
  "await_consumed ticket reader_state env m =
     (if data_consumed reader_state < get_target_consumed reader_state then
        if is_stopped m then (Returns False, m, env)
        else (let m1 = notify_writer_condvar m in
              case condvar_wait reader_done_condvar ticket env m1 of
                None \<Rightarrow> (Blocks, m1, [])
              | Some (m2, env2) \<Rightarrow>
                  await_consumed (reader_done_condvar m2) (get_reader_state m2) env2 m2)
      else (Returns True, m, env))"
  by pat_completeness auto
termination
  by (relation "measure (\<lambda>(ticket, _, env, m).
        2 * length env + (if reader_done_condvar m = ticket then 0 else 1))")
    (auto simp: condvar_wait_def notify_writer_condvar_def split: if_splits list.splits)

function await_idle :: "u32 \<Rightarrow> env \<Rightarrow> shared_message \<Rightarrow> bool run" where
  "await_idle ticket env m =
     (if active_readers (get_reader_state m) > 0 then
        if is_stopped m then
          (Returns False,
           m\<lparr>sequence_and_flags := sequence_and_flags m AND NOT WRITING_IN_PROGRESS_MASK\<rparr>, env)
        else (case condvar_wait reader_done_condvar ticket env m of
                None \<Rightarrow> (Blocks, m, [])
              | Some (m2, env2) \<Rightarrow> await_idle (reader_done_condvar m2) env2 m2)
      else (Returns True, m, env))"
  by pat_completeness auto
termination
  by (relation "measure (\<lambda>(ticket, env, m).
        2 * length env + (if reader_done_condvar m = ticket then 0 else 1))")
    (auto simp: condvar_wait_def split: if_splits list.splits)

declare await_consumed.simps [simp del] await_idle.simps [simp del]

definition start_write :: "env \<Rightarrow> shared_message \<Rightarrow> bool run" where
  "start_write env m =
     (if is_stopped m then (Returns False, m, env)
      else case mutex_lock env m of
        (Returns _, m1, env1) \<Rightarrow>
          (let current_seq = sequence (get_sequence_state m1);
               reader_state = get_reader_state m1;
               awaited = (if get_target_consumed reader_state > 0 \<and> current_seq > 0
                          then await_consumed (reader_done_condvar m1) reader_state env1 m1
                          else (Returns True, m1, env1))
           in case awaited of
             (Returns True, m2, env2) \<Rightarrow>
               (let m3 = m2\<lparr>sequence_and_flags := sequence_and_flags m2 OR WRITING_IN_PROGRESS_MASK\<rparr>
                in case await_idle (reader_done_condvar m3) env2 m3 of
                     (Returns True, m4, env4) \<Rightarrow> (Returns True, m4, env4)
                   | (Returns False, m4, env4) \<Rightarrow> (Returns False, mutex_unlock m4, env4)
                   | stuck \<Rightarrow> stuck)
           | (Returns False, m2, env2) \<Rightarrow> (Returns False, mutex_unlock m2, env2)
           | stuck \<Rightarrow> stuck)
      | (Panics p, m1, env1) \<Rightarrow> (Panics p, m1, env1)
      | (Blocks, m1, env1) \<Rightarrow> (Blocks, m1, env1))"

definition next_sequence :: "u64 \<Rightarrow> u64" where
  "next_sequence old =
     (let new_seq = (old + 1) AND SEQUENCE_MASK in if new_seq = 0 then 1 else new_seq)"

text \<open>\<open>publish_write\<close>, including the drop of the guard it takes when it returns.\<close>

definition publish_write :: "usize \<Rightarrow> shared_message \<Rightarrow> u64 option \<times> shared_message" where
  "publish_write sz m =
     (let m1 = m\<lparr>data_size := sz\<rparr>;
          m2 = snd (update_reader_state Reset_consumed m1);
          old_state = SequenceState_from (sequence_and_flags m2);
          new_seq = next_sequence (sequence old_state);
          new_packed = SequenceState_to_packed
            \<lparr>sequence = new_seq, stopped = stopped old_state, writing_in_progress = False\<rparr>;
          m3 = notify_writer_condvar (m2\<lparr>sequence_and_flags := new_packed\<rparr>)
      in (Some new_seq, mutex_unlock m3))"

text \<open>\<open>write\<close>: \<open>True\<close> stands for the returned \<open>MessageWriteGuard\<close>.\<close>

definition SharedMessage_write :: "env \<Rightarrow> shared_message \<Rightarrow> bool run" where
  "SharedMessage_write env m = start_write env m"

text \<open>A panic unwinds through the guard, which unlocks.\<close>

definition write_slice :: "bytes \<Rightarrow> env \<Rightarrow> shared_message \<Rightarrow> u64 option run" where
  "write_slice new_data env m =
     (case start_write env m of
        (Returns True, m1, env1) \<Rightarrow>
          (if length new_data > length (data m1)
           then (Panics (Capacity_exceeded (length new_data) (length (data m1))), mutex_unlock m1, env1)
           else (case publish_write (of_nat (length new_data))
                        (m1\<lparr>data := overwrite_prefix new_data (data m1)\<rparr>) of
                   (r, m2) \<Rightarrow> (Returns r, m2, env1)))
      | (Returns False, m1, env1) \<Rightarrow> (Returns None, m1, env1)
      | (Panics p, m1, env1) \<Rightarrow> (Panics p, m1, env1)
      | (Blocks, m1, env1) \<Rightarrow> (Blocks, m1, env1))"

text \<open>A store through the slice that \<open>data_mut\<close> returns.\<close>

definition data_mut_store :: "nat \<Rightarrow> u8 \<Rightarrow> shared_message \<Rightarrow> panic + shared_message" where
  [simp]: "data_mut_store i b m =
     (if i < length (data m) then Inr (m\<lparr>data := (data m)[i := b]\<rparr>) else Inl Slice_out_of_range)"

text \<open>\<open>MessageWriteGuard\<close>: a store through its \<open>data_mut\<close>, \<open>publish\<close>, and the drop without publishing.\<close>

definition guard_data_mut_store :: "nat \<Rightarrow> u8 \<Rightarrow> shared_message \<Rightarrow> panic + shared_message" where
  "guard_data_mut_store i b m = data_mut_store i b m"

definition guard_publish :: "usize \<Rightarrow> shared_message \<Rightarrow> u64 option \<times> shared_message" where
  "guard_publish sz m =
     (if unat sz > capacity m then (None, mutex_unlock m) else publish_write sz m)"

definition guard_drop :: "shared_message \<Rightarrow> shared_message" where
  "guard_drop m = mutex_unlock m"

section \<open>Reading\<close>

record message_read_guard =
  guard_sequence :: u64

text \<open>\<open>data\<close> and \<open>as_ref\<close> of a guard show the message it was taken from.\<close>

definition read_guard_data :: "message_read_guard \<Rightarrow> shared_message \<Rightarrow> panic + bytes" where
  [simp]: "read_guard_data g m = data_ref m"

lemma sequence_state_update_reader [termination_simp, op_simps]:
  "get_sequence_state (snd (update_reader_state mu m)) = get_sequence_state m"
  by (simp add: get_sequence_state_def update_reader_state_def Let_def split: sum.splits)

function read :: "u64 \<Rightarrow> bool \<Rightarrow> env \<Rightarrow> shared_message \<Rightarrow> message_read_guard option run" where
  "read last_seen_seq block env m =
     (let ticket = writer_condvar m;
          state = get_sequence_state m in
      if stopped state \<and> sequence state = last_seen_seq then (Returns None, m, env)
      else if sequence state = last_seen_seq then
        (if \<not> block then (Returns None, m, env)
         else case condvar_wait writer_condvar ticket env m of
                None \<Rightarrow> (Blocks, m, [])
              | Some (m1, env1) \<Rightarrow> read last_seen_seq block env1 m1)
      else if writing_in_progress state then
        (case condvar_wait writer_condvar ticket env m of
           None \<Rightarrow> (Blocks, m, [])
         | Some (m1, env1) \<Rightarrow> read last_seen_seq block env1 m1)
      else
        (let m1 = snd (update_reader_state Register_reader m);
             verify_state = get_sequence_state m1 in
         if writing_in_progress verify_state \<or> sequence verify_state \<noteq> sequence state
         then read last_seen_seq block env
                (notify_reader_done_condvar (snd (update_reader_state Unregister_reader m1)))
         else (Returns (Some \<lparr>guard_sequence = sequence state\<rparr>), m1, env)))"
  by pat_completeness auto
termination
  by (relation "measure (\<lambda>(_, _, env, _). length env)") (auto simp: termination_simp)

declare read.simps [simp del]

text \<open>The drop of a \<open>MessageReadGuard\<close>.\<close>

definition release_active_reader :: "shared_message \<Rightarrow> shared_message" where
  "release_active_reader m =
     (case update_reader_state Release_reader m of
        (Inr reader_state, m1) \<Rightarrow>
          (if active_readers reader_state = 0 then notify_reader_done_condvar m1 else m1)
      | (Inl _, m1) \<Rightarrow> m1)"

section \<open>Stopping and configuration\<close>

definition stop :: "shared_message \<Rightarrow> shared_message" where
  "stop m =
     notify_reader_done_condvar (notify_writer_condvar
       (m\<lparr>sequence_and_flags := sequence_and_flags m OR STOPPED_MASK\<rparr>))"

definition set_target_read_count :: "u16 \<Rightarrow> env \<Rightarrow> shared_message \<Rightarrow> unit run" where
  "set_target_read_count count env m =
     (case mutex_lock env m of
        (Returns _, m1, env1) \<Rightarrow>
          (Returns (), mutex_unlock (snd (update_reader_state (Set_target count) m1)), env1)
      | (Panics p, m1, env1) \<Rightarrow> (Panics p, m1, env1)
      | (Blocks, m1, env1) \<Rightarrow> (Blocks, m1, env1))"

definition reader_registration :: "mutator \<Rightarrow> shared_message \<Rightarrow> unit outcome \<times> shared_message" where
  "reader_registration mu m =
     (case update_reader_state mu m of
        (Inl p, m1) \<Rightarrow> (Panics p, m1)
      | (Inr _, m1) \<Rightarrow> (Returns (), m1))"

definition add_reader :: "shared_message \<Rightarrow> unit outcome \<times> shared_message" where
  "add_reader m = reader_registration Add_reader m"

definition remove_reader :: "shared_message \<Rightarrow> unit outcome \<times> shared_message" where
  "remove_reader m = reader_registration Remove_reader m"

end
