(* ===== verification/Message_Spec.thy ===== *)
theory Message_Spec
  imports Shared_Message
begin

text \<open>
  What a shared message promises to one caller: an abstract channel (sequence number, payload, flags
  and counters, no packed words, no mutex, no tickets) with its operations, the abstraction from the
  memory of a message to a channel, and the proof that every operation of \<open>Shared_Message\<close> implements
  the channel's. The behaviour of the operations on every branch, what \<open>stop\<close> means for readers and
  writers, and the well-formedness of the memory follow from it.
\<close>

section \<open>The abstract channel\<close>

record channel =
  ch_sequence :: u64
  ch_stopped :: bool
  ch_writing :: bool
  ch_payload :: bytes
  ch_capacity :: nat
  ch_readers :: ReadersStateCount

text \<open>The last message still has to be read by more consumers before the next one is accepted.\<close>

definition ch_unread :: "channel \<Rightarrow> bool" where
  "ch_unread c \<longleftrightarrow>
     0 < ch_sequence c \<and> data_consumed (ch_readers c) < get_target_consumed (ch_readers c)"

definition ch_write :: "bytes \<Rightarrow> channel \<Rightarrow> u64 option outcome \<times> channel" where
  "ch_write d c =
     (if ch_stopped c then (Returns None, c)
      else if ch_unread c then (Blocks, c)
      else if 0 < active_readers (ch_readers c) then (Blocks, c\<lparr>ch_writing := True\<rparr>)
      else if ch_capacity c < length d
      then (Panics (Capacity_exceeded (length d) (ch_capacity c)), c\<lparr>ch_writing := True\<rparr>)
      else (Returns (Some (next_sequence (ch_sequence c))),
            c\<lparr>ch_sequence := next_sequence (ch_sequence c), ch_writing := False, ch_payload := d,
              ch_readers := (ch_readers c)\<lparr>data_consumed := 0\<rparr>\<rparr>))"

definition ch_read :: "u64 \<Rightarrow> bool \<Rightarrow> channel \<Rightarrow> message_read_guard option outcome \<times> channel" where
  "ch_read last_seen block c =
     (if ch_sequence c = last_seen then (if ch_stopped c \<or> \<not> block then Returns None else Blocks, c)
      else if ch_writing c then (Blocks, c)
      else (Returns (Some \<lparr>guard_sequence = ch_sequence c\<rparr>),
            c\<lparr>ch_readers := (ch_readers c)\<lparr>active_readers := active_readers (ch_readers c) + 1\<rparr>\<rparr>))"

definition ch_release :: "channel \<Rightarrow> channel" where
  "ch_release c = c\<lparr>ch_readers := (ch_readers c)
     \<lparr>active_readers := active_readers (ch_readers c) - 1,
      data_consumed := data_consumed (ch_readers c) + 1\<rparr>\<rparr>"

definition ch_registration :: "mutator \<Rightarrow> channel \<Rightarrow> unit outcome \<times> channel" where
  "ch_registration mu c =
     (case mutate mu (ch_readers c) of
        Inl p \<Rightarrow> (Panics p, c)
      | Inr r \<Rightarrow> (Returns (), c\<lparr>ch_readers := r\<rparr>))"

definition abs_channel :: "shared_message \<Rightarrow> channel" where
  "abs_channel m =
     \<lparr> ch_sequence = sequence (get_sequence_state m),
       ch_stopped = stopped (get_sequence_state m),
       ch_writing = writing_in_progress (get_sequence_state m),
       ch_payload = take (unat (data_size m)) (data m),
       ch_capacity = length (data m),
       ch_readers = get_reader_state m \<rparr>"

section \<open>Well-formed memory\<close>

definition wf_message :: "shared_message \<Rightarrow> bool" where
  "wf_message m \<longleftrightarrow> unat (data_size m) \<le> length (data m) \<and> length (data m) < 2 ^ 64"

lemma data_ref_wf: "wf_message m \<Longrightarrow> data_ref m = Inr (ch_payload (abs_channel m))"
  by (simp add: data_ref_def wf_message_def abs_channel_def)

section \<open>Effects of the building blocks\<close>

lemma update_reader_state_eq [op_simps]:
  "update_reader_state mu m =
     (case mutate mu (get_reader_state m) of
        Inl p \<Rightarrow> (Inl p, m)
      | Inr r \<Rightarrow> (Inr r, m\<lparr>readers_state := ReadersStateCount_to_packed r\<rparr>))"
proof -
  have "m\<lparr>readers_state := readers_state m\<rparr> = m" by simp
  then show ?thesis
    by (auto simp: update_reader_state_def get_reader_state_def Let_def simp del: shared_message.surjective
        split: sum.splits)
qed

lemma next_sequence_masked: "next_sequence q AND SEQUENCE_MASK = next_sequence q"
proof -
  have "(1 :: u64) AND SEQUENCE_MASK = 1" by (simp add: and_SEQUENCE_MASK_id)
  then show ?thesis by (simp add: next_sequence_def Let_def and.assoc)
qed

lemma next_sequence_nonzero: "next_sequence q \<noteq> 0"
  by (simp add: next_sequence_def Let_def)

lemmas state_defs [op_simps] =
  get_sequence_state_def get_reader_state_def notify_writer_condvar_def notify_reader_done_condvar_def
  mutex_unlock_def

lemma mutex_lock_alone [op_simps]:
  "mutex_lock [] m =
     (if writer_mutex m = UNLOCKED then (Returns (), m\<lparr>writer_mutex := LOCKED\<rparr>, [])
      else (Blocks, m\<lparr>writer_mutex := CONTENDED\<rparr>, []))"
proof -
  have "m\<lparr>writer_mutex := CONTENDED\<rparr> = m" if "writer_mutex m = CONTENDED"
    using that by (metis shared_message.surjective shared_message.update_convs(4) shared_message.select_convs(4))
  then show ?thesis by (auto simp: mutex_lock_def lock_contended_loop.simps Let_def)
qed


lemma await_consumed_alone:
  "await_consumed (reader_done_condvar m) r [] m =
     (if data_consumed r < get_target_consumed r then
        if is_stopped m then (Returns False, m, []) else (Blocks, notify_writer_condvar m, [])
      else (Returns True, m, []))"
  by (subst await_consumed.simps) (simp add: condvar_wait_def notify_writer_condvar_def Let_def)

lemma await_idle_alone:
  "await_idle (reader_done_condvar m) [] m =
     (if 0 < active_readers (get_reader_state m) then
        if is_stopped m then
          (Returns False,
           m\<lparr>sequence_and_flags := sequence_and_flags m AND NOT WRITING_IN_PROGRESS_MASK\<rparr>, [])
        else (Blocks, m, [])
      else (Returns True, m, []))"
  by (subst await_idle.simps) (simp add: condvar_wait_def)

definition unread :: "shared_message \<Rightarrow> bool" where
  "unread m \<longleftrightarrow> ch_unread (abs_channel m)"

lemma unread_iff:
  "unread m \<longleftrightarrow> 0 < sequence (get_sequence_state m) \<and>
     data_consumed (get_reader_state m) < get_target_consumed (get_reader_state m)"
  by (simp add: unread_def ch_unread_def abs_channel_def)

text \<open>\<open>start_write\<close> with nobody else running.\<close>

lemma start_write_alone:
  "start_write [] m =
     (if is_stopped m then (Returns False, m, [])
      else if writer_mutex m \<noteq> UNLOCKED then (Blocks, m\<lparr>writer_mutex := CONTENDED\<rparr>, [])
      else if unread m then (Blocks, notify_writer_condvar (m\<lparr>writer_mutex := LOCKED\<rparr>), [])
      else (let m1 = m\<lparr>writer_mutex := LOCKED,
                       sequence_and_flags := sequence_and_flags m OR WRITING_IN_PROGRESS_MASK\<rparr> in
            if 0 < active_readers (get_reader_state m) then (Blocks, m1, [])
            else (Returns True, m1, [])))"
proof (cases "is_stopped m \<or> writer_mutex m \<noteq> UNLOCKED")
  case True
  then show ?thesis by (auto simp: start_write_def mutex_lock_alone)
next
  case False
  let ?l = "m\<lparr>writer_mutex := LOCKED\<rparr>"
  let ?m1 = "m\<lparr>writer_mutex := LOCKED,
      sequence_and_flags := sequence_and_flags m OR WRITING_IN_PROGRESS_MASK\<rparr>"
  have same: "get_reader_state ?l = get_reader_state m" "get_sequence_state ?l = get_sequence_state m"
    "is_stopped ?l = is_stopped m" "get_reader_state ?m1 = get_reader_state m"
    "is_stopped ?m1 = is_stopped m"
    by (simp_all add: get_reader_state_def get_sequence_state_def is_stopped_def packed_simps)
  have zero: "0 < t" if "c < t" for c t :: u16
    using word_zero_le that by (rule le_less_trans)
  note idle = await_idle_alone [of ?m1]
  show ?thesis
    using False same zero idle
    by (auto simp: start_write_def mutex_lock_alone await_consumed_alone [of ?l, simplified] unread_iff
        Let_def split: if_splits)
qed


lemma publish_write_eq:
  "publish_write sz m =
     (Some (next_sequence (sequence (get_sequence_state m))),
      m\<lparr>data_size := sz,
        readers_state := ReadersStateCount_to_packed ((get_reader_state m)\<lparr>data_consumed := 0\<rparr>),
        sequence_and_flags := SequenceState_to_packed
          \<lparr>sequence = next_sequence (sequence (get_sequence_state m)),
           stopped = is_stopped m, writing_in_progress = False\<rparr>,
        writer_condvar := writer_condvar m + 1,
        writer_mutex := UNLOCKED\<rparr>)"
  by (simp add: publish_write_def op_simps is_stopped_def Let_def)

section \<open>Each operation implements the channel\<close>

lemma abs_channel_frame:
  "abs_channel (m\<lparr>writer_mutex := w\<rparr>) = abs_channel m"
  "abs_channel (notify_writer_condvar m) = abs_channel m"
  "abs_channel (notify_reader_done_condvar m) = abs_channel m"
  "abs_channel (mutex_unlock m) = abs_channel m"
  by (simp_all add: abs_channel_def op_simps)

lemma abs_channel_flags:
  "abs_channel (m\<lparr>sequence_and_flags := sequence_and_flags m OR WRITING_IN_PROGRESS_MASK\<rparr>) =
     (abs_channel m)\<lparr>ch_writing := True\<rparr>"
  "abs_channel (m\<lparr>sequence_and_flags := sequence_and_flags m OR STOPPED_MASK\<rparr>) =
     (abs_channel m)\<lparr>ch_stopped := True\<rparr>"
  by (simp_all add: abs_channel_def op_simps packed_simps)

lemma abs_channel_readers:
  "abs_channel (m\<lparr>readers_state := ReadersStateCount_to_packed r\<rparr>) = (abs_channel m)\<lparr>ch_readers := r\<rparr>"
  by (simp add: abs_channel_def op_simps packed_simps)

lemma abs_channel_sel:
  "ch_stopped (abs_channel m) = is_stopped m"
  "ch_sequence (abs_channel m) = sequence (get_sequence_state m)"
  "ch_writing (abs_channel m) = writing_in_progress (get_sequence_state m)"
  "ch_readers (abs_channel m) = get_reader_state m"
  "ch_capacity (abs_channel m) = length (data m)"
  by (simp_all add: abs_channel_def is_stopped_def)

lemma unat_of_nat_length:
  "length d \<le> length (data m) \<Longrightarrow> wf_message m \<Longrightarrow> unat (of_nat (length d) :: usize) = length d"
  by (simp add: wf_message_def unat_of_nat)

lemma abs_channel_published:
  assumes "wf_message m" "length d \<le> length (data m)"
  shows "abs_channel (snd (publish_write (of_nat (length d)) (m\<lparr>data := overwrite_prefix d (data m)\<rparr>))) =
     (abs_channel m)\<lparr>ch_sequence := next_sequence (ch_sequence (abs_channel m)), ch_writing := False,
       ch_payload := d, ch_readers := (ch_readers (abs_channel m))\<lparr>data_consumed := 0\<rparr>\<rparr>"
  using assms unat_of_nat_length [OF assms(2,1)]
  by (simp add: publish_write_eq abs_channel_def op_simps packed_simps next_sequence_masked is_stopped_def)

lemma fst_publish_write:
  "fst (publish_write sz (m\<lparr>data := d\<rparr>)) = Some (next_sequence (ch_sequence (abs_channel m)))"
  by (simp add: publish_write_eq abs_channel_def get_sequence_state_def)

lemma write_slice_refines:
  assumes wf: "wf_message m" and free: "writer_mutex m = UNLOCKED"
    and run: "write_slice d [] m = (r, m', es)"
  shows "ch_write d (abs_channel m) = (r, abs_channel m')"
proof -
  let ?m1 = "m\<lparr>writer_mutex := LOCKED,
      sequence_and_flags := sequence_and_flags m OR WRITING_IN_PROGRESS_MASK\<rparr>"
  have m1: "abs_channel ?m1 = (abs_channel m)\<lparr>ch_writing := True\<rparr>" "wf_message ?m1"
    using wf abs_channel_flags(1) [of "m\<lparr>writer_mutex := LOCKED\<rparr>"]
    by (simp_all add: abs_channel_frame wf_message_def)
  show ?thesis
    using run free wf m1 abs_channel_published [of ?m1 d] fst_publish_write [where m = ?m1]
    by (auto simp: write_slice_def start_write_alone ch_write_def abs_channel_frame abs_channel_sel(1,4,5)
        unread_def [symmetric] Let_def case_prod_beta split: if_splits)
qed

lemma read_alone:
  "read last_seen block [] m =
     (if sequence (get_sequence_state m) = last_seen
      then (if stopped (get_sequence_state m) \<or> \<not> block then Returns None else Blocks, m, [])
      else if writing_in_progress (get_sequence_state m) then (Blocks, m, [])
      else (Returns (Some \<lparr>guard_sequence = sequence (get_sequence_state m)\<rparr>),
            snd (update_reader_state Register_reader m), []))"
  by (subst read.simps) (simp add: Let_def condvar_wait_def sequence_state_update_reader)

lemma read_refines:
  "read last_seen block [] m = (r, m', es) \<Longrightarrow> ch_read last_seen block (abs_channel m) = (r, abs_channel m')"
  by (auto simp: read_alone ch_read_def abs_channel_sel update_reader_state_eq abs_channel_readers
      is_stopped_def split: if_splits)

lemma release_refines: "abs_channel (release_active_reader m) = ch_release (abs_channel m)"
  by (simp add: release_active_reader_def ch_release_def update_reader_state_eq abs_channel_frame
      abs_channel_readers abs_channel_sel)

lemma stop_refines: "abs_channel (stop m) = (abs_channel m)\<lparr>ch_stopped := True\<rparr>"
  by (simp add: stop_def abs_channel_frame abs_channel_flags)

lemma registration_refines:
  "reader_registration mu m = (r, m') \<Longrightarrow> ch_registration mu (abs_channel m) = (r, abs_channel m')"
  by (auto simp: reader_registration_def ch_registration_def update_reader_state_eq abs_channel_sel
      abs_channel_readers split: sum.splits)

lemma set_target_refines:
  assumes "writer_mutex m = UNLOCKED" "set_target_read_count count [] m = (r, m', es)"
  shows "(r, abs_channel m') =
    (Returns (), (abs_channel m)\<lparr>ch_readers := (ch_readers (abs_channel m))\<lparr>target_read := count\<rparr>\<rparr>)"
  using assms
  by (auto simp: set_target_read_count_def mutex_lock_alone update_reader_state_eq abs_channel_frame
      abs_channel_readers abs_channel_sel get_reader_state_def)


section \<open>Whole histories of calls\<close>

datatype call =
    Call_write_slice bytes
  | Call_read u64 bool
  | Call_release
  | Call_stop
  | Call_set_target u16
  | Call_add_reader
  | Call_remove_reader

datatype call_result =
    Sequence_result "u64 option outcome"
  | Guard_result "message_read_guard option outcome"
  | Unit_result "unit outcome"

fun perform :: "call \<Rightarrow> shared_message \<Rightarrow> call_result \<times> shared_message" where
  "perform (Call_write_slice d) m =
     (case write_slice d [] m of (r, m', _) \<Rightarrow> (Sequence_result r, m'))"
| "perform (Call_read last_seen block) m =
     (case read last_seen block [] m of (r, m', _) \<Rightarrow> (Guard_result r, m'))"
| "perform Call_release m = (Unit_result (Returns ()), release_active_reader m)"
| "perform Call_stop m = (Unit_result (Returns ()), stop m)"
| "perform (Call_set_target count) m =
     (case set_target_read_count count [] m of (r, m', _) \<Rightarrow> (Unit_result r, m'))"
| "perform Call_add_reader m = (case add_reader m of (r, m') \<Rightarrow> (Unit_result r, m'))"
| "perform Call_remove_reader m = (case remove_reader m of (r, m') \<Rightarrow> (Unit_result r, m'))"

fun perform_spec :: "call \<Rightarrow> channel \<Rightarrow> call_result \<times> channel" where
  "perform_spec (Call_write_slice d) c = (case ch_write d c of (r, c') \<Rightarrow> (Sequence_result r, c'))"
| "perform_spec (Call_read last_seen block) c =
     (case ch_read last_seen block c of (r, c') \<Rightarrow> (Guard_result r, c'))"
| "perform_spec Call_release c = (Unit_result (Returns ()), ch_release c)"
| "perform_spec Call_stop c = (Unit_result (Returns ()), c\<lparr>ch_stopped := True\<rparr>)"
| "perform_spec (Call_set_target count) c =
     (Unit_result (Returns ()), c\<lparr>ch_readers := (ch_readers c)\<lparr>target_read := count\<rparr>\<rparr>)"
| "perform_spec Call_add_reader c = (case ch_registration Add_reader c of (r, c') \<Rightarrow> (Unit_result r, c'))"
| "perform_spec Call_remove_reader c =
     (case ch_registration Remove_reader c of (r, c') \<Rightarrow> (Unit_result r, c'))"

fun is_blocked :: "call_result \<Rightarrow> bool" where
  "is_blocked (Sequence_result r) = (r = Blocks)"
| "is_blocked (Guard_result r) = (r = Blocks)"
| "is_blocked (Unit_result r) = (r = Blocks)"

definition quiescent :: "shared_message \<Rightarrow> bool" where
  "quiescent m \<longleftrightarrow> wf_message m \<and> writer_mutex m = UNLOCKED"

lemma publish_write_keeps:
  "unat sz \<le> length (data m) \<Longrightarrow> length (data m) < 2 ^ 64 \<Longrightarrow> quiescent (snd (publish_write sz m))"
  by (simp add: publish_write_eq quiescent_def wf_message_def)

lemma write_slice_keeps:
  assumes "quiescent m" "write_slice d [] m = (r, m', es)" "r \<noteq> Blocks"
  shows "quiescent m'"
proof -
  let ?m1 = "m\<lparr>writer_mutex := LOCKED,
      sequence_and_flags := sequence_and_flags m OR WRITING_IN_PROGRESS_MASK\<rparr>"
  have q: "wf_message m" "writer_mutex m = UNLOCKED" using assms(1) by (simp_all add: quiescent_def)
  have "quiescent (snd (publish_write (of_nat (length d)) (?m1\<lparr>data := overwrite_prefix d (data ?m1)\<rparr>)))"
    if "length d \<le> length (data m)"
    using that q(1) unat_of_nat_length [OF that q(1)]
    by (intro publish_write_keeps) (simp_all add: wf_message_def)
  moreover have "quiescent (mutex_unlock ?m1)" "quiescent m"
    using q by (simp_all add: quiescent_def wf_message_def mutex_unlock_def)
  ultimately show ?thesis
    using assms(2,3) q(2)
    by (auto simp: write_slice_def start_write_alone Let_def case_prod_beta split: if_splits)
qed

lemma update_reader_state_keeps: "quiescent m \<Longrightarrow> quiescent (snd (update_reader_state mu m))"
  by (auto simp: quiescent_def wf_message_def update_reader_state_eq split: sum.splits)

lemma perform_keeps:
  assumes "quiescent m" "perform c m = (r, m')" "\<not> is_blocked r"
  shows "quiescent m'"
proof (cases c)
  case (Call_write_slice d)
  with assms show ?thesis by (auto split: prod.splits intro: write_slice_keeps)
next
  case (Call_read last_seen block)
  with assms update_reader_state_keeps [of m Register_reader] show ?thesis
    by (auto simp: read_alone split: if_splits)
next
  case (Call_set_target count)
  with assms show ?thesis
    by (auto simp: set_target_read_count_def mutex_lock_alone quiescent_def wf_message_def
        update_reader_state_eq mutex_unlock_def split: if_splits)
qed (use assms in \<open>auto simp: quiescent_def wf_message_def release_active_reader_def stop_def add_reader_def
      remove_reader_def reader_registration_def update_reader_state_eq notify_reader_done_condvar_def
      notify_writer_condvar_def split: sum.splits if_splits prod.splits\<close>)

lemma perform_refines:
  assumes "quiescent m" "perform c m = (r, m')"
  shows "perform_spec c (abs_channel m) = (r, abs_channel m')"
proof (cases c)
  case (Call_write_slice d)
  with assms show ?thesis
    by (auto simp: quiescent_def dest!: write_slice_refines split: prod.splits)
next
  case (Call_read last_seen block)
  with assms show ?thesis by (auto dest!: read_refines split: prod.splits)
next
  case (Call_set_target count)
  with assms show ?thesis
    by (auto simp: quiescent_def dest!: set_target_refines split: prod.splits)
qed (use assms in \<open>auto simp: release_refines stop_refines add_reader_def remove_reader_def
      split: prod.splits dest!: registration_refines\<close>)

interpretation msg: call_refinement abs_channel quiescent perform perform_spec is_blocked
  by unfold_locales (auto intro: perform_refines perform_keeps)


section \<open>Sequence numbers\<close>

lemma unat_next_sequence:
  assumes "unat q + 1 < 2 ^ 62"
  shows "unat (next_sequence q) = unat q + 1"
proof -
  have "unat (q + 1) = unat q + 1" using assms by (simp add: unat_word_ariths(1))
  moreover from this assms have "(q + 1) AND SEQUENCE_MASK = q + 1" by (simp add: and_SEQUENCE_MASK_id)
  ultimately show ?thesis by (auto simp: next_sequence_def Let_def)
qed

lemma next_sequence_of_nat:
  assumes "n < 2 ^ 62 - 1"
  shows "next_sequence (of_nat n) = of_nat (Suc n)"
proof -
  have n: "unat (of_nat n :: u64) = n" "unat (of_nat (Suc n) :: u64) = Suc n"
    using assms by (simp_all add: unat_of_nat del: of_nat_Suc)
  with assms have "unat (next_sequence (of_nat n)) = unat (of_nat (Suc n) :: u64)"
    using unat_next_sequence [of "of_nat n"] by simp
  then show ?thesis by (simp only: word_unat_eq_iff)
qed

lemma sequence_iterates: "n < 2 ^ 62 \<Longrightarrow> (next_sequence ^^ n) 0 = of_nat n"
proof (induction n)
  case (Suc n)
  moreover from Suc.prems have "next_sequence (of_nat n) = of_nat (Suc n)"
    using next_sequence_of_nat [of n] by simp
  ultimately show ?case by simp
qed simp

lemma next_sequence_last: "next_sequence (2 ^ 62 - 1) = 1"
  by (simp add: next_sequence_def SEQUENCE_MASK_eq mask_eq_exp_minus_1 Let_def)

lemma next_sequence_neq:
  assumes "q AND SEQUENCE_MASK = q"
  shows "next_sequence q \<noteq> q"
proof (cases "unat q + 1 < 2 ^ 62")
  case True
  with unat_next_sequence [OF True] show ?thesis by auto
next
  case False
  moreover from assms have "unat q < 2 ^ 62" by (simp add: and_SEQUENCE_MASK_id)
  ultimately have "unat q = unat (2 ^ 62 - 1 :: u64)" by simp
  then have "q = 2 ^ 62 - 1" by (simp only: word_unat_eq_iff)
  then show ?thesis using next_sequence_last by simp
qed

lemma current_sequence_masked: "current_sequence m AND SEQUENCE_MASK = current_sequence m"
  by (simp add: current_sequence_def get_sequence_state_def sequence_masked)

section \<open>Writing when nothing stands in the way\<close>

definition writable :: "bytes \<Rightarrow> shared_message \<Rightarrow> bool" where
  "writable d m \<longleftrightarrow> \<not> is_stopped m \<and> \<not> unread m \<and> active_readers (get_reader_state m) = 0 \<and>
     length d \<le> capacity m"

lemma write_slice_writable:
  assumes "quiescent m" "writable d m"
  obtains m1 where "write_slice d [] m = (Returns (Some (next_sequence (current_sequence m))), m1, [])"
    "quiescent m1"
    "abs_channel m1 = (abs_channel m)\<lparr>ch_sequence := next_sequence (current_sequence m), ch_writing := False,
       ch_payload := d, ch_readers := (get_reader_state m)\<lparr>data_consumed := 0\<rparr>\<rparr>"
proof -
  obtain r m1 es where run: "write_slice d [] m = (r, m1, es)" by (metis prod.exhaust)
  from assms have "wf_message m" "writer_mutex m = UNLOCKED" by (simp_all add: quiescent_def)
  from write_slice_refines [OF this run] assms(2)
  have r: "r = Returns (Some (next_sequence (current_sequence m)))"
    and abs: "abs_channel m1 = (abs_channel m)\<lparr>ch_sequence := next_sequence (current_sequence m),
       ch_writing := False, ch_payload := d, ch_readers := (get_reader_state m)\<lparr>data_consumed := 0\<rparr>\<rparr>"
    by (auto simp: ch_write_def writable_def unread_def capacity_def abs_channel_sel current_sequence_def)
  moreover have "es = []" using run
    by (auto simp: write_slice_def start_write_alone Let_def case_prod_beta split: if_splits)
  moreover have "quiescent m1" using write_slice_keeps [OF assms(1) run] r by simp
  ultimately show ?thesis using that run by blast
qed

text \<open>Reading the message a memory holds, and releasing the guard.\<close>

lemma read_available:
  assumes "last_seen \<noteq> current_sequence m" "\<not> writing_in_progress (get_sequence_state m)"
  obtains m1 where "read last_seen block [] m = (Returns (Some \<lparr>guard_sequence = current_sequence m\<rparr>), m1, [])"
    "m1 = snd (update_reader_state Register_reader m)"
    "abs_channel m1 = (abs_channel m)\<lparr>ch_readers :=
       (get_reader_state m)\<lparr>active_readers := active_readers (get_reader_state m) + 1\<rparr>\<rparr>"
  using assms that
  by (simp add: read_alone current_sequence_def update_reader_state_eq abs_channel_readers)

lemma abs_eqD:
  assumes "abs_channel m = c"
  shows "current_sequence m = ch_sequence c" "is_stopped m = ch_stopped c"
    "writing_in_progress (get_sequence_state m) = ch_writing c" "get_reader_state m = ch_readers c"
    "length (data m) = ch_capacity c"
  using assms by (auto simp: abs_channel_sel current_sequence_def)

lemma read_keeps:
  "quiescent m \<Longrightarrow> quiescent (snd (update_reader_state Register_reader m))"
  by (rule update_reader_state_keeps)

end
