(* ===== verification/Message_Behaviour.thy ===== *)
theory Message_Behaviour
  imports Message_Spec
begin

text \<open>
  The properties of the operations of a shared message that one caller observes: the refinement of the
  abstract channel by whole histories of calls, round trips, behaviour on every branch, blocking and
  waking, stopping, the sequence numbers and the reader counters, and the states in which the code
  leaves a caller waiting for ever.
\<close>

section \<open>Concrete memories for the witnesses\<close>

text \<open>The zero-filled memory that a new shared memory object of the given payload size maps to.\<close>

definition fresh_message :: "nat \<Rightarrow> shared_message" where
  "fresh_message n =
     \<lparr> sequence_and_flags = 0, data_size = 0, readers_state = 0, writer_mutex = 0, writer_condvar = 0,
       reader_done_condvar = 0, data = replicate n 0 \<rparr>"

text \<open>One registered consumer, writers wait for one reader, message \<open>[1, 2]\<close> published and unread.\<close>

definition sample_calls :: "call list" where
  "sample_calls = [Call_add_reader, Call_set_target 1, Call_write_slice [1, 2]]"

definition sample_message :: shared_message where
  "sample_message = snd (run_calls perform is_blocked sample_calls (fresh_message 8))"

lemma fresh_message_quiescent: "n < 2 ^ 64 \<Longrightarrow> quiescent (fresh_message n)"
  by (simp add: quiescent_def wf_message_def fresh_message_def UNLOCKED_def)

lemma fresh_message_state:
  "get_sequence_state (fresh_message n) = \<lparr>sequence = 0, stopped = False, writing_in_progress = False\<rparr>"
  "get_reader_state (fresh_message n) =
     \<lparr>target_read = 0, consumers = 0, active_readers = 0, data_consumed = 0\<rparr>"
  by (simp_all add: fresh_message_def get_sequence_state_def SequenceState_from_def get_reader_state_def
      ReadersStateCount_from_def)

lemma fresh_message_writable: "length d \<le> n \<Longrightarrow> writable d (fresh_message n)"
  by (simp add: writable_def is_stopped_def unread_iff fresh_message_state capacity_def)
    (simp add: fresh_message_def)

lemma abs_fresh:
  "abs_channel (fresh_message n) =
     \<lparr> ch_sequence = 0, ch_stopped = False, ch_writing = False, ch_payload = [], ch_capacity = n,
       ch_readers = \<lparr>target_read = 0, consumers = 0, active_readers = 0, data_consumed = 0\<rparr> \<rparr>"
  by (simp add: abs_channel_def fresh_message_state) (simp add: fresh_message_def)

lemma next_sequence_0: "next_sequence 0 = 1"
  by (simp add: next_sequence_def SEQUENCE_MASK_eq mask_eq_exp_minus_1 Let_def)

lemma sample_message_facts:
  "quiescent sample_message"
  "abs_channel sample_message =
     \<lparr> ch_sequence = 1, ch_stopped = False, ch_writing = False, ch_payload = [1, 2], ch_capacity = 8,
       ch_readers = \<lparr>target_read = 1, consumers = 1, active_readers = 0, data_consumed = 0\<rparr> \<rparr>"
proof -
  obtain rs where run: "run_calls perform is_blocked sample_calls (fresh_message 8) = (rs, sample_message)"
    unfolding sample_message_def by (metis prod.collapse)
  have ok: "quiescent (fresh_message 8)" by (rule fresh_message_quiescent) simp
  from msg.run_refines [OF ok run]
  have spec: "run_calls perform_spec is_blocked sample_calls (abs_channel (fresh_message 8)) =
      (rs, abs_channel sample_message)" .
  have eval: "run_calls perform_spec is_blocked sample_calls (abs_channel (fresh_message 8)) =
     ([Unit_result (Returns ()), Unit_result (Returns ()), Sequence_result (Returns (Some 1))],
      \<lparr> ch_sequence = 1, ch_stopped = False, ch_writing = False, ch_payload = [1, 2], ch_capacity = 8,
       ch_readers = \<lparr>target_read = 1, consumers = 1, active_readers = 0, data_consumed = 0\<rparr> \<rparr>)"
    by (simp add: sample_calls_def abs_fresh ch_registration_def ch_write_def ch_unread_def next_sequence_0)
  then have "list_all (\<lambda>r. \<not> is_blocked r) rs" using spec by auto
  then show "quiescent sample_message" by (rule msg.run_keeps [OF ok run])
  show "abs_channel sample_message =
     \<lparr> ch_sequence = 1, ch_stopped = False, ch_writing = False, ch_payload = [1, 2], ch_capacity = 8,
       ch_readers = \<lparr>target_read = 1, consumers = 1, active_readers = 0, data_consumed = 0\<rparr> \<rparr>"
    using spec eval by simp
qed

section \<open>Properties\<close>

text \<open>
  C6: Refinement. Any history of calls on a quiescent memory, each run to its end (the last one may
  block), returns the results that the abstract channel returns and ends in a memory that abstracts to
  the channel's state; if no call blocks the memory is quiescent again.
\<close>

theorem message_refines_channel:
  assumes "quiescent m" "run_calls perform is_blocked cs m = (rs, m')"
  shows "run_calls perform_spec is_blocked cs (abs_channel m) = (rs, abs_channel m') \<and>
    (if list_all (\<lambda>r. \<not> is_blocked r) rs then quiescent m' else True)"
  using msg.run_refines [OF assms] msg.run_keeps [OF assms] by simp

theorem message_refines_channel_witness:
  "run_calls perform_spec is_blocked sample_calls (abs_channel (fresh_message 8)) =
     (fst (run_calls perform is_blocked sample_calls (fresh_message 8)), abs_channel sample_message)"
  using message_refines_channel [OF fresh_message_quiescent, of 8 sample_calls
      "fst (run_calls perform is_blocked sample_calls (fresh_message 8))" sample_message]
  by (simp add: sample_message_def)

text \<open>
  C22: Round trip of a message. On a quiescent memory that accepts the write (not stopped, the last
  message read by enough consumers, no reader registered, the data fits), \<open>write_slice\<close> returns the
  next sequence number, a following \<open>read\<close> by anyone who has not seen that number returns a guard with
  it, the guard shows exactly the bytes written, and dropping the guard leaves no active reader and one
  consumption counted.
\<close>

theorem write_then_read:
  assumes "quiescent m" "writable d m" "last_seen \<noteq> next_sequence (current_sequence m)"
  shows "\<exists>m1 m2.
     write_slice d [] m = (Returns (Some (next_sequence (current_sequence m))), m1, []) \<and>
     read last_seen block [] m1 =
       (Returns (Some \<lparr>guard_sequence = next_sequence (current_sequence m)\<rparr>), m2, []) \<and>
     data_ref m2 = Inr d \<and>
     active_readers (get_reader_state (release_active_reader m2)) = 0 \<and>
     data_consumed (get_reader_state (release_active_reader m2)) = 1"
proof -
  obtain m1 where w: "write_slice d [] m = (Returns (Some (next_sequence (current_sequence m))), m1, [])"
    and q1: "quiescent m1"
    and abs1: "abs_channel m1 = (abs_channel m)\<lparr>ch_sequence := next_sequence (current_sequence m),
       ch_writing := False, ch_payload := d, ch_readers := (get_reader_state m)\<lparr>data_consumed := 0\<rparr>\<rparr>"
    using write_slice_writable [OF assms(1,2)] by blast
  note m1 = abs_eqD [OF abs1]
  obtain m2 where r: "read last_seen block [] m1 =
      (Returns (Some \<lparr>guard_sequence = next_sequence (current_sequence m)\<rparr>), m2, [])"
    and m2: "m2 = snd (update_reader_state Register_reader m1)"
    and abs2: "abs_channel m2 = (abs_channel m1)\<lparr>ch_readers :=
       (get_reader_state m1)\<lparr>active_readers := active_readers (get_reader_state m1) + 1\<rparr>\<rparr>"
    using read_available [of last_seen m1 block] assms(3) m1 by auto
  have "wf_message m2" using read_keeps [OF q1] m2 by (simp add: quiescent_def)
  then have "data_ref m2 = Inr d" using data_ref_wf abs1 abs2 by simp
  moreover have "ch_readers (abs_channel (release_active_reader m2)) =
      (get_reader_state m)\<lparr>active_readers := 0, data_consumed := 1\<rparr>"
    using release_refines [of m2] abs2 m1(4) assms(2) by (simp add: ch_release_def writable_def)
  ultimately show ?thesis using w r by (auto simp: abs_channel_sel)
qed


theorem write_then_read_witness:
  "\<exists>m1 m2.
     write_slice [7, 9] [] (fresh_message 8) = (Returns (Some 1), m1, []) \<and>
     read 0 True [] m1 = (Returns (Some \<lparr>guard_sequence = 1\<rparr>), m2, []) \<and>
     data_ref m2 = Inr [7, 9]"
proof -
  have "quiescent (fresh_message 8)" "writable [7, 9] (fresh_message 8)"
    by (simp_all add: fresh_message_quiescent fresh_message_writable)
  moreover have "current_sequence (fresh_message 8) = 0"
    by (simp add: current_sequence_def fresh_message_state)
  ultimately show ?thesis
    using write_then_read [of "fresh_message 8" "[7, 9]" 0 True] by (auto simp: next_sequence_0)
qed

text \<open>
  C24: \<open>write_slice\<close> on every branch, with nobody else running. A stopped message refuses; a held mutex,
  an unread message or an active reader blocks it; data that does not fit panics and leaves the
  writing flag set; otherwise the memory holds the data, the next sequence number with the writing
  flag cleared, a reset consumption count, one more notification for the readers and a free mutex.
\<close>

theorem write_slice_branches:
  "write_slice d [] m =
     (if is_stopped m then (Returns None, m, [])
      else if writer_mutex m \<noteq> UNLOCKED then (Blocks, m\<lparr>writer_mutex := CONTENDED\<rparr>, [])
      else if unread m
      then (Blocks, m\<lparr>writer_mutex := LOCKED, writer_condvar := writer_condvar m + 1\<rparr>, [])
      else if 0 < active_readers (get_reader_state m)
      then (Blocks, m\<lparr>writer_mutex := LOCKED,
              sequence_and_flags := sequence_and_flags m OR WRITING_IN_PROGRESS_MASK\<rparr>, [])
      else if length (data m) < length d
      then (Panics (Capacity_exceeded (length d) (length (data m))),
            m\<lparr>writer_mutex := UNLOCKED,
              sequence_and_flags := sequence_and_flags m OR WRITING_IN_PROGRESS_MASK\<rparr>, [])
      else (Returns (Some (next_sequence (current_sequence m))),
            m\<lparr>sequence_and_flags := SequenceState_to_packed
                \<lparr>sequence = next_sequence (current_sequence m), stopped = False, writing_in_progress = False\<rparr>,
              data_size := of_nat (length d),
              readers_state := ReadersStateCount_to_packed ((get_reader_state m)\<lparr>data_consumed := 0\<rparr>),
              writer_mutex := UNLOCKED,
              writer_condvar := writer_condvar m + 1,
              data := overwrite_prefix d (data m)\<rparr>, []))"
  by (auto simp: write_slice_def start_write_alone publish_write_eq Let_def mutex_unlock_def
      notify_writer_condvar_def current_sequence_def get_sequence_state_def get_reader_state_def
      is_stopped_def packed_simps)


text \<open>
  C25: \<open>stop\<close>. Afterwards every \<open>write_slice\<close> returns \<open>None\<close> and changes nothing; a reader that has seen
  the current sequence number gets \<open>None\<close> instead of blocking; one that has not still gets the last
  message, unless a write was in progress, which then blocks it.
\<close>

theorem stop_semantics:
  "write_slice d [] (stop m) = (Returns None, stop m, []) \<and>
   read last_seen block [] (stop m) =
     (if last_seen = current_sequence m then (Returns None, stop m, [])
      else if writing_in_progress (get_sequence_state m) then (Blocks, stop m, [])
      else (Returns (Some \<lparr>guard_sequence = current_sequence m\<rparr>),
            snd (update_reader_state Register_reader (stop m)), [])) \<and>
   data_ref (stop m) = data_ref m \<and> is_stopped (stop m)"
proof -
  have state: "get_sequence_state (stop m) = (get_sequence_state m)\<lparr>stopped := True\<rparr>"
    by (simp add: stop_def state_defs packed_simps)
  moreover have "data_ref (stop m) = data_ref m"
    by (simp add: stop_def state_defs data_ref_def)
  ultimately show ?thesis
    by (auto simp: write_slice_def start_write_alone read_alone is_stopped_def current_sequence_def)
qed

text \<open>
  A reader that blocks is woken with the next message. While \<open>read\<close> sleeps on a message it has
  seen, another thread's \<open>write_slice\<close> makes it return a guard on exactly that write.
\<close>

theorem blocked_read_gets_next_message:
  assumes "quiescent m" "writable d m"
  shows "read (current_sequence m) True [] m = (Blocks, m, []) \<and>
    (\<exists>m'. read (current_sequence m) True [\<lambda>m. fst (snd (write_slice d [] m))] m =
       (Returns (Some \<lparr>guard_sequence = next_sequence (current_sequence m)\<rparr>), m', []) \<and>
     data_ref m' = Inr d)"
proof
  from assms(2) show "read (current_sequence m) True [] m = (Blocks, m, [])"
    by (simp add: read_alone current_sequence_def writable_def is_stopped_def)
  obtain m1 where w: "write_slice d [] m = (Returns (Some (next_sequence (current_sequence m))), m1, [])"
    and q1: "quiescent m1"
    and abs1: "abs_channel m1 = (abs_channel m)\<lparr>ch_sequence := next_sequence (current_sequence m),
       ch_writing := False, ch_payload := d, ch_readers := (get_reader_state m)\<lparr>data_consumed := 0\<rparr>\<rparr>"
    using write_slice_writable [OF assms] by blast
  note m1 = abs_eqD [OF abs1]
  have "current_sequence m \<noteq> current_sequence m1"
    using m1(1) next_sequence_neq [OF current_sequence_masked, of m] by simp
  then obtain m2 where r: "read (current_sequence m) True [] m1 =
      (Returns (Some \<lparr>guard_sequence = next_sequence (current_sequence m)\<rparr>), m2, [])"
    and m2: "m2 = snd (update_reader_state Register_reader m1)"
      "abs_channel m2 = (abs_channel m1)\<lparr>ch_readers :=
       (get_reader_state m1)\<lparr>active_readers := active_readers (get_reader_state m1) + 1\<rparr>\<rparr>"
    using read_available [of "current_sequence m" m1 True] m1 by auto
  have "read (current_sequence m) True [\<lambda>m. fst (snd (write_slice d [] m))] m =
      read (current_sequence m) True [] m1"
    using assms(2) w
    by (subst read.simps) (simp add: Let_def current_sequence_def writable_def is_stopped_def condvar_wait_def)
  moreover have "data_ref m2 = Inr d"
    using read_keeps [OF q1] m2 abs1 by (simp add: data_ref_wf quiescent_def)
  ultimately show "\<exists>m'. read (current_sequence m) True [\<lambda>m. fst (snd (write_slice d [] m))] m =
       (Returns (Some \<lparr>guard_sequence = next_sequence (current_sequence m)\<rparr>), m', []) \<and>
     data_ref m' = Inr d"
    using r by auto
qed

theorem blocked_read_gets_next_message_witness:
  "\<exists>m'. read 0 True [\<lambda>m. fst (snd (write_slice [5] [] m))] (fresh_message 4) =
     (Returns (Some \<lparr>guard_sequence = 1\<rparr>), m', []) \<and> data_ref m' = Inr [5]"
  using blocked_read_gets_next_message [of "fresh_message 4" "[5]"]
  by (simp add: fresh_message_quiescent fresh_message_writable current_sequence_def fresh_message_state
      next_sequence_0)

text \<open>
  The sequence numbers. They stay below \<open>2 ^ 62\<close> and never become 0 (which means no message yet),
  two consecutive ones differ, they count up by one until the last, and after it start again at 1.
\<close>

theorem sequence_numbers:
  "next_sequence q \<noteq> 0 \<and> unat (next_sequence q) < 2 ^ 62 \<and>
   next_sequence (current_sequence m) \<noteq> current_sequence m \<and>
   (n < 2 ^ 62 - 1 \<longrightarrow> next_sequence (of_nat n) = of_nat (Suc n)) \<and>
   next_sequence (2 ^ 62 - 1) = 1"
proof -
  have "unat (next_sequence q) < 2 ^ 62"
    using next_sequence_masked by (simp only: and_SEQUENCE_MASK_id [symmetric])
  then show ?thesis
    using next_sequence_of_nat [of n] next_sequence_nonzero next_sequence_last next_sequence_neq [OF current_sequence_masked]
    by simp
qed

theorem sequence_numbers_witness: "(5 :: nat) < 2 ^ 62 - 1 \<and> next_sequence (of_nat 5) = of_nat (Suc 5)"
  using sequence_numbers [of 0 undefined 5] by simp

text \<open>
  Registering readers. \<open>add_reader\<close> panics exactly when the counter is full, \<open>remove_reader\<close> exactly
  when it is zero, and a panic leaves the memory as it was; otherwise the counter moves by one and
  nothing else changes, so that removing the reader just added restores the memory.
\<close>

theorem reader_registration_bounds:
  "add_reader m =
     (if consumers (get_reader_state m) = 65535 then (Panics Too_many_readers, m)
      else (Returns (), m\<lparr>readers_state := ReadersStateCount_to_packed
        ((get_reader_state m)\<lparr>consumers := consumers (get_reader_state m) + 1\<rparr>)\<rparr>)) \<and>
   remove_reader m =
     (if consumers (get_reader_state m) = 0 then (Panics No_readers_to_remove, m)
      else (Returns (), m\<lparr>readers_state := ReadersStateCount_to_packed
        ((get_reader_state m)\<lparr>consumers := consumers (get_reader_state m) - 1\<rparr>)\<rparr>)) \<and>
   (if consumers (get_reader_state m) = 65535 then True
    else remove_reader (snd (add_reader m)) = (Returns (), m))"
proof -
  have "(w :: u16) + 1 \<noteq> 0" if "w \<noteq> 65535" for w
  proof
    assume "w + 1 = 0"
    then have "w = - 1" by (simp add: eq_neg_iff_add_eq_0)
    with that show False by simp
  qed
  then show ?thesis
    by (auto simp: add_reader_def remove_reader_def reader_registration_def update_reader_state_eq
        get_reader_state_def packed_simps)
qed


text \<open>The memory a writer sleeps in while the last message is unread.\<close>

definition waiting_for_readers :: "shared_message \<Rightarrow> shared_message" where
  "waiting_for_readers m = notify_writer_condvar (m\<lparr>writer_mutex := LOCKED\<rparr>)"

lemma abs_waiting: "abs_channel (waiting_for_readers m) = abs_channel m"
  by (simp add: waiting_for_readers_def abs_channel_frame)

lemma wf_waiting: "wf_message m \<Longrightarrow> wf_message (waiting_for_readers m)"
  by (simp add: waiting_for_readers_def notify_writer_condvar_def wf_message_def)

lemma start_write_one_sleep:
  assumes "quiescent m" "\<not> is_stopped m" "unread m"
    and awake: "e (waiting_for_readers m) = m2"
    and ready: "\<not> data_consumed (get_reader_state m2) < get_target_consumed (get_reader_state m2)"
      "active_readers (get_reader_state m2) = 0"
  shows "start_write [e] m =
    (Returns True, m2\<lparr>sequence_and_flags := sequence_and_flags m2 OR WRITING_IN_PROGRESS_MASK\<rparr>, [])"
proof -
  let ?l = "m\<lparr>writer_mutex := LOCKED\<rparr>"
  let ?m3 = "m2\<lparr>sequence_and_flags := sequence_and_flags m2 OR WRITING_IN_PROGRESS_MASK\<rparr>"
  have l: "get_reader_state ?l = get_reader_state m" "get_sequence_state ?l = get_sequence_state m"
      "is_stopped ?l = is_stopped m" "reader_done_condvar (notify_writer_condvar ?l) = reader_done_condvar m"
    by (simp_all add: get_reader_state_def get_sequence_state_def is_stopped_def notify_writer_condvar_def)
  have unread: "data_consumed (get_reader_state m) < get_target_consumed (get_reader_state m)"
    "0 < sequence (get_sequence_state m)"
    using assms(3) by (simp_all add: unread_iff)
  have pos: "0 < get_target_consumed (get_reader_state m)"
    using word_zero_le unread(1) by (rule le_less_trans)
  have "await_consumed (reader_done_condvar m) (get_reader_state m) [e] ?l = (Returns True, m2, [])"
    using unread(1) assms(2) awake ready(1)
    by (subst await_consumed.simps)
      (simp add: l condvar_wait_def Let_def waiting_for_readers_def await_consumed_alone)
  moreover have "await_idle (reader_done_condvar m2) [] ?m3 = (Returns True, ?m3, [])"
    using await_idle_alone [of ?m3] ready(2) by (simp add: get_reader_state_def)
  ultimately show ?thesis
    using assms(1,2) pos unread(2) by (simp add: start_write_def mutex_lock_def l quiescent_def Let_def)
qed

lemma write_slice_after_start:
  assumes start: "start_write env m = (Returns True, m1, env1)"
    and wf: "wf_message m1" and len: "length d \<le> length (data m1)"
  shows "\<exists>m'. write_slice d env m = (Returns (Some (next_sequence (current_sequence m1))), m', env1) \<and>
    data_ref m' = Inr d"
proof -
  let ?pub = "publish_write (of_nat (length d)) (m1\<lparr>data := overwrite_prefix d (data m1)\<rparr>)"
  have "write_slice d env m = (Returns (fst ?pub), snd ?pub, env1)"
    using start len by (simp add: write_slice_def case_prod_beta)
  moreover have "fst ?pub = Some (next_sequence (current_sequence m1))"
    using fst_publish_write [where m = m1] by (simp add: abs_channel_sel current_sequence_def)
  moreover have "quiescent (snd ?pub)"
    using wf len unat_of_nat_length [OF len wf] by (intro publish_write_keeps) (simp_all add: wf_message_def)
  then have "data_ref (snd ?pub) = Inr d"
    using abs_channel_published [OF wf len] by (simp add: data_ref_wf quiescent_def)
  ultimately show ?thesis by simp
qed

text \<open>A reader takes the current message and drops the guard at once.\<close>

definition read_and_release :: "u64 \<Rightarrow> shared_message \<Rightarrow> shared_message" where
  "read_and_release last_seen m = release_active_reader (fst (snd (read last_seen False [] m)))"

lemma read_and_release_effect:
  assumes "last_seen \<noteq> current_sequence m" "\<not> writing_in_progress (get_sequence_state m)"
  shows "abs_channel (read_and_release last_seen m) = (abs_channel m)\<lparr>ch_readers :=
    (get_reader_state m)\<lparr>data_consumed := data_consumed (get_reader_state m) + 1\<rparr>\<rparr>"
    and "wf_message (read_and_release last_seen m) = wf_message m"
proof -
  obtain m1 where r: "fst (snd (read last_seen False [] m)) = m1"
    and m1: "m1 = snd (update_reader_state Register_reader m)"
    and abs1: "abs_channel m1 = (abs_channel m)\<lparr>ch_readers :=
       (get_reader_state m)\<lparr>active_readers := active_readers (get_reader_state m) + 1\<rparr>\<rparr>"
    using read_available [OF assms, of False] by (metis fst_conv snd_conv)
  show "abs_channel (read_and_release last_seen m) = (abs_channel m)\<lparr>ch_readers :=
    (get_reader_state m)\<lparr>data_consumed := data_consumed (get_reader_state m) + 1\<rparr>\<rparr>"
    using r abs1 by (simp add: read_and_release_def release_refines ch_release_def)
  show "wf_message (read_and_release last_seen m) = wf_message m"
    using r m1 by (simp add: read_and_release_def release_active_reader_def update_reader_state_eq
        notify_reader_done_condvar_def wf_message_def)
qed

text \<open>
  Back-pressure ends when the readers have consumed. A writer that waits because one more consumer
  has to read the last message is let through when, during its sleep, a reader takes the message and
  drops its guard; the write then succeeds.
\<close>

theorem blocked_write_resumes:
  assumes m: "quiescent m" "\<not> is_stopped m" "unread m" "active_readers (get_reader_state m) = 0"
      "\<not> writing_in_progress (get_sequence_state m)"
    and one_short: "data_consumed (get_reader_state m) + 1 = get_target_consumed (get_reader_state m)"
    and d: "length d \<le> capacity m" and new: "last_seen \<noteq> current_sequence m"
  shows "fst (write_slice d [] m) = Blocks \<and>
    (\<exists>m'. write_slice d [read_and_release last_seen] m =
       (Returns (Some (next_sequence (current_sequence m))), m', []) \<and> data_ref m' = Inr d)"
proof
  show "fst (write_slice d [] m) = Blocks"
    using m by (simp add: write_slice_def start_write_alone quiescent_def)
  define m2 where "m2 = read_and_release last_seen (waiting_for_readers m)"
  let ?m3 = "m2\<lparr>sequence_and_flags := sequence_and_flags m2 OR WRITING_IN_PROGRESS_MASK\<rparr>"
  note wait = abs_eqD [OF abs_waiting, of m, unfolded abs_channel_sel]
  have abs2: "abs_channel m2 = (abs_channel m)\<lparr>ch_readers := (get_reader_state m)
      \<lparr>data_consumed := data_consumed (get_reader_state m) + 1\<rparr>\<rparr>" and wf2: "wf_message m2"
    using read_and_release_effect [of last_seen "waiting_for_readers m"] m(1,5) new wait
    by (simp_all add: m2_def abs_waiting wf_waiting quiescent_def current_sequence_def)
  note s2 = abs_eqD [OF abs2]
  have abs3: "abs_channel ?m3 = (abs_channel m2)\<lparr>ch_writing := True\<rparr>" by (rule abs_channel_flags)
  have "start_write [read_and_release last_seen] m = (Returns True, ?m3, [])"
    using m one_short s2(4)
    by (intro start_write_one_sleep) (simp_all add: m2_def [symmetric] get_target_consumed_def)
  moreover have "wf_message ?m3" using wf2 by (simp add: wf_message_def)
  moreover have "length d \<le> length (data ?m3)" using d s2(5) by (simp add: capacity_def abs_channel_sel)
  moreover have "current_sequence ?m3 = current_sequence m"
    using abs_eqD(1) [OF abs3] abs2 by (simp add: abs_channel_sel current_sequence_def)
  ultimately show "\<exists>m'. write_slice d [read_and_release last_seen] m =
       (Returns (Some (next_sequence (current_sequence m))), m', []) \<and> data_ref m' = Inr d"
    using write_slice_after_start by metis
qed

lemma sample_message_state:
  "\<not> is_stopped sample_message" "unread sample_message" "capacity sample_message = 8"
  "current_sequence sample_message = 1" "\<not> writing_in_progress (get_sequence_state sample_message)"
  "get_reader_state sample_message =
     \<lparr>target_read = 1, consumers = 1, active_readers = 0, data_consumed = 0\<rparr>"
  using abs_eqD [OF sample_message_facts(2)]
  by (simp_all add: unread_def sample_message_facts(2) ch_unread_def get_target_consumed_def capacity_def)

theorem blocked_write_resumes_witness:
  "fst (write_slice [3] [] sample_message) = Blocks \<and>
   (\<exists>m'. write_slice [3] [read_and_release 0] sample_message =
      (Returns (Some (next_sequence 1)), m', []) \<and> data_ref m' = Inr [3])"
  using blocked_write_resumes [of sample_message "[3]" 0] sample_message_facts(1)
  by (simp add: sample_message_state get_target_consumed_def)


section \<open>Where callers are left waiting\<close>







text \<open>
  \<open>remove_reader\<close> does not wake a waiting writer. When the only consumer a sleeping writer waits for
  is removed, the condition it waits on no longer holds, but the word of \<open>reader_done_condvar\<close>, the
  ticket it sleeps on, is unchanged.
\<close>

theorem remove_reader_leaves_writer_asleep:
  assumes "quiescent m" "\<not> is_stopped m" "unread m" "consumers (get_reader_state m) = 1"
  shows "write_slice d [] m = (Blocks, waiting_for_readers m, []) \<and>
    fst (remove_reader (waiting_for_readers m)) = Returns () \<and>
    \<not> unread (snd (remove_reader (waiting_for_readers m))) \<and>
    reader_done_condvar (snd (remove_reader (waiting_for_readers m))) = reader_done_condvar m"
proof -
  have "write_slice d [] m = (Blocks, waiting_for_readers m, [])"
    using assms by (simp add: write_slice_def start_write_alone quiescent_def waiting_for_readers_def)
  moreover have "get_reader_state (waiting_for_readers m) = get_reader_state m"
    by (simp add: waiting_for_readers_def state_defs)
  moreover have "reader_done_condvar (waiting_for_readers m) = reader_done_condvar m"
    by (simp add: waiting_for_readers_def state_defs)
  ultimately show ?thesis
    using assms(4)
    by (simp add: remove_reader_def reader_registration_def update_reader_state_eq unread_iff
        get_target_consumed_def get_reader_state_def packed_simps)
qed

theorem remove_reader_leaves_writer_asleep_witness:
  "write_slice [3] [] sample_message = (Blocks, waiting_for_readers sample_message, []) \<and>
   \<not> unread (snd (remove_reader (waiting_for_readers sample_message)))"
  using remove_reader_leaves_writer_asleep [of sample_message "[3]"] sample_message_facts(1)
  by (simp add: sample_message_state)

text \<open>
  \<open>publish\<close> on a guard taken before \<open>stop\<close> still publishes: its result is \<open>None\<close> only when the size
  exceeds the capacity, and the stopped flag is kept.
\<close>

theorem publish_ignores_stop:
  "fst (guard_publish sz (stop m)) =
     (if capacity m < unat sz then None else Some (next_sequence (current_sequence m))) \<and>
   is_stopped (snd (guard_publish sz (stop m)))"
proof -
  have state: "get_sequence_state (stop m) = (get_sequence_state m)\<lparr>stopped := True\<rparr>"
    by (simp add: stop_def state_defs packed_simps)
  have "capacity (stop m) = capacity m" by (simp add: capacity_def stop_def state_defs)
  then show ?thesis
    using state by (simp add: guard_publish_def publish_write_eq mutex_unlock_def is_stopped_def
        current_sequence_def get_sequence_state_def SequenceState_from_to_packed)
qed

section \<open>The counter of active readers\<close>

definition take_guard :: "u64 \<Rightarrow> shared_message \<Rightarrow> shared_message" where
  "take_guard last_seen m = fst (snd (read last_seen False [] m))"

lemma take_guard_eq:
  "last_seen \<noteq> current_sequence m \<Longrightarrow> \<not> writing_in_progress (get_sequence_state m) \<Longrightarrow>
     take_guard last_seen m = snd (update_reader_state Register_reader m)"
  by (simp add: take_guard_def read_alone current_sequence_def)

lemma take_guards:
  assumes "last_seen \<noteq> current_sequence m" "\<not> writing_in_progress (get_sequence_state m)"
  shows "abs_channel ((take_guard last_seen ^^ n) m) = (abs_channel m)\<lparr>ch_readers :=
     (get_reader_state m)\<lparr>active_readers := active_readers (get_reader_state m) + of_nat n\<rparr>\<rparr> \<and>
   writer_mutex ((take_guard last_seen ^^ n) m) = writer_mutex m"
proof (induction n)
  case 0
  have "abs_channel m = (abs_channel m)\<lparr>ch_readers := get_reader_state m\<rparr>" by (simp add: abs_channel_def)
  then show ?case by simp
next
  case (Suc n)
  let ?m = "(take_guard last_seen ^^ n) m"
  from Suc have abs: "abs_channel ?m = (abs_channel m)\<lparr>ch_readers :=
     (get_reader_state m)\<lparr>active_readers := active_readers (get_reader_state m) + of_nat n\<rparr>\<rparr>" by simp
  note st = abs_eqD [OF abs]
  have "current_sequence ?m = current_sequence m" using st(1) by (simp add: abs_channel_sel current_sequence_def)
  with assms(1) have new: "last_seen \<noteq> current_sequence ?m" by simp
  have idle: "\<not> writing_in_progress (get_sequence_state ?m)" using st(3) assms(2) by (simp add: abs_channel_sel)
  have r: "take_guard last_seen ?m = snd (update_reader_state Register_reader ?m)"
    by (rule take_guard_eq [OF new idle])
  have "abs_channel (take_guard last_seen ?m) = (abs_channel ?m)\<lparr>ch_readers :=
       (get_reader_state ?m)\<lparr>active_readers := active_readers (get_reader_state ?m) + 1\<rparr>\<rparr>"
    by (simp add: r update_reader_state_eq abs_channel_readers)
  moreover have "writer_mutex (take_guard last_seen ?m) = writer_mutex ?m"
    by (simp add: r update_reader_state_eq)
  moreover have "active_readers (get_reader_state m) + of_nat (Suc n) =
      active_readers (get_reader_state m) + of_nat n + 1" by simp
  ultimately show ?case using abs st(4) Suc by (simp del: of_nat_Suc)
qed

text \<open>
  The count of active readers wraps. With 65536 read guards alive at once the counter is back at
  0, and \<open>start_write\<close> hands out the buffer although every one of the guards still refers to it.
\<close>

theorem active_readers_wrap:
  assumes "quiescent m" "writable [] m" "\<not> writing_in_progress (get_sequence_state m)"
    and "last_seen \<noteq> current_sequence m"
  shows "active_readers (get_reader_state ((take_guard last_seen ^^ 65536) m)) = 0 \<and>
    fst (start_write [] ((take_guard last_seen ^^ 65536) m)) = Returns True"
proof -
  let ?m = "(take_guard last_seen ^^ 65536) m"
  have wrap: "(of_nat 65536 :: u16) = 0" by simp
  note guards = take_guards [OF assms(4,3), of 65536, unfolded wrap]
  have same: "(get_reader_state m)\<lparr>active_readers := active_readers (get_reader_state m) + 0\<rparr> = get_reader_state m"
    by simp
  from guards have abs: "abs_channel ?m = abs_channel m" and mutex: "writer_mutex ?m = writer_mutex m"
    by (simp_all add: same abs_channel_def)
  then show ?thesis
    using assms(1,2) abs_eqD [OF abs]
    by (simp add: start_write_alone writable_def quiescent_def unread_def abs_channel_sel Let_def)
qed

theorem active_readers_wrap_witness:
  "fst (start_write [] ((take_guard 7 ^^ 65536) (fresh_message 4))) = Returns True"
  using active_readers_wrap [of "fresh_message 4" 7]
  by (simp add: fresh_message_quiescent fresh_message_writable current_sequence_def fresh_message_state
      del: funpow.simps)

end
