(* ===== verification/Message_Steps.thy ===== *)
theory Message_Steps
  imports Shared_Message
begin

text \<open>
  The shared message under concurrency: every function of \<open>src/shared_message/mod.rs\<close> and
  \<open>src/shared_message/guard.rs\<close> as a machine that makes one atomic access per step, composed the way the
  code calls them, and the interleaving of the machines of any number of threads.

  The accesses are sequentially consistent: a step sees the effect of every earlier step. The locked
  read-modify-write instructions that the accesses of \<open>start_write\<close> and \<open>read\<close> compile to give this
  order on x86; the \<open>Release\<close> and \<open>Acquire\<close> orderings written in the code alone do not.

  History variables record what the theorems speak about and no step reads them: \<open>published\<close>, the
  sequence number and payload of every message in the order of publication; \<open>abandoned\<close>, whether a
  write was granted and given up since the last publication; \<open>writer_kicks\<close> and \<open>done_kicks\<close>, how often
  the two condition variables were notified.
\<close>

section \<open>Shared state\<close>

record 'k shared =
  msg :: shared_message
  mutex_queue :: 'k
  writer_queue :: 'k
  done_queue :: 'k
  published :: "(u64 \<times> bytes) list"
  abandoned :: bool
  writer_kicks :: nat
  done_kicks :: nat

definition mutex_cell :: "'k shared \<Rightarrow> 'k futex" where
  "mutex_cell s = (writer_mutex (msg s), mutex_queue s)"

definition put_mutex_cell :: "'k futex \<Rightarrow> 'k shared \<Rightarrow> 'k shared" where
  "put_mutex_cell c s = s\<lparr>msg := (msg s)\<lparr>writer_mutex := fst c\<rparr>, mutex_queue := snd c\<rparr>"

definition writer_cell :: "'k shared \<Rightarrow> 'k futex" where
  "writer_cell s = (writer_condvar (msg s), writer_queue s)"

definition put_writer_cell :: "'k futex \<Rightarrow> 'k shared \<Rightarrow> 'k shared" where
  "put_writer_cell c s = s\<lparr>msg := (msg s)\<lparr>writer_condvar := fst c\<rparr>, writer_queue := snd c\<rparr>"

definition done_cell :: "'k shared \<Rightarrow> 'k futex" where
  "done_cell s = (reader_done_condvar (msg s), done_queue s)"

definition put_done_cell :: "'k futex \<Rightarrow> 'k shared \<Rightarrow> 'k shared" where
  "put_done_cell c s = s\<lparr>msg := (msg s)\<lparr>reader_done_condvar := fst c\<rparr>, done_queue := snd c\<rparr>"

definition put_flags :: "u64 \<Rightarrow> 'k shared \<Rightarrow> 'k shared" where
  "put_flags w s = s\<lparr>msg := (msg s)\<lparr>sequence_and_flags := w\<rparr>\<rparr>"

definition put_readers :: "u64 \<Rightarrow> 'k shared \<Rightarrow> 'k shared" where
  "put_readers w s = s\<lparr>msg := (msg s)\<lparr>readers_state := w\<rparr>\<rparr>"

abbreviation seq_state :: "'k shared \<Rightarrow> SequenceState" where
  "seq_state s \<equiv> get_sequence_state (msg s)"

abbreviation rdr_state :: "'k shared \<Rightarrow> ReadersStateCount" where
  "rdr_state s \<equiv> get_reader_state (msg s)"

text \<open>\<open>writer_condvar.notify_all()\<close> and \<open>reader_done_condvar.notify_all()\<close>.\<close>

definition notify_writers_step :: "'k futex_kernel \<Rightarrow> cv_notify_pc \<Rightarrow> 'k shared \<Rightarrow> 'k shared \<times> (cv_notify_pc + unit)" where
  "notify_writers_step K pc s =
     (case condvar_notify_step K WAKE_ALL pc (writer_cell s) of
        (c, r) \<Rightarrow> ((put_writer_cell c s)\<lparr>writer_kicks := writer_kicks s + (if pc = Cv_add then 1 else 0)\<rparr>, r))"

definition notify_done_step :: "'k futex_kernel \<Rightarrow> cv_notify_pc \<Rightarrow> 'k shared \<Rightarrow> 'k shared \<times> (cv_notify_pc + unit)" where
  "notify_done_step K pc s =
     (case condvar_notify_step K WAKE_ALL pc (done_cell s) of
        (c, r) \<Rightarrow> ((put_done_cell c s)\<lparr>done_kicks := done_kicks s + (if pc = Cv_add then 1 else 0)\<rparr>, r))"

section \<open>update\_reader\_state\<close>

datatype urs_pc =
    Urs_load       \<comment> \<open>the first load\<close>
  | Urs_cas u64    \<comment> \<open>the compare-exchange, with the local \<open>packed\<close>\<close>

text \<open>The body of the loop up to the compare-exchange, for the value \<open>packed\<close> just read.\<close>

definition urs_attempt :: "mutator \<Rightarrow> u64 \<Rightarrow> urs_pc + (panic + ReadersStateCount)" where
  "urs_attempt mu packed =
     (case mutate mu (ReadersStateCount_from packed) of
        Inl p \<Rightarrow> Inr (Inl p)
      | Inr policy \<Rightarrow>
          if packed = ReadersStateCount_to_packed policy then Inr (Inr policy) else Inl (Urs_cas packed))"

text \<open>\<open>compare_exchange_weak\<close> may fail although the values agree: the argument \<open>spurious\<close>.\<close>

fun update_step :: "mutator \<Rightarrow> bool \<Rightarrow> urs_pc \<Rightarrow> u64 \<Rightarrow> u64 \<times> (urs_pc + (panic + ReadersStateCount))" where
  "update_step mu spurious Urs_load w = (w, urs_attempt mu w)"
| "update_step mu spurious (Urs_cas packed) w =
     (if w = packed \<and> \<not> spurious
      then (case mutate mu (ReadersStateCount_from packed) of
              Inl p \<Rightarrow> (w, Inr (Inl p))
            | Inr policy \<Rightarrow> (ReadersStateCount_to_packed policy, Inr (Inr policy)))
      else (w, urs_attempt mu w))"

section \<open>start\_write\<close>

datatype sw_pc =
    SW_stopped0                              \<comment> \<open>\<open>if self.is_stopped()\<close>\<close>
  | SW_lock lock_pc                          \<comment> \<open>\<open>self.writer_mutex.lock()\<close>\<close>
  | SW_sequence                              \<comment> \<open>\<open>current_seq\<close>\<close>
  | SW_readers u64                           \<comment> \<open>first load of \<open>reader_state\<close>\<close>
  | SW_ticket1 ReadersStateCount             \<comment> \<open>first \<open>ticket\<close>\<close>
  | SW_stopped1 u32                          \<comment> \<open>first loop: \<open>is_stopped\<close>\<close>
  | SW_kick u32 cv_notify_pc                 \<comment> \<open>first loop: \<open>writer_condvar.notify_all()\<close>\<close>
  | SW_wait1 u32 cv_wait_pc                  \<comment> \<open>first loop: \<open>reader_done_condvar.wait(ticket)\<close>\<close>
  | SW_reticket1                             \<comment> \<open>first loop: next \<open>ticket\<close>\<close>
  | SW_rereaders u32                         \<comment> \<open>first loop: next \<open>reader_state\<close>\<close>
  | SW_mark                                  \<comment> \<open>\<open>fetch_or(WRITING_IN_PROGRESS_MASK)\<close>\<close>
  | SW_ticket2                               \<comment> \<open>second \<open>ticket\<close>\<close>
  | SW_active u32                            \<comment> \<open>condition of the second loop\<close>
  | SW_stopped2 u32                          \<comment> \<open>second loop: \<open>is_stopped\<close>\<close>
  | SW_unmark                                \<comment> \<open>\<open>fetch_and(!WRITING_IN_PROGRESS_MASK)\<close>\<close>
  | SW_wait2 u32 cv_wait_pc                  \<comment> \<open>second loop: \<open>reader_done_condvar.wait(ticket)\<close>\<close>

datatype sw_result =
    SW_refused    \<comment> \<open>\<open>None\<close>, the mutex not taken\<close>
  | SW_cancelled  \<comment> \<open>\<open>None\<close>, the guard still to be dropped\<close>
  | SW_granted    \<comment> \<open>\<open>Some(writer_guard)\<close>\<close>

text \<open>The condition of the first loop, evaluated on the local \<open>reader_state\<close>.\<close>

definition sw_while1 :: "u32 \<Rightarrow> ReadersStateCount \<Rightarrow> sw_pc" where
  "sw_while1 ticket reader_state =
     (if data_consumed reader_state < get_target_consumed reader_state then SW_stopped1 ticket else SW_mark)"

fun start_write_step :: "'k futex_kernel \<Rightarrow> tid \<Rightarrow> sw_pc \<Rightarrow> 'k shared \<Rightarrow> ('k shared \<times> (sw_pc + sw_result)) option" where
  "start_write_step K t SW_stopped0 s =
     Some (s, if stopped (seq_state s) then Inr SW_refused else Inl (SW_lock Lock_fast))"
| "start_write_step K t (SW_lock pc) s =
     (case lock_step K t pc (mutex_cell s) of
        None \<Rightarrow> None
      | Some (c, Inl pc') \<Rightarrow> Some (put_mutex_cell c s, Inl (SW_lock pc'))
      | Some (c, Inr _) \<Rightarrow> Some (put_mutex_cell c s, Inl SW_sequence))"
| "start_write_step K t SW_sequence s = Some (s, Inl (SW_readers (sequence (seq_state s))))"
| "start_write_step K t (SW_readers current_seq) s =
     Some (s, Inl (if get_target_consumed (rdr_state s) > 0 \<and> current_seq > 0
                   then SW_ticket1 (rdr_state s) else SW_mark))"
| "start_write_step K t (SW_ticket1 reader_state) s =
     Some (s, Inl (sw_while1 (condvar_value (done_cell s)) reader_state))"
| "start_write_step K t (SW_stopped1 ticket) s =
     Some (s, if stopped (seq_state s) then Inr SW_cancelled else Inl (SW_kick ticket Cv_add))"
| "start_write_step K t (SW_kick ticket pc) s =
     (case notify_writers_step K pc s of
        (s', Inl pc') \<Rightarrow> Some (s', Inl (SW_kick ticket pc'))
      | (s', Inr _) \<Rightarrow> Some (s', Inl (SW_wait1 ticket (Cv_spin CV_SPINS))))"
| "start_write_step K t (SW_wait1 ticket pc) s =
     (case condvar_wait_step K t ticket pc (done_cell s) of
        None \<Rightarrow> None
      | Some (c, Inl pc') \<Rightarrow> Some (put_done_cell c s, Inl (SW_wait1 ticket pc'))
      | Some (c, Inr _) \<Rightarrow> Some (put_done_cell c s, Inl SW_reticket1))"
| "start_write_step K t SW_reticket1 s = Some (s, Inl (SW_rereaders (condvar_value (done_cell s))))"
| "start_write_step K t (SW_rereaders ticket) s = Some (s, Inl (sw_while1 ticket (rdr_state s)))"
| "start_write_step K t SW_mark s =
     Some (put_flags (sequence_and_flags (msg s) OR WRITING_IN_PROGRESS_MASK) s, Inl SW_ticket2)"
| "start_write_step K t SW_ticket2 s = Some (s, Inl (SW_active (condvar_value (done_cell s))))"
| "start_write_step K t (SW_active ticket) s =
     Some (s, if active_readers (rdr_state s) > 0 then Inl (SW_stopped2 ticket) else Inr SW_granted)"
| "start_write_step K t (SW_stopped2 ticket) s =
     Some (s, Inl (if stopped (seq_state s) then SW_unmark else SW_wait2 ticket (Cv_spin CV_SPINS)))"
| "start_write_step K t SW_unmark s =
     Some (put_flags (sequence_and_flags (msg s) AND NOT WRITING_IN_PROGRESS_MASK) s, Inr SW_cancelled)"
| "start_write_step K t (SW_wait2 ticket pc) s =
     (case condvar_wait_step K t ticket pc (done_cell s) of
        None \<Rightarrow> None
      | Some (c, Inl pc') \<Rightarrow> Some (put_done_cell c s, Inl (SW_wait2 ticket pc'))
      | Some (c, Inr _) \<Rightarrow> Some (put_done_cell c s, Inl SW_ticket2))"

section \<open>publish\_write\<close>

datatype pub_pc =
    P_size                     \<comment> \<open>\<open>data_size.store\<close>\<close>
  | P_reset urs_pc             \<comment> \<open>\<open>data_consumed = 0\<close>\<close>
  | P_load                     \<comment> \<open>load of \<open>sequence_and_flags\<close>\<close>
  | P_cas u64                  \<comment> \<open>the compare-exchange, with the local \<open>old_packed\<close>\<close>
  | P_notify u64 cv_notify_pc  \<comment> \<open>\<open>writer_condvar.notify_all()\<close>\<close>

definition published_packed :: "u64 \<Rightarrow> u64" where
  "published_packed old_packed =
     (let old_state = SequenceState_from old_packed in
      SequenceState_to_packed
        \<lparr>sequence = next_sequence (sequence old_state), stopped = stopped old_state,
         writing_in_progress = False\<rparr>)"

fun publish_step :: "'k futex_kernel \<Rightarrow> bool \<Rightarrow> usize \<Rightarrow> bytes \<Rightarrow> pub_pc \<Rightarrow> 'k shared \<Rightarrow> 'k shared \<times> (pub_pc + u64)" where
  "publish_step K spurious sz payload P_size s =
     (s\<lparr>msg := (msg s)\<lparr>data_size := sz\<rparr>\<rparr>, Inl (P_reset Urs_load))"
| "publish_step K spurious sz payload (P_reset pc) s =
     (case update_step Reset_consumed spurious pc (readers_state (msg s)) of
        (w, Inl pc') \<Rightarrow> (put_readers w s, Inl (P_reset pc'))
      | (w, Inr _) \<Rightarrow> (put_readers w s, Inl P_load))"
| "publish_step K spurious sz payload P_load s = (s, Inl (P_cas (sequence_and_flags (msg s))))"
| "publish_step K spurious sz payload (P_cas old_packed) s =
     (if sequence_and_flags (msg s) = old_packed \<and> \<not> spurious
      then (let new_seq = next_sequence (sequence (SequenceState_from old_packed)) in
            ((put_flags (published_packed old_packed) s)
               \<lparr>published := published s @ [(new_seq, payload)], abandoned := False\<rparr>,
             Inl (P_notify new_seq Cv_add)))
      else (s, Inl (P_cas (sequence_and_flags (msg s)))))"
| "publish_step K spurious sz payload (P_notify new_seq pc) s =
     (case notify_writers_step K pc s of
        (s', Inl pc') \<Rightarrow> (s', Inl (P_notify new_seq pc'))
      | (s', Inr _) \<Rightarrow> (s', Inr new_seq))"

section \<open>read and release\_active\_reader\<close>

datatype read_pc =
    R_ticket                  \<comment> \<open>\<open>writer_condvar.value()\<close>\<close>
  | R_state u32               \<comment> \<open>\<open>get_sequence_state()\<close>\<close>
  | R_wait u32 cv_wait_pc     \<comment> \<open>\<open>writer_condvar.wait(ticket)\<close>\<close>
  | R_register u64 urs_pc     \<comment> \<open>\<open>active_readers += 1\<close>, with \<open>state.sequence\<close>\<close>
  | R_verify u64              \<comment> \<open>\<open>verify_state\<close>\<close>
  | R_unregister urs_pc       \<comment> \<open>\<open>active_readers -= 1\<close>\<close>
  | R_notify cv_notify_pc     \<comment> \<open>\<open>reader_done_condvar.notify_all()\<close>\<close>

fun read_step :: "'k futex_kernel \<Rightarrow> tid \<Rightarrow> bool \<Rightarrow> u64 \<Rightarrow> bool \<Rightarrow> read_pc \<Rightarrow> 'k shared \<Rightarrow> ('k shared \<times> (read_pc + u64 option)) option" where
  "read_step K t spurious last_seen_seq block R_ticket s =
     Some (s, Inl (R_state (condvar_value (writer_cell s))))"
| "read_step K t spurious last_seen_seq block (R_state ticket) s =
     (let state = seq_state s in
      if stopped state \<and> sequence state = last_seen_seq then Some (s, Inr None)
      else if sequence state = last_seen_seq then
        (if \<not> block then Some (s, Inr None) else Some (s, Inl (R_wait ticket (Cv_spin CV_SPINS))))
      else if writing_in_progress state then Some (s, Inl (R_wait ticket (Cv_spin CV_SPINS)))
      else Some (s, Inl (R_register (sequence state) Urs_load)))"
| "read_step K t spurious last_seen_seq block (R_wait ticket pc) s =
     (case condvar_wait_step K t ticket pc (writer_cell s) of
        None \<Rightarrow> None
      | Some (c, Inl pc') \<Rightarrow> Some (put_writer_cell c s, Inl (R_wait ticket pc'))
      | Some (c, Inr _) \<Rightarrow> Some (put_writer_cell c s, Inl R_ticket))"
| "read_step K t spurious last_seen_seq block (R_register seq pc) s =
     (case update_step Register_reader spurious pc (readers_state (msg s)) of
        (w, Inl pc') \<Rightarrow> Some (put_readers w s, Inl (R_register seq pc'))
      | (w, Inr _) \<Rightarrow> Some (put_readers w s, Inl (R_verify seq)))"
| "read_step K t spurious last_seen_seq block (R_verify seq) s =
     (let verify_state = seq_state s in
      if writing_in_progress verify_state \<or> sequence verify_state \<noteq> seq
      then Some (s, Inl (R_unregister Urs_load))
      else Some (s, Inr (Some seq)))"
| "read_step K t spurious last_seen_seq block (R_unregister pc) s =
     (case update_step Unregister_reader spurious pc (readers_state (msg s)) of
        (w, Inl pc') \<Rightarrow> Some (put_readers w s, Inl (R_unregister pc'))
      | (w, Inr _) \<Rightarrow> Some (put_readers w s, Inl (R_notify Cv_add)))"
| "read_step K t spurious last_seen_seq block (R_notify pc) s =
     (case notify_done_step K pc s of
        (s', Inl pc') \<Rightarrow> Some (s', Inl (R_notify pc'))
      | (s', Inr _) \<Rightarrow> Some (s', Inl R_ticket))"

datatype rel_pc = Rel_update urs_pc | Rel_notify cv_notify_pc

fun release_step :: "'k futex_kernel \<Rightarrow> bool \<Rightarrow> rel_pc \<Rightarrow> 'k shared \<Rightarrow> 'k shared \<times> (rel_pc + unit)" where
  "release_step K spurious (Rel_update pc) s =
     (case update_step Release_reader spurious pc (readers_state (msg s)) of
        (w, Inl pc') \<Rightarrow> (put_readers w s, Inl (Rel_update pc'))
      | (w, Inr (Inr reader_state)) \<Rightarrow>
          (put_readers w s, if active_readers reader_state = 0 then Inl (Rel_notify Cv_add) else Inr ())
      | (w, Inr (Inl _)) \<Rightarrow> (put_readers w s, Inr ()))"
| "release_step K spurious (Rel_notify pc) s =
     (case notify_done_step K pc s of
        (s', Inl pc') \<Rightarrow> (s', Inl (Rel_notify pc'))
      | (s', Inr _) \<Rightarrow> (s', Inr ()))"

section \<open>stop and set\_target\_read\_count\<close>

datatype stop_pc = St_or | St_writers cv_notify_pc | St_readers cv_notify_pc

fun stop_step :: "'k futex_kernel \<Rightarrow> stop_pc \<Rightarrow> 'k shared \<Rightarrow> 'k shared \<times> (stop_pc + unit)" where
  "stop_step K St_or s =
     (put_flags (sequence_and_flags (msg s) OR STOPPED_MASK) s, Inl (St_writers Cv_add))"
| "stop_step K (St_writers pc) s =
     (case notify_writers_step K pc s of
        (s', Inl pc') \<Rightarrow> (s', Inl (St_writers pc'))
      | (s', Inr _) \<Rightarrow> (s', Inl (St_readers Cv_add)))"
| "stop_step K (St_readers pc) s =
     (case notify_done_step K pc s of
        (s', Inl pc') \<Rightarrow> (s', Inl (St_readers pc'))
      | (s', Inr _) \<Rightarrow> (s', Inr ()))"

datatype target_pc = T_lock lock_pc | T_update urs_pc

text \<open>\<open>Inr ()\<close>: the target is set and the guard is about to be dropped.\<close>

fun set_target_step :: "'k futex_kernel \<Rightarrow> tid \<Rightarrow> bool \<Rightarrow> u16 \<Rightarrow> target_pc \<Rightarrow> 'k shared \<Rightarrow> ('k shared \<times> (target_pc + unit)) option" where
  "set_target_step K t spurious count (T_lock pc) s =
     (case lock_step K t pc (mutex_cell s) of
        None \<Rightarrow> None
      | Some (c, Inl pc') \<Rightarrow> Some (put_mutex_cell c s, Inl (T_lock pc'))
      | Some (c, Inr _) \<Rightarrow> Some (put_mutex_cell c s, Inl (T_update Urs_load)))"
| "set_target_step K t spurious count (T_update pc) s =
     (case update_step (Set_target count) spurious pc (readers_state (msg s)) of
        (w, Inl pc') \<Rightarrow> Some (put_readers w s, Inl (T_update pc'))
      | (w, Inr _) \<Rightarrow> Some (put_readers w s, Inr ()))"

section \<open>Threads\<close>

datatype write_call = By_slice bytes | By_guard

datatype ret =
    Ret_unit
  | Ret_sequence "u64 option"
  | Ret_no_guard
  | Ret_panic panic

datatype pc =
    Ready ret                            \<comment> \<open>outside, with the result of the last call\<close>
  | Starting write_call sw_pc            \<comment> \<open>in \<open>start_write\<close>, called by \<open>write_slice\<close> or \<open>write\<close>\<close>
  | Copying bytes nat                    \<comment> \<open>in the \<open>copy_nonoverlapping\<close> of \<open>write_slice\<close>\<close>
  | Write_guard                          \<comment> \<open>owns a \<open>MessageWriteGuard\<close>\<close>
  | Publishing usize bytes pub_pc        \<comment> \<open>in \<open>publish_write\<close>\<close>
  | Unlocking ret unlock_pc              \<comment> \<open>dropping the \<open>PayloadWriteGuard\<close>\<close>
  | Reading u64 bool read_pc             \<comment> \<open>in \<open>read\<close>\<close>
  | Read_guard u64                       \<comment> \<open>owns a \<open>MessageReadGuard\<close>\<close>
  | Releasing rel_pc                     \<comment> \<open>dropping the \<open>MessageReadGuard\<close>\<close>
  | Stopping stop_pc                     \<comment> \<open>in \<open>stop\<close>\<close>
  | Setting_target u16 target_pc         \<comment> \<open>in \<open>set_target_read_count\<close>\<close>
  | Registering mutator urs_pc           \<comment> \<open>in \<open>add_reader\<close> or \<open>remove_reader\<close>\<close>

text \<open>
  The next access of a thread; \<open>None\<close> when it is asleep or when what happens next is up to its client.
  The copy of \<open>write_slice\<close> is one byte per step.
\<close>

fun thread_step :: "'k futex_kernel \<Rightarrow> tid \<Rightarrow> bool \<Rightarrow> pc \<Rightarrow> 'k shared \<Rightarrow> ('k shared \<times> pc) option" where
  "thread_step K t spurious (Starting call pc) s =
     (case start_write_step K t pc s of
        None \<Rightarrow> None
      | Some (s', Inl pc') \<Rightarrow> Some (s', Starting call pc')
      | Some (s', Inr SW_refused) \<Rightarrow> Some (s', Ready (Ret_sequence None))
      | Some (s', Inr SW_cancelled) \<Rightarrow> Some (s', Unlocking (Ret_sequence None) Unlock_swap)
      | Some (s', Inr SW_granted) \<Rightarrow>
          (case call of
             By_guard \<Rightarrow> Some (s', Write_guard)
           | By_slice new_data \<Rightarrow>
               if length new_data > length (data (msg s'))
               then Some (s'\<lparr>abandoned := True\<rparr>,
                          Unlocking (Ret_panic (Capacity_exceeded (length new_data) (length (data (msg s')))))
                            Unlock_swap)
               else Some (s', Copying new_data 0)))"
| "thread_step K t spurious (Copying new_data i) s =
     (if i < length new_data
      then Some (s\<lparr>msg := (msg s)\<lparr>data := (data (msg s))[i := new_data ! i]\<rparr>\<rparr>, Copying new_data (Suc i))
      else Some (s, Publishing (of_nat (length new_data)) new_data P_size))"
| "thread_step K t spurious (Publishing sz payload pc) s =
     (case publish_step K spurious sz payload pc s of
        (s', Inl pc') \<Rightarrow> Some (s', Publishing sz payload pc')
      | (s', Inr new_seq) \<Rightarrow> Some (s', Unlocking (Ret_sequence (Some new_seq)) Unlock_swap))"
| "thread_step K t spurious (Unlocking r pc) s =
     (case unlock_step K pc (mutex_cell s) of
        (c, Inl pc') \<Rightarrow> Some (put_mutex_cell c s, Unlocking r pc')
      | (c, Inr _) \<Rightarrow> Some (put_mutex_cell c s, Ready r))"
| "thread_step K t spurious (Reading last_seen block pc) s =
     (case read_step K t spurious last_seen block pc s of
        None \<Rightarrow> None
      | Some (s', Inl pc') \<Rightarrow> Some (s', Reading last_seen block pc')
      | Some (s', Inr None) \<Rightarrow> Some (s', Ready Ret_no_guard)
      | Some (s', Inr (Some seq)) \<Rightarrow> Some (s', Read_guard seq))"
| "thread_step K t spurious (Releasing pc) s =
     (case release_step K spurious pc s of
        (s', Inl pc') \<Rightarrow> Some (s', Releasing pc')
      | (s', Inr _) \<Rightarrow> Some (s', Ready Ret_unit))"
| "thread_step K t spurious (Stopping pc) s =
     (case stop_step K pc s of
        (s', Inl pc') \<Rightarrow> Some (s', Stopping pc')
      | (s', Inr _) \<Rightarrow> Some (s', Ready Ret_unit))"
| "thread_step K t spurious (Setting_target count pc) s =
     (case set_target_step K t spurious count pc s of
        None \<Rightarrow> None
      | Some (s', Inl pc') \<Rightarrow> Some (s', Setting_target count pc')
      | Some (s', Inr _) \<Rightarrow> Some (s', Unlocking Ret_unit Unlock_swap))"
| "thread_step K t spurious (Registering mu pc) s =
     (case update_step mu spurious pc (readers_state (msg s)) of
        (w, Inl pc') \<Rightarrow> Some (put_readers w s, Registering mu pc')
      | (w, Inr (Inl p)) \<Rightarrow> Some (put_readers w s, Ready (Ret_panic p))
      | (w, Inr (Inr _)) \<Rightarrow> Some (put_readers w s, Ready Ret_unit))"
| "thread_step K t spurious _ s = None"

section \<open>Clients and interleaving\<close>

datatype operation =
    Op_write_slice bytes
  | Op_write
  | Op_read u64 bool
  | Op_stop
  | Op_set_target u16
  | Op_add_reader
  | Op_remove_reader

fun entry :: "operation \<Rightarrow> pc" where
  "entry (Op_write_slice d) = Starting (By_slice d) SW_stopped0"
| "entry Op_write = Starting By_guard SW_stopped0"
| "entry (Op_read last_seen block) = Reading last_seen block R_ticket"
| "entry Op_stop = Stopping St_or"
| "entry (Op_set_target count) = Setting_target count (T_lock Lock_fast)"
| "entry Op_add_reader = Registering Add_reader Urs_load"
| "entry Op_remove_reader = Registering Remove_reader Urs_load"

text \<open>What the owner of a guard may do with it.\<close>

datatype guard_action =
    Store nat u8          \<comment> \<open>a store through \<open>data_mut\<close>\<close>
  | Publish usize         \<comment> \<open>\<open>MessageWriteGuard::publish\<close>\<close>
  | Drop_write_guard
  | Drop_read_guard

fun guard_step :: "guard_action \<Rightarrow> pc \<Rightarrow> 'k shared \<Rightarrow> ('k shared \<times> pc) option" where
  "guard_step (Store i v) Write_guard s =
     (if i < length (data (msg s))
      then Some (s\<lparr>msg := (msg s)\<lparr>data := (data (msg s))[i := v]\<rparr>\<rparr>, Write_guard) else None)"
| "guard_step (Publish sz) Write_guard s =
     (if unat sz > capacity (msg s)
      then Some (s\<lparr>abandoned := True\<rparr>, Unlocking (Ret_sequence None) Unlock_swap)
      else Some (s, Publishing sz (take (unat sz) (data (msg s))) P_size))"
| "guard_step Drop_write_guard Write_guard s =
     Some (s\<lparr>abandoned := True\<rparr>, Unlocking Ret_unit Unlock_swap)"
| "guard_step Drop_read_guard (Read_guard seq) s = Some (s, Releasing (Rel_update Urs_load))"
| "guard_step _ _ s = None"

record 'k world =
  mem :: "'k shared"
  pcs :: "tid \<Rightarrow> pc"

definition put :: "tid \<Rightarrow> 'k shared \<times> pc \<Rightarrow> 'k world \<Rightarrow> 'k world" where
  "put t r w = w\<lparr>mem := fst r, pcs := (pcs w)(t := snd r)\<rparr>"

inductive world_step :: "'k futex_kernel \<Rightarrow> nat \<Rightarrow> 'k world \<Rightarrow> 'k world \<Rightarrow> bool" for K N where
  call_op: "t < N \<Longrightarrow> pcs w t = Ready r \<Longrightarrow> world_step K N w (put t (mem w, entry op) w)"
| access: "t < N \<Longrightarrow> thread_step K t spurious (pcs w t) (mem w) = Some r \<Longrightarrow>
     world_step K N w (put t r w)"
| use_guard: "t < N \<Longrightarrow> guard_step a (pcs w t) (mem w) = Some r \<Longrightarrow> world_step K N w (put t r w)"
| interrupt_mutex: "world_step K N w
     (w\<lparr>mem := (mem w)\<lparr>mutex_queue := kernel_interrupt K t (mutex_queue (mem w))\<rparr>\<rparr>)"
| interrupt_writer: "world_step K N w
     (w\<lparr>mem := (mem w)\<lparr>writer_queue := kernel_interrupt K t (writer_queue (mem w))\<rparr>\<rparr>)"
| interrupt_done: "world_step K N w
     (w\<lparr>mem := (mem w)\<lparr>done_queue := kernel_interrupt K t (done_queue (mem w))\<rparr>\<rparr>)"

text \<open>A freshly mapped, zero-filled message and threads that have not called anything.\<close>

definition world_initial :: "'k futex_kernel \<Rightarrow> 'k world \<Rightarrow> bool" where
  "world_initial K w \<longleftrightarrow>
     sequence_and_flags (msg (mem w)) = 0 \<and> data_size (msg (mem w)) = 0 \<and>
     readers_state (msg (mem w)) = 0 \<and> writer_mutex (msg (mem w)) = 0 \<and>
     writer_condvar (msg (mem w)) = 0 \<and> reader_done_condvar (msg (mem w)) = 0 \<and>
     length (data (msg (mem w))) < 2 ^ 64 \<and>
     kernel_asleep K (mutex_queue (mem w)) = {} \<and> kernel_asleep K (writer_queue (mem w)) = {} \<and>
     kernel_asleep K (done_queue (mem w)) = {} \<and>
     published (mem w) = [] \<and> \<not> abandoned (mem w) \<and> writer_kicks (mem w) = 0 \<and> done_kicks (mem w) = 0 \<and>
     pcs w = (\<lambda>_. Ready Ret_unit)"

inductive world_reach :: "'k futex_kernel \<Rightarrow> nat \<Rightarrow> 'k world \<Rightarrow> bool" for K N where
  world_reach_initial: "world_initial K w \<Longrightarrow> world_reach K N w"
| world_reach_step: "world_reach K N w \<Longrightarrow> world_step K N w w' \<Longrightarrow> world_reach K N w'"

interpretation wd: reachability "world_initial K" "world_step K N" "world_reach K N"
  for K :: "'k futex_kernel" and N
proof
  show "world_reach K N s" if "world_initial K s" for s
    using that by (rule world_reach_initial)
  show "world_reach K N s'" if "world_reach K N s" "world_step K N s s'" for s s'
    using that by (rule world_reach_step)
  show "P s" if "world_reach K N s" "\<And>s. world_initial K s \<Longrightarrow> P s"
      "\<And>s s'. world_reach K N s \<Longrightarrow> P s \<Longrightarrow> world_step K N s s' \<Longrightarrow> P s'" for s P
    using that(1) by (induction rule: world_reach.induct) (blast intro: that(2,3))+
qed

end
