(* ===== verification/Message_Safety.thy ===== *)
theory Message_Safety
  imports Message_Steps Message_Spec
begin

text \<open>
  Safety of the shared message under concurrency. The threads' use of the writer mutex is an instance
  of the lock system (a simulation), so at most one thread is past \<open>lock\<close>; the counter of active
  readers counts the threads that registered; and from these follow that no thread writes the buffer
  while another holds a read guard, and that what a read guard shows is the message published under
  its sequence number.
\<close>

section \<open>Observations of the shared state\<close>

lemma cells_put [machine_simps, simp]:
  "mutex_cell (put_mutex_cell c s) = c" "mutex_cell (put_writer_cell c s) = mutex_cell s"
  "mutex_cell (put_done_cell c s) = mutex_cell s" "mutex_cell (put_flags f s) = mutex_cell s"
  "mutex_cell (put_readers f s) = mutex_cell s"
  "mutex_cell (s\<lparr>published := l\<rparr>) = mutex_cell s" "mutex_cell (s\<lparr>abandoned := a\<rparr>) = mutex_cell s"
  "mutex_cell (s\<lparr>msg := (msg s)\<lparr>data := d\<rparr>\<rparr>) = mutex_cell s"
  "mutex_cell (s\<lparr>msg := (msg s)\<lparr>data_size := sz\<rparr>\<rparr>) = mutex_cell s"
  by (simp_all add: mutex_cell_def put_mutex_cell_def put_writer_cell_def put_done_cell_def put_flags_def
      put_readers_def)

lemma flags_put [machine_simps, simp]:
  "sequence_and_flags (msg (put_mutex_cell c s)) = sequence_and_flags (msg s)"
  "sequence_and_flags (msg (put_writer_cell c s)) = sequence_and_flags (msg s)"
  "sequence_and_flags (msg (put_done_cell c s)) = sequence_and_flags (msg s)"
  "sequence_and_flags (msg (put_flags f s)) = f"
  "sequence_and_flags (msg (put_readers r s)) = sequence_and_flags (msg s)"
  by (simp_all add: put_mutex_cell_def put_writer_cell_def put_done_cell_def put_flags_def put_readers_def)

lemma readers_put [machine_simps, simp]:
  "readers_state (msg (put_mutex_cell c s)) = readers_state (msg s)"
  "readers_state (msg (put_writer_cell c s)) = readers_state (msg s)"
  "readers_state (msg (put_done_cell c s)) = readers_state (msg s)"
  "readers_state (msg (put_flags f s)) = readers_state (msg s)"
  "readers_state (msg (put_readers r s)) = r"
  by (simp_all add: put_mutex_cell_def put_writer_cell_def put_done_cell_def put_flags_def put_readers_def)

lemma buffer_put [machine_simps, simp]:
  "data (msg (put_mutex_cell c s)) = data (msg s)" "data (msg (put_writer_cell c s)) = data (msg s)"
  "data (msg (put_done_cell c s)) = data (msg s)" "data (msg (put_flags f s)) = data (msg s)"
  "data (msg (put_readers r s)) = data (msg s)"
  "data_size (msg (put_mutex_cell c s)) = data_size (msg s)"
  "data_size (msg (put_writer_cell c s)) = data_size (msg s)"
  "data_size (msg (put_done_cell c s)) = data_size (msg s)"
  "data_size (msg (put_flags f s)) = data_size (msg s)"
  "data_size (msg (put_readers r s)) = data_size (msg s)"
  by (simp_all add: put_mutex_cell_def put_writer_cell_def put_done_cell_def put_flags_def put_readers_def)

lemma history_put [machine_simps, simp]:
  "published (put_mutex_cell c s) = published s" "published (put_writer_cell c s) = published s"
  "published (put_done_cell c s) = published s" "published (put_flags f s) = published s"
  "published (put_readers r s) = published s"
  "abandoned (put_mutex_cell c s) = abandoned s" "abandoned (put_writer_cell c s) = abandoned s"
  "abandoned (put_done_cell c s) = abandoned s" "abandoned (put_flags f s) = abandoned s"
  "abandoned (put_readers r s) = abandoned s"
  by (simp_all add: put_mutex_cell_def put_writer_cell_def put_done_cell_def put_flags_def put_readers_def)

lemma writer_kicks_frame [machine_simps, simp]:
  "mutex_cell (s\<lparr>writer_kicks := n\<rparr>) = mutex_cell s" "mutex_cell (s\<lparr>done_kicks := n\<rparr>) = mutex_cell s"
  by (simp_all add: mutex_cell_def)

text \<open>A notification touches nothing but its condition variable.\<close>

definition same_but_condvars :: "'k shared \<Rightarrow> 'k shared \<Rightarrow> bool" where
  "same_but_condvars s s' \<longleftrightarrow>
     mutex_cell s' = mutex_cell s \<and> sequence_and_flags (msg s') = sequence_and_flags (msg s) \<and>
     readers_state (msg s') = readers_state (msg s) \<and> data (msg s') = data (msg s) \<and>
     data_size (msg s') = data_size (msg s) \<and> published s' = published s \<and> abandoned s' = abandoned s"

lemma notify_frame:
  "notify_writers_step K pc s = (s', r) \<Longrightarrow> same_but_condvars s s'"
  "notify_done_step K pc s = (s', r) \<Longrightarrow> same_but_condvars s s'"
  by (auto simp: notify_writers_step_def notify_done_step_def same_but_condvars_def split: prod.splits)

lemma same_but_condvarsD:
  assumes "same_but_condvars s s'"
  shows "mutex_cell s' = mutex_cell s" "sequence_and_flags (msg s') = sequence_and_flags (msg s)"
    "readers_state (msg s') = readers_state (msg s)" "data (msg s') = data (msg s)"
    "data_size (msg s') = data_size (msg s)" "published s' = published s" "abandoned s' = abandoned s"
    "seq_state s' = seq_state s" "rdr_state s' = rdr_state s"
  using assms by (auto simp: same_but_condvars_def get_sequence_state_def get_reader_state_def)

lemmas step_splits = option.splits prod.splits sum.splits if_splits sw_result.splits write_call.splits

section \<open>The mutex inside the message\<close>

text \<open>What a thread's program counter says about its use of the writer mutex.\<close>

fun sw_mutex_view :: "sw_pc \<Rightarrow> mutex_client" where
  "sw_mutex_view SW_stopped0 = Out"
| "sw_mutex_view (SW_lock pc) = Acquiring pc"
| "sw_mutex_view _ = Holding"

fun mutex_view :: "pc \<Rightarrow> mutex_client" where
  "mutex_view (Starting call pc) = sw_mutex_view pc"
| "mutex_view (Copying d i) = Holding"
| "mutex_view Write_guard = Holding"
| "mutex_view (Publishing sz p pc) = Holding"
| "mutex_view (Unlocking r pc) = Dropping pc"
| "mutex_view (Setting_target c (T_lock pc)) = Acquiring pc"
| "mutex_view (Setting_target c (T_update pc)) = Holding"
| "mutex_view _ = Out"

text \<open>One step of the lock system made by thread \<open>t\<close>, or none.\<close>

definition mutex_move :: "'k futex_kernel \<Rightarrow> tid \<Rightarrow> 'k futex \<Rightarrow> mutex_client \<Rightarrow> 'k futex \<Rightarrow> mutex_client \<Rightarrow> bool" where
  "mutex_move K t c v c' v' \<longleftrightarrow>
     v' = v \<and> c' = c \<or>
     v = Out \<and> v' = Acquiring Lock_fast \<and> c' = c \<or>
     (\<exists>pc. v = Acquiring pc \<and>
        ((\<exists>pc'. lock_step K t pc c = Some (c', Inl pc') \<and> v' = Acquiring pc') \<or>
         lock_step K t pc c = Some (c', Inr ()) \<and> v' = Holding)) \<or>
     v = Holding \<and> v' = Dropping Unlock_swap \<and> c' = c \<or>
     (\<exists>pc. v = Dropping pc \<and>
        ((\<exists>pc'. unlock_step K pc c = (c', Inl pc') \<and> v' = Dropping pc') \<or>
         unlock_step K pc c = (c', Inr ()) \<and> v' = Out))"

lemma mutex_move_start_write:
  assumes "start_write_step K t pc s = Some (s', r)"
  shows "mutex_move K t (mutex_cell s) (sw_mutex_view pc) (mutex_cell s')
    (case r of Inl pc' \<Rightarrow> sw_mutex_view pc' | Inr SW_refused \<Rightarrow> Out | Inr _ \<Rightarrow> Holding)"
  using assms
  by (cases pc) (auto simp: mutex_move_def sw_while1_def same_but_condvars_def
      split: step_splits dest!: notify_frame)

lemma publish_step_mutex:
  "publish_step K b sz p pc s = (s', r) \<Longrightarrow> mutex_cell s' = mutex_cell s"
  by (cases pc) (auto simp: Let_def same_but_condvars_def split: step_splits dest!: notify_frame)

lemma read_step_mutex:
  "read_step K t b last_seen block pc s = Some (s', r) \<Longrightarrow> mutex_cell s' = mutex_cell s"
  by (cases pc) (auto simp: Let_def same_but_condvars_def split: step_splits dest!: notify_frame)

lemma release_step_mutex: "release_step K b pc s = (s', r) \<Longrightarrow> mutex_cell s' = mutex_cell s"
  by (cases pc) (auto simp: same_but_condvars_def split: step_splits dest!: notify_frame)

lemma stop_step_mutex: "stop_step K pc s = (s', r) \<Longrightarrow> mutex_cell s' = mutex_cell s"
  by (cases pc) (auto simp: same_but_condvars_def split: step_splits dest!: notify_frame)

lemma mutex_move_set_target:
  assumes "set_target_step K t b count pc s = Some (s', r)"
  shows "mutex_move K t (mutex_cell s) (mutex_view (Setting_target count pc)) (mutex_cell s')
    (case r of Inl pc' \<Rightarrow> mutex_view (Setting_target count pc') | Inr _ \<Rightarrow> Holding)"
  using assms by (cases pc) (auto simp: mutex_move_def split: step_splits)

lemma mutex_move_stay [simp]: "mutex_move K t c v c v"
  by (simp add: mutex_move_def)

lemma mutex_move_drop [simp]: "mutex_move K t c Holding c (Dropping Unlock_swap)"
  by (simp add: mutex_move_def)

lemma mutex_move_drop_later:
  "mutex_move K t c v c' Holding \<Longrightarrow> v = Holding \<Longrightarrow> c' = c"
  by (auto simp: mutex_move_def)

lemma start_write_cancelled_holding:
  "start_write_step K t pc s = Some (s', Inr r) \<Longrightarrow> r \<noteq> SW_refused \<Longrightarrow>
     sw_mutex_view pc = Holding \<and> mutex_cell s' = mutex_cell s"
  by (cases pc) (auto split: step_splits)

lemma set_target_done_holding:
  "set_target_step K t b count pc s = Some (s', Inr r) \<Longrightarrow>
     mutex_view (Setting_target count pc) = Holding \<and> mutex_cell s' = mutex_cell s"
  by (cases pc) (auto split: step_splits)

lemma mutex_move_thread_starting:
  assumes "thread_step K t b (Starting call sw) s = Some (s', pc')"
  shows "mutex_move K t (mutex_cell s) (sw_mutex_view sw) (mutex_cell s') (mutex_view pc')"
proof -
  obtain s1 r where r: "start_write_step K t sw s = Some (s1, r)"
    using assms by (auto split: option.splits)
  note move = mutex_move_start_write [OF r]
  show ?thesis
  proof (cases r)
    case (Inl sw')
    with assms r move show ?thesis by auto
  next
    case (Inr res)
    with start_write_cancelled_holding [of K t sw s s1 res] r
    have "res \<noteq> SW_refused \<Longrightarrow> sw_mutex_view sw = Holding \<and> mutex_cell s1 = mutex_cell s" by simp
    with assms r move Inr show ?thesis
      by (cases res) (auto split: write_call.splits if_splits)
  qed
qed

lemma mutex_move_thread_target:
  assumes "thread_step K t b (Setting_target count tp) s = Some (s', pc')"
  shows "mutex_move K t (mutex_cell s) (mutex_view (Setting_target count tp)) (mutex_cell s') (mutex_view pc')"
proof -
  obtain s1 r where r: "set_target_step K t b count tp s = Some (s1, r)"
    using assms by (auto split: option.splits)
  show ?thesis
  proof (cases r)
    case (Inl tp')
    with assms r mutex_move_set_target [OF r] show ?thesis by auto
  next
    case (Inr u)
    with set_target_done_holding [OF r [unfolded Inr]] assms r show ?thesis by auto
  qed
qed

lemma mutex_move_thread:
  assumes "thread_step K t b pc s = Some (s', pc')"
  shows "mutex_move K t (mutex_cell s) (mutex_view pc) (mutex_cell s') (mutex_view pc')"
proof (cases pc)
  case (Starting call sw)
  with assms mutex_move_thread_starting show ?thesis by fastforce
next
  case (Unlocking r u)
  with assms show ?thesis by (auto simp: mutex_move_def split: step_splits)
next
  case (Setting_target count tp)
  with assms mutex_move_thread_target show ?thesis by fastforce
qed (use assms in \<open>auto split: step_splits
      dest: publish_step_mutex read_step_mutex release_step_mutex stop_step_mutex\<close>)

lemma mutex_move_guard:
  assumes "guard_step a pc s = Some (s', pc')"
  shows "mutex_move K t (mutex_cell s) (mutex_view pc) (mutex_cell s') (mutex_view pc')"
  using assms by (cases a; cases pc) (auto split: if_splits)

lemma mutex_move_entry: "mutex_move K t c Out c (mutex_view (entry op))"
  by (cases op) (simp_all add: mutex_move_def)

text \<open>The lock system inside a world.\<close>

definition lock_view :: "'k world \<Rightarrow> 'k lock_sys" where
  "lock_view w = \<lparr>cell = mutex_cell (mem w), clients = (\<lambda>t. mutex_view (pcs w t))\<rparr>"

lemma lock_view_put:
  "lock_view (put t r w) =
     (lock_view w)\<lparr>cell := mutex_cell (fst r), clients := (clients (lock_view w))(t := mutex_view (snd r))\<rparr>"
  by (auto simp: lock_view_def put_def)

lemma mutex_move_lock_step:
  assumes "mutex_move K t (mutex_cell (mem w)) (mutex_view (pcs w t)) (mutex_cell (fst r)) (mutex_view (snd r))"
  shows "lock_view (put t r w) = lock_view w \<or> lock_sys_step K (lock_view w) (lock_view (put t r w))"
proof -
  let ?s = "lock_view w"
  have cell: "cell ?s = mutex_cell (mem w)" and view: "clients ?s t = mutex_view (pcs w t)"
    by (simp_all add: lock_view_def)
  have stay: "?s\<lparr>cell := cell ?s, clients := (clients ?s)(t := clients ?s t)\<rparr> = ?s" by simp
  have keep: "?s\<lparr>cell := cell ?s, clients := f\<rparr> = ?s\<lparr>clients := f\<rparr>" for f by simp
  show ?thesis
    using assms unfolding mutex_move_def lock_view_put cell [symmetric] view [symmetric]
    by (elim disjE exE conjE)
      (auto simp: stay keep intro: locking locked unlocking unlocked call_lock drop_guard)
qed

lemma lock_view_step:
  assumes "world_step K N w w'"
  shows "lock_view w' = lock_view w \<or> lock_sys_step K (lock_view w) (lock_view w')"
  using assms
proof cases
  case (call_op t r op)
  then show ?thesis
    using mutex_move_entry [of K t "mutex_cell (mem w)" op] by (auto intro!: mutex_move_lock_step)
next
  case (access t spurious r)
  then show ?thesis
    using mutex_move_thread [of K t spurious "pcs w t" "mem w" "fst r" "snd r"]
    by (auto intro!: mutex_move_lock_step)
next
  case (use_guard t a r)
  then show ?thesis
    using mutex_move_guard [of a "pcs w t" "mem w" "fst r" "snd r" K t]
    by (auto intro!: mutex_move_lock_step)
next
  case (interrupt_mutex t)
  then have "lock_view w' = (lock_view w)\<lparr>cell :=
      (fst (cell (lock_view w)), kernel_interrupt K t (snd (cell (lock_view w))))\<rparr>"
    by (simp add: lock_view_def mutex_cell_def)
  then show ?thesis by (auto intro: interrupt)
qed (simp_all add: lock_view_def mutex_cell_def)

interpretation wl: simulation "world_initial K" "world_step K N" "world_reach K N"
    "lock_sys_initial K" "lock_sys_step K" "lock_reach K" lock_view
  for K :: "'k futex_kernel" and N
proof unfold_locales
  show "lock_sys_initial K (lock_view w)" if "world_initial K w" for w
    using that by (simp add: world_initial_def lock_sys_initial_def lock_view_def mutex_cell_def UNLOCKED_def)
  show "lock_view w' = lock_view w \<or> lock_sys_step K (lock_view w) (lock_view w')"
    if "world_reach K N w" "world_step K N w w'" for w w'
    using that(2) by (rule lock_view_step)
qed

text \<open>The thread that owns the writer mutex, from the end of \<open>lock\<close> to the swap of \<open>unlock\<close>.\<close>

definition owns_mutex :: "pc \<Rightarrow> bool" where
  "owns_mutex pc = holds_lock (mutex_view pc)"

lemma owner_unique:
  assumes "world_reach K N w" "owns_mutex (pcs w t)" "owns_mutex (pcs w u)"
  shows "t = u"
proof -
  have "mutex_inv (lock_view w)" using wl.sim_reach [OF assms(1)] by (rule mutex_inv_reach)
  with assms(2,3) show ?thesis by (auto simp: mutex_inv_def lock_view_def owns_mutex_def)
qed

section \<open>Invariants of the interleaving\<close>

text \<open>A move of thread \<open>t\<close>: it calls an operation, makes an access, or uses its guard.\<close>

definition thread_move :: "'k futex_kernel \<Rightarrow> tid \<Rightarrow> pc \<Rightarrow> 'k shared \<Rightarrow> 'k shared \<Rightarrow> pc \<Rightarrow> bool" where
  "thread_move K t pc s s' pc' \<longleftrightarrow>
     (\<exists>r op. pc = Ready r \<and> s' = s \<and> pc' = entry op) \<or>
     (\<exists>b. thread_step K t b pc s = Some (s', pc')) \<or>
     (\<exists>a. guard_step a pc s = Some (s', pc'))"

lemma thread_moveE:
  assumes "thread_move K t pc s s' pc'"
  obtains (Call) r op where "pc = Ready r" "s' = s" "pc' = entry op"
  | (Access) b where "thread_step K t b pc s = Some (s', pc')"
  | (Guard) a where "guard_step a pc s = Some (s', pc')"
  using assms by (auto simp: thread_move_def)

text \<open>Two worlds that differ at most in the queues of the kernel.\<close>

definition same_but_queues :: "'k world \<Rightarrow> 'k world \<Rightarrow> bool" where
  "same_but_queues w w' \<longleftrightarrow>
     msg (mem w') = msg (mem w) \<and> published (mem w') = published (mem w) \<and>
     abandoned (mem w') = abandoned (mem w) \<and> writer_kicks (mem w') = writer_kicks (mem w) \<and>
     done_kicks (mem w') = done_kicks (mem w) \<and> pcs w' = pcs w"

definition queue_interrupt :: "'k futex_kernel \<Rightarrow> 'k world \<Rightarrow> 'k world \<Rightarrow> bool" where
  "queue_interrupt K w w' \<longleftrightarrow>
     (\<exists>t. w' = w\<lparr>mem := (mem w)\<lparr>mutex_queue := kernel_interrupt K t (mutex_queue (mem w))\<rparr>\<rparr> \<or>
          w' = w\<lparr>mem := (mem w)\<lparr>writer_queue := kernel_interrupt K t (writer_queue (mem w))\<rparr>\<rparr> \<or>
          w' = w\<lparr>mem := (mem w)\<lparr>done_queue := kernel_interrupt K t (done_queue (mem w))\<rparr>\<rparr>)"

lemma queue_interrupt_same: "queue_interrupt K w w' \<Longrightarrow> same_but_queues w w'"
  by (auto simp: queue_interrupt_def same_but_queues_def)

lemma world_step_cases:
  assumes "world_step K N w w'"
  obtains (Move) t s' pc' where "t < N" "thread_move K t (pcs w t) (mem w) s' pc'" "w' = put t (s', pc') w"
  | (Interrupt) "queue_interrupt K w w'"
  using assms
proof cases
  case (access t spurious r)
  then show ?thesis using Move [of t "fst r" "snd r"] by (auto simp: thread_move_def)
next
  case (use_guard t a r)
  then show ?thesis using Move [of t "fst r" "snd r"] by (auto simp: thread_move_def)
next
  case (call_op t r op)
  then show ?thesis using Move [of t "mem w" "entry op"] by (auto simp: thread_move_def)
qed (use Interrupt in \<open>auto simp: queue_interrupt_def\<close>)

lemma world_invariant:
  assumes "world_reach K N w"
    and "\<And>w. world_initial K w \<Longrightarrow> I w"
    and move: "\<And>w t s' pc'. world_reach K N w \<Longrightarrow> I w \<Longrightarrow> t < N \<Longrightarrow>
          thread_move K t (pcs w t) (mem w) s' pc' \<Longrightarrow> I (put t (s', pc') w)"
    and frame: "\<And>w w'. I w \<Longrightarrow> same_but_queues w w' \<Longrightarrow> I w'"
  shows "I w"
  using assms(1)
proof (rule wd.reach_rule)
  show "I w" if "world_initial K w" for w using that by (rule assms(2))
  show "I w'" if "world_reach K N w" "I w" "world_step K N w w'" for w w'
    using that(3) by (cases rule: world_step_cases) (use that(1,2) move frame queue_interrupt_same in blast)+
qed

lemma put_sel [simp]: "mem (put t r w) = fst r" "pcs (put t r w) = (pcs w)(t := snd r)"
  by (simp_all add: put_def)

text \<open>Threads beyond the first \<open>N\<close> do nothing.\<close>

lemma idle_beyond:
  assumes "world_reach K N w"
  shows "N \<le> t \<Longrightarrow> pcs w t = Ready Ret_unit"
  using assms by (rule world_invariant [where I = "\<lambda>w. N \<le> t \<longrightarrow> pcs w t = Ready Ret_unit", rule_format])
    (auto simp: world_initial_def same_but_queues_def)

end
