(* ===== verification/Message_Invariants.thy ===== *)
theory Message_Invariants
  imports Message_Safety
begin

text \<open>
  Readers and writers exclude each other, and read guards show published messages. The counter of
  active readers equals the number of registered threads, the writing flag is set while a thread
  prepares, writes or publishes, and both together keep writers out of the buffer while a read guard
  is alive; the history of publications then determines what a guard shows.
\<close>

section \<open>The counter of active readers\<close>

lemma update_step_retry: "update_step mu b pc w = (w', Inl pc') \<Longrightarrow> w' = w"
  by (cases pc) (auto split: sum.splits if_splits)

lemma update_step_panic:
  "update_step mu b pc w = (w', Inr (Inl p)) \<Longrightarrow> w' = w \<and> mutate mu (ReadersStateCount_from w) = Inl p"
  by (cases pc) (auto simp: urs_attempt_def split: sum.splits if_splits)

lemma update_step_done:
  "update_step mu b pc w = (w', Inr (Inr pol)) \<Longrightarrow>
     w' = ReadersStateCount_to_packed pol \<and> mutate mu (ReadersStateCount_from w) = Inr pol"
  by (cases pc) (auto simp: urs_attempt_def split: sum.splits if_splits)

text \<open>The threads that have incremented \<open>active_readers\<close> and not yet decremented it.\<close>

fun registered :: "pc \<Rightarrow> bool" where
  "registered (Reading q b (R_verify seq)) = True"
| "registered (Reading q b (R_unregister pc)) = True"
| "registered (Read_guard seq) = True"
| "registered (Releasing (Rel_update pc)) = True"
| "registered _ = False"

text \<open>The only closures that \<open>add_reader\<close> and \<open>remove_reader\<close> pass on.\<close>

fun pc_ok :: "pc \<Rightarrow> bool" where
  "pc_ok (Registering mu pc) = (mu = Add_reader \<or> mu = Remove_reader)"
| "pc_ok _ = True"

abbreviation active :: "'k shared \<Rightarrow> u16" where
  "active s \<equiv> active_readers (rdr_state s)"

text \<open>How one move changes the counter.\<close>

definition counts_registration :: "'k shared \<Rightarrow> pc \<Rightarrow> 'k shared \<Rightarrow> pc \<Rightarrow> bool" where
  "counts_registration s pc s' pc' \<longleftrightarrow>
     active s' = active s + of_bool (registered pc') - of_bool (registered pc)"

lemma mutate_active:
  assumes "mutate mu r = Inr pol"
  shows "active_readers pol = active_readers r +
    (if mu = Register_reader then 1 else if mu = Unregister_reader \<or> mu = Release_reader then - 1 else 0)"
  using assms by (cases mu) (auto split: if_splits)

lemma active_eq: "active s = active_readers (ReadersStateCount_from (readers_state (msg s)))"
  by (simp add: get_reader_state_def)

lemma update_step_active:
  assumes "update_step mu b pc w = (w', r)"
  shows "active_readers (ReadersStateCount_from w') = active_readers (ReadersStateCount_from w) +
    (case r of Inr (Inr _) \<Rightarrow>
       (if mu = Register_reader then 1 else if mu = Unregister_reader \<or> mu = Release_reader then - 1 else 0)
     | _ \<Rightarrow> 0)"
  using assms
  by (auto split: sum.splits simp: packed_simps mutate_active
      dest!: update_step_retry update_step_panic update_step_done)

lemma mutate_total: "mu \<noteq> Add_reader \<Longrightarrow> mu \<noteq> Remove_reader \<Longrightarrow> mutate mu r \<noteq> Inl p"
  by (cases mu) auto

lemma update_step_no_panic:
  "mu \<noteq> Add_reader \<Longrightarrow> mu \<noteq> Remove_reader \<Longrightarrow> update_step mu b pc w \<noteq> (w', Inr (Inl p))"
  using mutate_total update_step_panic by metis

lemma update_step_counts:
  "update_step Register_reader b pc w = (w', Inr x) \<Longrightarrow>
     active_readers (ReadersStateCount_from w') = active_readers (ReadersStateCount_from w) + 1"
  "update_step Unregister_reader b pc w = (w', Inr x) \<Longrightarrow>
     active_readers (ReadersStateCount_from w') = active_readers (ReadersStateCount_from w) - 1"
  by (cases x; auto simp: update_step_no_panic dest: update_step_active)+

lemmas active_simps = counts_registration_def active_eq same_but_condvars_def update_step_no_panic

lemma start_write_active: "start_write_step K t pc s = Some (s', r) \<Longrightarrow> readers_state (msg s') = readers_state (msg s)"
  by (cases pc) (auto simp: same_but_condvars_def split: step_splits dest!: notify_frame)

lemma publish_active:
  "publish_step K b sz p pc s = (s', r) \<Longrightarrow> active s' = active s"
  by (cases pc) (auto simp: active_eq same_but_condvars_def Let_def split: step_splits
      dest!: notify_frame dest: update_step_active)

lemma read_active:
  assumes "read_step K t b q block pc s = Some (s', r)"
  shows "counts_registration s (Reading q block pc) s'
    (case r of Inl pc' \<Rightarrow> Reading q block pc' | Inr None \<Rightarrow> Ready Ret_no_guard | Inr (Some seq) \<Rightarrow> Read_guard seq)"
  using assms
  by (cases pc) (auto simp: active_simps Let_def split: step_splits
      dest!: notify_frame dest: update_step_active update_step_counts)

lemma release_active:
  assumes "release_step K b pc s = (s', r)"
  shows "counts_registration s (Releasing pc) s' (case r of Inl pc' \<Rightarrow> Releasing pc' | Inr _ \<Rightarrow> Ready Ret_unit)"
  using assms
  by (cases pc) (auto simp: active_simps split: step_splits
      dest!: notify_frame dest: update_step_active)

lemma stop_active: "stop_step K pc s = (s', r) \<Longrightarrow> active s' = active s"
  by (cases pc) (auto simp: active_eq same_but_condvars_def split: step_splits dest!: notify_frame)

lemma set_target_active: "set_target_step K t b count pc s = Some (s', r) \<Longrightarrow> active s' = active s"
  by (cases pc) (auto simp: active_eq split: step_splits dest: update_step_active)

lemma thread_active:
  assumes "thread_step K t b pc s = Some (s', pc')" "pc_ok pc"
  shows "counts_registration s pc s' pc'"
proof (cases pc)
  case (Reading q block rp)
  with assms obtain r where "read_step K t b q block rp s = Some (s', r)"
    "pc' = (case r of Inl pc' \<Rightarrow> Reading q block pc' | Inr None \<Rightarrow> Ready Ret_no_guard | Inr (Some seq) \<Rightarrow> Read_guard seq)"
    by (auto split: step_splits)
  with Reading read_active show ?thesis by blast
next
  case (Releasing rp)
  with assms obtain r where "release_step K b rp s = (s', r)"
    "pc' = (case r of Inl pc' \<Rightarrow> Releasing pc' | Inr _ \<Rightarrow> Ready Ret_unit)"
    by (auto split: step_splits)
  with Releasing release_active show ?thesis by blast
next
  case (Registering mu u)
  with assms show ?thesis
    by (auto simp: counts_registration_def active_eq split: step_splits dest: update_step_active)
qed (use assms in \<open>auto simp: counts_registration_def active_eq split: step_splits
      dest: start_write_active publish_active stop_active set_target_active\<close>)

lemma guard_active: "guard_step a pc s = Some (s', pc') \<Longrightarrow> counts_registration s pc s' pc'"
  by (cases a; cases pc) (auto simp: counts_registration_def active_eq split: if_splits)

lemma entry_facts: "\<not> registered (entry op)" "pc_ok (entry op)"
  by (cases op; simp)+

lemma thread_pc_ok: "thread_step K t b pc s = Some (s', pc') \<Longrightarrow> pc_ok pc \<Longrightarrow> pc_ok pc'"
  by (cases pc) (auto split: step_splits)

lemma guard_pc_ok: "guard_step a pc s = Some (s', pc') \<Longrightarrow> pc_ok pc'"
  by (cases a; cases pc) (auto split: if_splits)

lemma move_active:
  assumes "thread_move K t pc s s' pc'" "pc_ok pc"
  shows "counts_registration s pc s' pc' \<and> pc_ok pc'"
  using assms(1)
proof (cases rule: thread_moveE)
  case (Call r op)
  then show ?thesis using entry_facts [of op] by (simp add: counts_registration_def)
next
  case (Access b)
  with assms(2) show ?thesis by (blast intro: thread_active thread_pc_ok)
next
  case (Guard a)
  then show ?thesis by (blast intro: guard_active guard_pc_ok)
qed

lemma count_move:
  assumes "t < N" "N < 65536" "unat (active s) = count_threads N registered f"
    and "counts_registration s (f t) s' pc'"
  shows "unat (active s') = count_threads N registered (f(t := pc'))"
proof (cases "registered (f t) = registered pc'")
  case True
  with assms(3,4) show ?thesis
    by (simp add: counts_registration_def count_threads_same)
next
  case False
  show ?thesis
  proof (cases "registered pc'")
    case True
    with False have new: "count_threads N registered (f(t := pc')) = Suc (count_threads N registered f)"
      using assms(1) by (simp add: count_threads_enter)
    then have "Suc (count_threads N registered f) < 65536"
      using count_threads_le [of N registered "f(t := pc')"] assms(2) by simp
    with new assms(3,4) False True show ?thesis
      by (simp add: counts_registration_def unat_inc_u16)
  next
    assume out: "\<not> registered pc'"
    with False have "Suc (count_threads N registered (f(t := pc'))) = count_threads N registered f"
      using assms(1) by (simp add: count_threads_leave)
    with assms(3,4) False out show ?thesis
      by (simp add: counts_registration_def unat_dec_u16)
  qed
qed

lemma active_counts:
  assumes "N < 65536" "world_reach K N w"
  shows "(\<forall>t. pc_ok (pcs w t)) \<and> unat (active (mem w)) = count_threads N registered (pcs w)"
  using assms(2)
proof (rule world_invariant)
  show "(\<forall>t. pc_ok (pcs w t)) \<and> unat (active (mem w)) = count_threads N registered (pcs w)"
    if "world_initial K w" for w :: "'a world"
    using that by (simp add: world_initial_def count_threads_def active_eq shift_defs)
  show "(\<forall>u. pc_ok (pcs (put t (s', pc') w) u)) \<and>
      unat (active (mem (put t (s', pc') w))) = count_threads N registered (pcs (put t (s', pc') w))"
    if "(\<forall>t. pc_ok (pcs w t)) \<and> unat (active (mem w)) = count_threads N registered (pcs w)" "t < N"
      "thread_move K t (pcs w t) (mem w) s' pc'" for w :: "'a world" and t s' pc'
    using that move_active [OF that(3)] count_move [OF that(2) assms(1), of "mem w" "pcs w" s' pc'] by simp
qed (simp add: same_but_queues_def)

section \<open>The writing flag\<close>

text \<open>The threads that may store to the buffer or to \<open>data_size\<close>, up to the publication.\<close>

fun writing :: "pc \<Rightarrow> bool" where
  "writing (Copying d i) = True"
| "writing Write_guard = True"
| "writing (Publishing sz p (P_notify q pc)) = False"
| "writing (Publishing sz p _) = True"
| "writing _ = False"

text \<open>The threads between the \<open>fetch_or\<close> of \<open>start_write\<close> and what clears the flag.\<close>

fun sw_marked :: "sw_pc \<Rightarrow> bool" where
  "sw_marked SW_ticket2 = True"
| "sw_marked (SW_active ticket) = True"
| "sw_marked (SW_stopped2 ticket) = True"
| "sw_marked SW_unmark = True"
| "sw_marked (SW_wait2 ticket pc) = True"
| "sw_marked _ = False"

fun marked :: "pc \<Rightarrow> bool" where
  "marked (Starting call pc) = sw_marked pc"
| "marked pc = writing pc"

lemma writing_marked: "writing pc \<Longrightarrow> marked pc"
  by (cases pc) auto

lemma marked_owns: "marked pc \<Longrightarrow> owns_mutex pc"
proof (cases pc)
  case (Starting c sw)
  then show "marked pc \<Longrightarrow> owns_mutex pc" by (cases sw) (auto simp: owns_mutex_def)
qed (auto simp: owns_mutex_def)

abbreviation wip :: "'k shared \<Rightarrow> bool" where
  "wip s \<equiv> writing_in_progress (seq_state s)"

abbreviation halted :: "'k shared \<Rightarrow> bool" where
  "halted s \<equiv> stopped (seq_state s)"

lemma flag_eqs:
  "wip s = bit (sequence_and_flags (msg s)) 62" "halted s = bit (sequence_and_flags (msg s)) 63"
  by (simp_all add: get_sequence_state_def packed_simps)

lemma flag_bits:
  "bit (p OR WRITING_IN_PROGRESS_MASK) 62" "bit (p OR WRITING_IN_PROGRESS_MASK) 63 = bit p 63"
  "bit (p AND NOT WRITING_IN_PROGRESS_MASK) 63 = bit p 63"
  "\<not> bit (p AND NOT WRITING_IN_PROGRESS_MASK) 62"
  "bit (p OR STOPPED_MASK) 62 = bit p 62" "bit (p OR STOPPED_MASK) 63"
  "bit (published_packed p) 63 = bit p 63" "\<not> bit (published_packed p) 62"
  by (simp_all add: bit_simps mask_bits published_packed_def bit_to_packed Let_def stopped_from)

text \<open>How one move changes the flags.\<close>

definition flag_effect :: "'k shared \<Rightarrow> pc \<Rightarrow> 'k shared \<Rightarrow> pc \<Rightarrow> bool" where
  "flag_effect s pc s' pc' \<longleftrightarrow>
     (\<not> marked pc \<longrightarrow> wip s \<longrightarrow> wip s') \<and>
     (marked pc' \<longrightarrow> (marked pc \<longrightarrow> wip s) \<longrightarrow> wip s') \<and>
     (halted s \<longrightarrow> halted s')"

lemmas flag_simps = flag_effect_def flag_eqs flag_bits

lemma flag_effect_same [intro]:
  "sequence_and_flags (msg s') = sequence_and_flags (msg s) \<Longrightarrow> (marked pc' \<Longrightarrow> marked pc) \<Longrightarrow> flag_effect s pc s' pc'"
  by (simp add: flag_simps)

lemma start_write_flags:
  assumes "start_write_step K t pc s = Some (s', r)"
  shows "(\<not> sw_marked pc \<longrightarrow> wip s \<longrightarrow> wip s') \<and> (halted s \<longrightarrow> halted s') \<and>
    (case r of
       Inl pc' \<Rightarrow> sw_marked pc' \<longrightarrow> (sw_marked pc \<longrightarrow> wip s) \<longrightarrow> wip s'
     | Inr res \<Rightarrow> res = SW_granted \<longrightarrow> sw_marked pc \<and> (wip s \<longrightarrow> wip s'))"
  using assms
  by (cases pc) (auto simp: flag_eqs flag_bits same_but_condvars_def sw_while1_def
      split: step_splits dest!: notify_frame)

lemma publish_flags:
  assumes "publish_step K b sz p pc s = (s', r)"
  shows "flag_effect s (Publishing sz p pc) s'
    (case r of Inl pc' \<Rightarrow> Publishing sz p pc' | Inr q \<Rightarrow> Unlocking (Ret_sequence (Some q)) Unlock_swap)"
  using assms
  by (cases pc) (auto simp: flag_simps same_but_condvars_def Let_def split: step_splits dest!: notify_frame)

lemma read_flags:
  "read_step K t b q block pc s = Some (s', r) \<Longrightarrow> sequence_and_flags (msg s') = sequence_and_flags (msg s)"
  by (cases pc) (auto simp: same_but_condvars_def Let_def split: step_splits dest!: notify_frame)

lemma release_flags:
  "release_step K b pc s = (s', r) \<Longrightarrow> sequence_and_flags (msg s') = sequence_and_flags (msg s)"
  by (cases pc) (auto simp: same_but_condvars_def split: step_splits dest!: notify_frame)

lemma stop_flags:
  assumes "stop_step K pc s = (s', r)"
  shows "wip s' = wip s" "halted s \<Longrightarrow> halted s'"
  using assms
  by (cases pc; auto simp: flag_eqs flag_bits same_but_condvars_def split: step_splits dest!: notify_frame)+

lemma set_target_flags:
  "set_target_step K t b count pc s = Some (s', r) \<Longrightarrow> sequence_and_flags (msg s') = sequence_and_flags (msg s)"
  by (cases pc) (auto split: step_splits)

lemma starting_flags:
  assumes "thread_step K t b (Starting call sw) s = Some (s', pc')"
  shows "flag_effect s (Starting call sw) s' pc'"
proof -
  obtain s1 r where r: "start_write_step K t sw s = Some (s1, r)"
    using assms by (auto split: option.splits)
  moreover have "sequence_and_flags (msg s') = sequence_and_flags (msg s1)"
    using assms r by (auto split: step_splits)
  ultimately show ?thesis
    using start_write_flags [OF r] assms
    by (cases r) (auto simp: flag_effect_def flag_eqs split: step_splits)
qed

lemma thread_flags:
  assumes "thread_step K t b pc s = Some (s', pc')"
  shows "flag_effect s pc s' pc'"
proof (cases pc)
  case (Starting call sw)
  with assms starting_flags show ?thesis by blast
next
  case (Publishing sz p pp)
  with assms obtain r where "publish_step K b sz p pp s = (s', r)"
    "pc' = (case r of Inl pc' \<Rightarrow> Publishing sz p pc' | Inr q \<Rightarrow> Unlocking (Ret_sequence (Some q)) Unlock_swap)"
    by (auto split: step_splits)
  with Publishing publish_flags show ?thesis by blast
next
  case (Stopping sp)
  with assms show ?thesis by (auto simp: flag_effect_def dest: stop_flags split: step_splits)
qed (use assms in \<open>auto intro!: flag_effect_same split: step_splits
      dest: read_flags release_flags set_target_flags\<close>)

lemma guard_flags: "guard_step a pc s = Some (s', pc') \<Longrightarrow> flag_effect s pc s' pc'"
  by (cases a; cases pc) (auto split: if_splits)

lemma move_flags:
  assumes "thread_move K t pc s s' pc'"
  shows "flag_effect s pc s' pc'"
  using assms
proof (cases rule: thread_moveE)
  case (Call r op)
  then show ?thesis by (cases op) auto
qed (blast intro: thread_flags guard_flags)+

lemma marked_flag:
  assumes "world_reach K N w"
  shows "\<forall>t. marked (pcs w t) \<longrightarrow> wip (mem w)"
  using assms
proof (rule world_invariant)
  show "\<forall>u. marked (pcs (put t (s', pc') w) u) \<longrightarrow> wip (mem (put t (s', pc') w))"
    if reach: "world_reach K N w" and inv: "\<forall>t. marked (pcs w t) \<longrightarrow> wip (mem w)"
      and move: "thread_move K t (pcs w t) (mem w) s' pc'" for w :: "'a world" and t s' pc'
  proof (intro allI impI)
    fix u
    assume u: "marked (pcs (put t (s', pc') w) u)"
    note effect = move_flags [OF move, unfolded flag_effect_def]
    show "wip (mem (put t (s', pc') w))"
    proof (cases "u = t")
      case True
      with u inv effect show ?thesis by auto
    next
      case False
      with u have "marked (pcs w u)" by simp
      moreover from this have "\<not> marked (pcs w t)"
        using owner_unique [OF reach, of t u] False marked_owns by blast
      ultimately show ?thesis using inv effect by auto
    qed
  qed
qed (auto simp: world_initial_def same_but_queues_def)

section \<open>Exclusion\<close>

text \<open>The threads that hold a read guard, up to its release.\<close>

fun guarded :: "pc \<Rightarrow> bool" where
  "guarded (Read_guard seq) = True"
| "guarded (Releasing (Rel_update pc)) = True"
| "guarded _ = False"

lemma guarded_registered: "guarded pc \<Longrightarrow> registered pc"
  by (cases pc rule: guarded.cases) auto

lemma release_guarded: "release_step K b pc s = (s', Inl pc') \<Longrightarrow> guarded (Releasing pc') \<Longrightarrow> guarded (Releasing pc)"
  by (cases pc) (auto split: step_splits)

lemma guarded_entered:
  assumes "thread_move K t pc s s' pc'" "guarded pc'" "\<not> guarded pc"
  shows "\<not> wip s \<and> s' = s \<and> (\<exists>q. pc' = Read_guard q \<and> q = sequence (seq_state s))"
  using assms(1)
proof (cases rule: thread_moveE)
  case (Call r op)
  with assms(2) show ?thesis by (cases op) auto
next
  case (Access b)
  show ?thesis
  proof (cases pc)
    case (Reading q block rp)
    with Access assms(2) show ?thesis by (cases rp) (auto simp: Let_def split: step_splits)
  next
    case (Releasing rp)
    with Access assms(2,3) show ?thesis by (auto split: step_splits dest: release_guarded)
  qed (use Access assms(2) in \<open>auto split: step_splits\<close>)
next
  case (Guard a)
  with assms(2,3) show ?thesis by (cases a; cases pc) (auto split: if_splits)
qed

lemma publish_writing:
  "publish_step K b sz p pc s = (s', Inl pc') \<Longrightarrow> writing (Publishing sz p pc') \<Longrightarrow> writing (Publishing sz p pc)"
  by (cases pc) (auto simp: Let_def split: step_splits)

lemma granted_idle: "start_write_step K t pc s = Some (s', Inr SW_granted) \<Longrightarrow> s' = s \<and> active s = 0"
  by (cases pc) (auto simp: word_gt_0 split: step_splits)

lemma writing_entered:
  assumes "thread_move K t pc s s' pc'" "writing pc'" "\<not> writing pc"
  shows "active s = 0 \<and> s' = s \<and> (pc' = Write_guard \<or> (\<exists>d. pc' = Copying d 0 \<and> length d \<le> length (data (msg s))))"
  using assms(1)
proof (cases rule: thread_moveE)
  case (Call r op)
  with assms(2) show ?thesis by (cases op) auto
next
  case (Access b)
  show ?thesis
  proof (cases pc)
    case (Starting call sw)
    with Access assms(2) show ?thesis by (auto split: step_splits dest!: granted_idle)
  next
    case (Publishing sz p pp)
    with Access assms(2,3) show ?thesis by (auto split: step_splits dest: publish_writing)
  qed (use Access assms(2,3) in \<open>auto split: step_splits\<close>)
next
  case (Guard a)
  with assms(2,3) show ?thesis by (cases a; cases pc) (auto split: if_splits)
qed

definition excluded :: "'k world \<Rightarrow> bool" where
  "excluded w \<longleftrightarrow> (\<forall>t u. writing (pcs w t) \<longrightarrow> \<not> guarded (pcs w u))"

lemma exclusion:
  assumes "N < 65536" "world_reach K N w"
  shows "excluded w"
  using assms(2)
proof (rule world_invariant)
  show "excluded (put t (s', pc') w)"
    if reach: "world_reach K N w" and inv: "excluded w" and t: "t < N"
      and move: "thread_move K t (pcs w t) (mem w) s' pc'" for w :: "'a world" and t s' pc'
  proof -
    have a: "\<not> guarded (pcs w u)" if "writing pc'" for u
    proof (cases "writing (pcs w t)")
      case True
      with inv show ?thesis by (auto simp: excluded_def)
    next
      case False
      with writing_entered [OF move that] have "active (mem w) = 0" by blast
      with active_counts [OF assms(1) reach] have "count_threads N registered (pcs w) = 0" by simp
      then have "u < N \<Longrightarrow> \<not> registered (pcs w u)" by (rule count_threads_zero)
      then show ?thesis using guarded_registered idle_beyond [OF reach, of u] by (cases "u < N") auto
    qed
    have b: "\<not> writing (pcs w u)" if "guarded pc'" for u
    proof (cases "guarded (pcs w t)")
      case True
      with inv show ?thesis by (auto simp: excluded_def)
    next
      case False
      with guarded_entered [OF move that] have "\<not> wip (mem w)" by blast
      with marked_flag [OF reach] show ?thesis using writing_marked by blast
    qed
    have "writing pc' \<Longrightarrow> \<not> guarded pc'" by (cases pc') auto
    with a b inv show ?thesis by (auto simp: excluded_def)
  qed
qed (auto simp: excluded_def world_initial_def same_but_queues_def)

section \<open>The buffer\<close>

text \<open>What a writing thread knows of the buffer.\<close>

fun local_ok :: "pc \<Rightarrow> 'k shared \<Rightarrow> bool" where
  "local_ok (Copying d i) s \<longleftrightarrow>
     length d \<le> length (data (msg s)) \<and> i \<le> length d \<and> take i (data (msg s)) = take i d"
| "local_ok (Publishing sz p P_size) s \<longleftrightarrow>
     unat sz \<le> length (data (msg s)) \<and> take (unat sz) (data (msg s)) = p"
| "local_ok (Publishing sz p (P_notify q pc)) s \<longleftrightarrow> True"
| "local_ok (Publishing sz p pc) s \<longleftrightarrow>
     unat sz \<le> length (data (msg s)) \<and> take (unat sz) (data (msg s)) = p \<and> data_size (msg s) = sz"
| "local_ok pc s \<longleftrightarrow> True"

abbreviation same_buffer :: "'k shared \<Rightarrow> 'k shared \<Rightarrow> bool" where
  "same_buffer s s' \<equiv> data (msg s') = data (msg s) \<and> data_size (msg s') = data_size (msg s)"

lemma local_ok_same: "same_buffer s s' \<Longrightarrow> local_ok pc s' = local_ok pc s"
  by (cases "(pc, s)" rule: local_ok.cases) auto

lemma not_writing_local_ok: "\<not> writing pc \<Longrightarrow> local_ok pc s"
  by (cases pc rule: writing.cases) auto

text \<open>How one move changes the buffer.\<close>

definition buffer_effect :: "'k shared \<Rightarrow> pc \<Rightarrow> 'k shared \<Rightarrow> pc \<Rightarrow> bool" where
  "buffer_effect s pc s' pc' \<longleftrightarrow>
     length (data (msg s')) = length (data (msg s)) \<and>
     (writing pc \<or> same_buffer s s') \<and>
     (length (data (msg s)) < 2 ^ 64 \<longrightarrow> local_ok pc s \<longrightarrow>
        local_ok pc' s' \<and> (unat (data_size (msg s)) \<le> length (data (msg s)) \<longrightarrow>
          unat (data_size (msg s')) \<le> length (data (msg s'))))"

lemma buffer_effect_same:
  "same_buffer s s' \<Longrightarrow> \<not> writing pc' \<Longrightarrow> buffer_effect s pc s' pc'"
  by (simp add: buffer_effect_def not_writing_local_ok)

lemma start_write_buffer: "start_write_step K t pc s = Some (s', r) \<Longrightarrow> same_buffer s s'"
  by (cases pc) (auto simp: same_but_condvars_def split: step_splits dest!: notify_frame)

lemma read_buffer: "read_step K t b q block pc s = Some (s', r) \<Longrightarrow> same_buffer s s'"
  by (cases pc) (auto simp: same_but_condvars_def Let_def split: step_splits dest!: notify_frame)

lemma release_buffer: "release_step K b pc s = (s', r) \<Longrightarrow> same_buffer s s'"
  by (cases pc) (auto simp: same_but_condvars_def split: step_splits dest!: notify_frame)

lemma stop_buffer: "stop_step K pc s = (s', r) \<Longrightarrow> same_buffer s s'"
  by (cases pc) (auto simp: same_but_condvars_def split: step_splits dest!: notify_frame)

lemma set_target_buffer: "set_target_step K t b count pc s = Some (s', r) \<Longrightarrow> same_buffer s s'"
  by (cases pc) (auto split: step_splits)

lemma publish_buffer:
  assumes "publish_step K b sz p pc s = (s', r)"
  shows "buffer_effect s (Publishing sz p pc) s'
    (case r of Inl pc' \<Rightarrow> Publishing sz p pc' | Inr q \<Rightarrow> Unlocking (Ret_sequence (Some q)) Unlock_swap)"
  using assms
  by (cases pc) (auto simp: buffer_effect_def same_but_condvars_def Let_def
      split: step_splits dest!: notify_frame)

lemma copying_buffer:
  assumes "thread_step K t b (Copying d i) s = Some (s', pc')"
  shows "buffer_effect s (Copying d i) s' pc'"
proof (cases "i < length d")
  case True
  with assms have "s' = s\<lparr>msg := (msg s)\<lparr>data := (data (msg s))[i := d ! i]\<rparr>\<rparr>" "pc' = Copying d (Suc i)"
    by simp_all
  with True show ?thesis by (simp add: buffer_effect_def take_Suc_update)
next
  case False
  with assms have "s' = s" "pc' = Publishing (of_nat (length d)) d P_size" by simp_all
  moreover have "length d < 2 ^ 64 \<Longrightarrow> unat (of_nat (length d) :: usize) = length d"
    by (simp add: unat_of_nat take_bit_nat_eq_self)
  ultimately show ?thesis using False by (auto simp: buffer_effect_def)
qed

lemma thread_buffer:
  assumes "thread_step K t b pc s = Some (s', pc')"
  shows "buffer_effect s pc s' pc'"
proof (cases pc)
  case (Starting call sw)
  then have "same_buffer s s'" using assms by (auto split: step_splits dest!: start_write_buffer)
  moreover have "local_ok pc' s'" using assms Starting by (auto split: step_splits)
  ultimately show ?thesis by (simp add: buffer_effect_def)
next
  case (Copying d i)
  with assms copying_buffer show ?thesis by blast
next
  case (Publishing sz p pp)
  with assms obtain r where "publish_step K b sz p pp s = (s', r)"
    "pc' = (case r of Inl pc' \<Rightarrow> Publishing sz p pc' | Inr q \<Rightarrow> Unlocking (Ret_sequence (Some q)) Unlock_swap)"
    by (auto split: step_splits)
  with Publishing publish_buffer show ?thesis by blast
qed (use assms in \<open>auto intro!: buffer_effect_same split: step_splits
      dest: read_buffer release_buffer stop_buffer set_target_buffer\<close>)

lemma guard_buffer: "guard_step a pc s = Some (s', pc') \<Longrightarrow> buffer_effect s pc s' pc'"
  by (cases a; cases pc) (auto simp: buffer_effect_def capacity_def split: if_splits)

lemma move_buffer:
  assumes "thread_move K t pc s s' pc'"
  shows "buffer_effect s pc s' pc'"
  using assms
proof (cases rule: thread_moveE)
  case (Call r op)
  then show ?thesis by (cases op) (auto intro: buffer_effect_same)
qed (blast intro: thread_buffer guard_buffer)+

definition buffer_ok :: "'k world \<Rightarrow> bool" where
  "buffer_ok w \<longleftrightarrow>
     length (data (msg (mem w))) < 2 ^ 64 \<and>
     unat (data_size (msg (mem w))) \<le> length (data (msg (mem w))) \<and>
     (\<forall>t. local_ok (pcs w t) (mem w))"

lemma writer_unique:
  "world_reach K N w \<Longrightarrow> writing (pcs w t) \<Longrightarrow> writing (pcs w u) \<Longrightarrow> t = u"
  by (meson marked_owns owner_unique writing_marked)

lemma buffer_invariant:
  assumes "world_reach K N w"
  shows "buffer_ok w"
  using assms
proof (rule world_invariant)
  show "buffer_ok (put t (s', pc') w)"
    if reach: "world_reach K N w" and inv: "buffer_ok w"
      and move: "thread_move K t (pcs w t) (mem w) s' pc'" for w :: "'a world" and t s' pc'
  proof -
    note effect = move_buffer [OF move, unfolded buffer_effect_def]
    have "local_ok (pcs w u) s'" if "u \<noteq> t" for u
    proof (cases "writing (pcs w u)")
      case True
      with writer_unique [OF reach, of u t] \<open>u \<noteq> t\<close> effect have "same_buffer (mem w) s'" by blast
      with inv local_ok_same [of "mem w" s' "pcs w u"] show ?thesis by (simp add: buffer_ok_def)
    qed (rule not_writing_local_ok)
    with effect inv show ?thesis by (simp add: buffer_ok_def)
  qed
  show "buffer_ok w'" if "buffer_ok w" "same_but_queues w w'" for w w' :: "'a world"
    using that local_ok_same [of "mem w" "mem w'"] by (simp add: buffer_ok_def same_but_queues_def)
qed (simp add: buffer_ok_def world_initial_def)

section \<open>The history of publications\<close>

definition last_message :: "'k shared \<Rightarrow> u64 \<times> bytes" where
  "last_message s = (if published s = [] then (0, []) else last (published s))"

abbreviation current :: "'k shared \<Rightarrow> u64" where
  "current s \<equiv> sequence (seq_state s)"

text \<open>A move that publishes, and one that does not.\<close>

definition publishes :: "'k shared \<Rightarrow> pc \<Rightarrow> 'k shared \<Rightarrow> pc \<Rightarrow> bool" where
  "publishes s pc s' pc' \<longleftrightarrow>
     (\<exists>sz p q. pc = Publishing sz p (P_cas q) \<and>
        pc' = Publishing sz p (P_notify (next_sequence (current s)) Cv_add) \<and>
        published s' = published s @ [(next_sequence (current s), p)] \<and>
        current s' = next_sequence (current s) \<and> \<not> abandoned s' \<and> same_buffer s s')"

definition keeps_history :: "'k shared \<Rightarrow> pc \<Rightarrow> 'k shared \<Rightarrow> pc \<Rightarrow> bool" where
  "keeps_history s pc s' pc' \<longleftrightarrow>
     published s' = published s \<and> current s' = current s \<and>
     (abandoned s \<longrightarrow> abandoned s') \<and>
     (abandoned s' \<longrightarrow> abandoned s \<or>
        wip s' = wip s \<and> (writing pc \<or> marked pc \<and> active s = 0)) \<and>
     (wip s \<and> \<not> wip s' \<longrightarrow> (\<exists>c. pc = Starting c SW_unmark)) \<and>
     (writing pc \<and> \<not> writing pc' \<longrightarrow> abandoned s')"

lemma current_eq: "current s = sequence_and_flags (msg s) AND SEQUENCE_MASK"
  by (simp add: get_sequence_state_def sequence_from)

lemma current_flags:
  "(p OR WRITING_IN_PROGRESS_MASK) AND SEQUENCE_MASK = p AND SEQUENCE_MASK"
  "(p AND NOT WRITING_IN_PROGRESS_MASK) AND SEQUENCE_MASK = p AND SEQUENCE_MASK"
  "(p OR STOPPED_MASK) AND SEQUENCE_MASK = p AND SEQUENCE_MASK"
  "published_packed p AND SEQUENCE_MASK = next_sequence (p AND SEQUENCE_MASK)"
proof -
  have "SequenceState_from (published_packed p) =
      (let old = SequenceState_from p in \<lparr>sequence = next_sequence (sequence old), stopped = stopped old,
         writing_in_progress = False\<rparr>)"
    by (simp add: published_packed_def Let_def SequenceState_from_to_packed next_sequence_masked)
  then have "sequence (SequenceState_from (published_packed p)) = next_sequence (sequence (SequenceState_from p))"
    by (simp add: Let_def)
  then show "published_packed p AND SEQUENCE_MASK = next_sequence (p AND SEQUENCE_MASK)"
    by (simp add: sequence_from)
qed (rule bit_word_eqI; auto simp: bit_simps mask_bits)+

lemma keeps_history_same:
  "sequence_and_flags (msg s') = sequence_and_flags (msg s) \<Longrightarrow> published s' = published s \<Longrightarrow>
     abandoned s' = abandoned s \<Longrightarrow> (writing pc \<Longrightarrow> writing pc') \<Longrightarrow> keeps_history s pc s' pc'"
  by (auto simp: keeps_history_def flag_eqs current_eq)

lemma start_write_history:
  assumes "start_write_step K t pc s = Some (s', r)"
  shows "published s' = published s \<and> abandoned s' = abandoned s \<and> current s' = current s \<and>
    (wip s \<and> \<not> wip s' \<longrightarrow> pc = SW_unmark) \<and>
    (r = Inr SW_granted \<longrightarrow> active s = 0 \<and> sw_marked pc \<and> wip s' = wip s)"
  using assms
  by (cases pc) (auto simp: same_but_condvars_def flag_eqs flag_bits current_eq current_flags word_gt_0
      split: step_splits dest!: notify_frame)

lemma starting_history:
  assumes "thread_step K t b (Starting call sw) s = Some (s', pc')"
  shows "keeps_history s (Starting call sw) s' pc'"
proof -
  obtain s1 r where r: "start_write_step K t sw s = Some (s1, r)"
    using assms by (auto split: option.splits)
  have same: "published s' = published s1" "seq_state s' = seq_state s1"
    "abandoned s' = abandoned s1 \<or> abandoned s' \<and> r = Inr SW_granted"
    using assms r by (auto simp: get_sequence_state_def split: step_splits)
  with start_write_history [OF r] show ?thesis
    unfolding keeps_history_def by auto
qed

lemma publish_history:
  assumes "publish_step K b sz p pc s = (s', r)"
  shows "let pc' = (case r of Inl pc' \<Rightarrow> Publishing sz p pc'
      | Inr q \<Rightarrow> Unlocking (Ret_sequence (Some q)) Unlock_swap)
    in publishes s (Publishing sz p pc) s' pc' \<or> keeps_history s (Publishing sz p pc) s' pc'"
  using assms
  by (cases pc) (auto simp: publishes_def keeps_history_def same_but_condvars_def Let_def flag_eqs
      flag_bits current_eq current_flags sequence_from split: step_splits dest!: notify_frame)

lemma read_history:
  "read_step K t b q block pc s = Some (s', r) \<Longrightarrow> published s' = published s \<and> abandoned s' = abandoned s"
  by (cases pc) (auto simp: same_but_condvars_def Let_def split: step_splits dest!: notify_frame)

lemma release_history:
  "release_step K b pc s = (s', r) \<Longrightarrow> published s' = published s \<and> abandoned s' = abandoned s"
  by (cases pc) (auto simp: same_but_condvars_def split: step_splits dest!: notify_frame)

lemma stop_history:
  "stop_step K pc s = (s', r) \<Longrightarrow>
     published s' = published s \<and> abandoned s' = abandoned s \<and> wip s' = wip s \<and> current s' = current s"
  by (cases pc) (auto simp: same_but_condvars_def flag_eqs flag_bits current_eq current_flags
      split: step_splits dest!: notify_frame)

lemma set_target_history:
  "set_target_step K t b count pc s = Some (s', r) \<Longrightarrow> published s' = published s \<and> abandoned s' = abandoned s"
  by (cases pc) (auto split: step_splits)

lemma thread_history:
  assumes "thread_step K t b pc s = Some (s', pc')"
  shows "publishes s pc s' pc' \<or> keeps_history s pc s' pc'"
proof (cases pc)
  case (Starting call sw)
  with assms starting_history show ?thesis by blast
next
  case (Publishing sz p pp)
  with assms obtain r where r: "publish_step K b sz p pp s = (s', r)"
    "pc' = (case r of Inl pc' \<Rightarrow> Publishing sz p pc' | Inr q \<Rightarrow> Unlocking (Ret_sequence (Some q)) Unlock_swap)"
    by (auto split: step_splits)
  with publish_history [OF r(1)] Publishing show ?thesis by (simp add: Let_def)
next
  case (Stopping sp)
  then obtain r where "stop_step K sp s = (s', r)" using assms by (auto split: step_splits)
  with Stopping stop_history [OF this] show ?thesis by (simp add: keeps_history_def)
next
  case (Reading q block rp)
  with assms show ?thesis
    by (auto intro!: keeps_history_same split: step_splits dest: read_history read_flags)
next
  case (Releasing rp)
  with assms show ?thesis
    by (auto intro!: keeps_history_same split: step_splits dest: release_history release_flags)
next
  case (Setting_target count tp)
  with assms show ?thesis
    by (auto intro!: keeps_history_same split: step_splits dest: set_target_history set_target_flags)
qed (use assms in \<open>auto intro!: keeps_history_same split: step_splits\<close>)

lemma guard_history:
  "guard_step a pc s = Some (s', pc') \<Longrightarrow> keeps_history s pc s' pc'"
  by (cases a; cases pc) (auto simp: keeps_history_def flag_eqs current_eq split: if_splits)

lemma move_history:
  assumes "thread_move K t pc s s' pc'"
  shows "publishes s pc s' pc' \<or> keeps_history s pc s' pc'"
  using assms
proof (cases rule: thread_moveE)
  case (Call r op)
  then show ?thesis by (cases op) (auto intro!: keeps_history_same)
qed (blast dest: thread_history guard_history)+

section \<open>What is published, and what a guard shows\<close>

text \<open>The \<open>i\<close>-th message carries the number the counter reaches after \<open>i + 1\<close> increments.\<close>

definition numbered :: "'k shared \<Rightarrow> bool" where
  "numbered s \<longleftrightarrow>
     current s = (next_sequence ^^ length (published s)) 0 \<and>
     map fst (published s) = map (\<lambda>i. (next_sequence ^^ Suc i) 0) [0..<length (published s)]"

lemma publication_numbers:
  assumes "world_reach K N w"
  shows "numbered (mem w)"
  using assms
proof (rule world_invariant)
  show "numbered (mem (put t (s', pc') w))"
    if "numbered (mem w)" "thread_move K t (pcs w t) (mem w) s' pc'" for w :: "'a world" and t s' pc'
    using move_history [OF that(2)] that(1)
    by (auto simp: numbered_def publishes_def keeps_history_def)
qed (simp_all add: numbered_def world_initial_def same_but_queues_def current_eq)

lemma numbered_last:
  assumes "numbered s"
  shows "fst (last_message s) = current s"
proof (cases "published s = []")
  case True
  with assms show ?thesis by (simp add: numbered_def last_message_def)
next
  case False
  then obtain n where n: "length (published s) = Suc n" by (cases "length (published s)") auto
  have "fst (last (published s)) = last (map fst (published s))" using False by (simp add: last_map)
  also have "\<dots> = (next_sequence ^^ Suc n) 0"
    using assms n by (simp add: numbered_def del: funpow.simps)
  finally show ?thesis using assms False n by (simp add: numbered_def last_message_def)
qed

definition settled :: "'k world \<Rightarrow> bool" where
  "settled w \<longleftrightarrow> (\<not> abandoned (mem w) \<longrightarrow> (\<forall>t. \<not> writing (pcs w t)) \<longrightarrow>
     take (unat (data_size (msg (mem w)))) (data (msg (mem w))) = snd (last_message (mem w)))"

lemma settled_reach:
  assumes "world_reach K N w"
  shows "settled w"
  using assms
proof (rule world_invariant)
  show "settled (put t (s', pc') w)"
    if reach: "world_reach K N w" and inv: "settled w"
      and move: "thread_move K t (pcs w t) (mem w) s' pc'" for w :: "'a world" and t s' pc'
    using move_history [OF move]
  proof
    assume pub: "publishes (mem w) (pcs w t) s' pc'"
    moreover from buffer_invariant [OF reach] have "local_ok (pcs w t) (mem w)"
      by (simp add: buffer_ok_def)
    ultimately show ?thesis by (auto simp: settled_def publishes_def last_message_def)
  next
    assume keep: "keeps_history (mem w) (pcs w t) s' pc'"
    show ?thesis
      unfolding settled_def
    proof (intro impI)
      assume fresh: "\<not> abandoned (mem (put t (s', pc') w))"
        and nobody: "\<forall>u. \<not> writing (pcs (put t (s', pc') w) u)"
      from nobody have "\<not> writing pc'" by (auto dest: spec [of _ t])
      with keep fresh have before: "\<not> abandoned (mem w)" "\<not> writing (pcs w t)"
        and same: "last_message s' = last_message (mem w)"
        by (auto simp: keeps_history_def last_message_def)
      have "\<not> writing (pcs w u)" for u
        using nobody before(2) by (cases "u = t") (auto dest: spec [of _ u])
      with inv before same move_buffer [OF move]
      show "take (unat (data_size (msg (mem (put t (s', pc') w))))) (data (msg (mem (put t (s', pc') w)))) =
          snd (last_message (mem (put t (s', pc') w)))"
        by (simp add: settled_def buffer_effect_def)
    qed
  qed
qed (simp_all add: settled_def world_initial_def same_but_queues_def last_message_def)

lemma unmark_halted_step:
  assumes "thread_move K t pc s s' (Starting c SW_unmark)"
  shows "halted s'"
  using assms
proof (cases rule: thread_moveE)
  case (Call r op)
  then show ?thesis by (cases op) auto
next
  case (Access b)
  then obtain sw where "pc = Starting c sw" "start_write_step K t sw s = Some (s', Inl SW_unmark)"
    by (cases pc) (auto split: step_splits)
  then show ?thesis by (cases sw) (auto simp: sw_while1_def split: step_splits)
next
  case (Guard a)
  then show ?thesis by (cases a; cases pc) (auto split: if_splits)
qed

definition flag_ok :: "'k world \<Rightarrow> bool" where
  "flag_ok w \<longleftrightarrow>
     (abandoned (mem w) \<longrightarrow> wip (mem w) \<or> halted (mem w)) \<and>
     (\<forall>t c. pcs w t = Starting c SW_unmark \<longrightarrow> halted (mem w))"

lemma flag_ok_reach:
  assumes "world_reach K N w"
  shows "flag_ok w"
  using assms
proof (rule world_invariant)
  show "flag_ok (put t (s', pc') w)"
    if reach: "world_reach K N w" and inv: "flag_ok w"
      and move: "thread_move K t (pcs w t) (mem w) s' pc'" for w :: "'a world" and t s' pc'
  proof -
    have halted: "halted (mem w) \<Longrightarrow> halted s'" using move_flags [OF move] by (simp add: flag_effect_def)
    have "wip s' \<or> halted s'" if "abandoned s'"
    proof -
      from move_history [OF move] that
      have keep: "keeps_history (mem w) (pcs w t) s' pc'" by (auto simp: publishes_def)
      show ?thesis
      proof (cases "abandoned (mem w)")
        case True
        with inv halted keep show ?thesis unfolding flag_ok_def keeps_history_def by blast
      next
        case False
        with keep that writing_marked have "wip s' = wip (mem w)" "marked (pcs w t)"
          unfolding keeps_history_def by blast+
        with marked_flag [OF reach] show ?thesis by blast
      qed
    qed
    moreover have "halted s'" if "((pcs w)(t := pc')) u = Starting c SW_unmark" for u c
      using that move unmark_halted_step inv halted by (cases "u = t") (auto simp: flag_ok_def)
    ultimately show ?thesis by (auto simp: flag_ok_def)
  qed
  show "flag_ok w'" if "flag_ok w" "same_but_queues w w'" for w w' :: "'a world"
    using that by (simp add: flag_ok_def same_but_queues_def)
qed (simp_all add: flag_ok_def world_initial_def)

lemma guard_is_new:
  assumes "thread_move K t pc s s' (Read_guard q)"
  shows "\<not> guarded pc"
  using assms
proof (cases rule: thread_moveE)
  case (Guard a)
  then show ?thesis by (cases a; cases pc) (auto split: if_splits)
qed (cases pc; auto split: step_splits)+

definition guards_ok :: "'k world \<Rightarrow> bool" where
  "guards_ok w \<longleftrightarrow>
     (\<forall>t q. pcs w t = Read_guard q \<longrightarrow> q = current (mem w)) \<and>
     (\<forall>t. guarded (pcs w t) \<longrightarrow> abandoned (mem w) \<longrightarrow> halted (mem w))"

lemma guarded_active:
  assumes "N < 65536" "world_reach K N w" "guarded (pcs w t)"
  shows "active (mem w) \<noteq> 0"
proof
  assume "active (mem w) = 0"
  with active_counts [OF assms(1,2)] have "count_threads N registered (pcs w) = 0" by simp
  then have "t < N \<Longrightarrow> \<not> registered (pcs w t)" by (rule count_threads_zero)
  with assms(3) guarded_registered idle_beyond [OF assms(2), of t] show False by (cases "t < N") auto
qed

lemma guards_ok_move:
  assumes small: "N < 65536" and reach: "world_reach K N w" and inv: "guards_ok w"
    and move: "thread_move K t (pcs w t) (mem w) s' pc'" and u: "guarded (pcs w u)" "u \<noteq> t \<or> guarded pc'"
  shows "current s' = current (mem w) \<and> (abandoned s' \<longrightarrow> halted s')"
proof -
  have out: "\<not> writing (pcs w t)" using exclusion [OF small reach] u(1) by (auto simp: excluded_def)
  then have "\<not> publishes (mem w) (pcs w t) s' pc'" by (auto simp: publishes_def)
  with move_history [OF move] have keep: "keeps_history (mem w) (pcs w t) s' pc'" by blast
  with out guarded_active [OF small reach u(1)] have "abandoned s' \<longrightarrow> abandoned (mem w)"
    by (auto simp: keeps_history_def)
  moreover have "halted (mem w) \<longrightarrow> halted s'" using move_flags [OF move] by (simp add: flag_effect_def)
  ultimately show ?thesis using inv u(1) keep by (auto simp: guards_ok_def keeps_history_def)
qed

lemma guards_ok_reach:
  assumes "N < 65536" "world_reach K N w"
  shows "guards_ok w"
  using assms(2)
proof (rule world_invariant)
  show "guards_ok (put t (s', pc') w)"
    if reach: "world_reach K N w" and inv: "guards_ok w"
      and move: "thread_move K t (pcs w t) (mem w) s' pc'" for w :: "'a world" and t s' pc'
  proof -
    have guard: "(\<forall>q. ((pcs w)(t := pc')) u = Read_guard q \<longrightarrow> q = current s') \<and> (abandoned s' \<longrightarrow> halted s')"
      if u: "guarded (((pcs w)(t := pc')) u)" for u
    proof (cases "guarded (pcs w u)")
      case True
      have "\<not> guarded (pcs w t)" if "pc' = Read_guard q" for q using guard_is_new move that by blast
      with u guards_ok_move [OF assms(1) reach inv move True] inv True
      show ?thesis by (cases "u = t") (auto simp: guards_ok_def)
    next
      case False
      with u have "u = t" by (auto split: if_splits)
      with u False guarded_entered [OF move] flag_ok_reach [OF reach]
      show ?thesis by (auto simp: flag_ok_def)
    qed
    have "q = current s'" if "((pcs w)(t := pc')) u = Read_guard q" for u q
      using guard [of u] that by simp
    with guard show ?thesis by (simp add: guards_ok_def)
  qed
qed (simp_all add: guards_ok_def world_initial_def same_but_queues_def)

end
