(* ===== verification/Message_Wakeups.thy ===== *)
theory Message_Wakeups
  imports Message_Invariants
begin

text \<open>
  Wake-ups of the shared message. The threads' use of each of its two condition variables is an
  instance of the condition variable system; the interface \<open>condvar_user\<close> states what such a use
  must satisfy and derives the simulation once. On top of it stand the two protocols: a reader that
  sleeps although it could go on, and a writer that sleeps although the last active reader has left,
  always have a thread that is about to wake them.
\<close>

section \<open>Uses of a condition variable\<close>

text \<open>One step of the condition variable system made by thread \<open>t\<close>, or none.\<close>

definition cv_move :: "'k futex_kernel \<Rightarrow> tid \<Rightarrow> 'k futex \<Rightarrow> cv_client \<Rightarrow> 'k futex \<Rightarrow> cv_client \<Rightarrow> bool" where
  "cv_move K t c v c' v' \<longleftrightarrow>
     v' = v \<and> c' = c \<or>
     v = Cv_out \<and> (\<exists>ticket. v' = Cv_waiting ticket (Cv_spin CV_SPINS)) \<and> c' = c \<or>
     (\<exists>ticket pc. v = Cv_waiting ticket pc \<and>
        ((\<exists>pc'. condvar_wait_step K t ticket pc c = Some (c', Inl pc') \<and> v' = Cv_waiting ticket pc') \<or>
         condvar_wait_step K t ticket pc c = Some (c', Inr ()) \<and> v' = Cv_out)) \<or>
     v = Cv_out \<and> v' = Cv_notifying Cv_add \<and> c' = c \<or>
     (\<exists>pc. v = Cv_notifying pc \<and>
        ((\<exists>pc'. condvar_notify_step K WAKE_ALL pc c = (c', Inl pc') \<and> v' = Cv_notifying pc') \<or>
         condvar_notify_step K WAKE_ALL pc c = (c', Inr ()) \<and> v' = Cv_out))"

lemma cv_move_stay [simp]: "cv_move K t c v c v"
  by (simp add: cv_move_def)

lemma cv_move_starts [simp]:
  "cv_move K t c Cv_out c (Cv_waiting ticket (Cv_spin CV_SPINS))"
  "cv_move K t c Cv_out c (Cv_notifying Cv_add)"
  by (simp_all add: cv_move_def)

locale condvar_user =
  fixes K :: "'k futex_kernel"
    and N :: nat
    and cv_of :: "'k shared \<Rightarrow> 'k futex"
    and view :: "pc \<Rightarrow> cv_client"
  assumes user_initial: "world_initial K w \<Longrightarrow> kernel_asleep K (snd (cv_of (mem w))) = {}"
    and user_ready: "view (Ready r) = Cv_out"
    and user_moves: "thread_move K t pc s s' pc' \<Longrightarrow> cv_move K t (cv_of s) (view pc) (cv_of s') (view pc')"
    and user_interrupt: "queue_interrupt K w w' \<Longrightarrow> cv_of (mem w') = cv_of (mem w) \<or>
      (\<exists>t. cv_of (mem w') = (fst (cv_of (mem w)), kernel_interrupt K t (snd (cv_of (mem w)))))"
begin

definition cv_view :: "'k world \<Rightarrow> 'k cv_sys" where
  "cv_view w = \<lparr>cv_cell = cv_of (mem w), cv_clients = (\<lambda>t. view (pcs w t))\<rparr>"

lemma cv_view_move:
  assumes "t < N" "thread_move K t (pcs w t) (mem w) s' pc'"
  shows "cv_view (put t (s', pc') w) = cv_view w \<or> cv_step K N (cv_view w) (cv_view (put t (s', pc') w))"
proof -
  let ?s = "cv_view w"
  have cell: "cv_of (mem w) = cv_cell ?s" and client: "view (pcs w t) = cv_clients ?s t"
    by (simp_all add: cv_view_def)
  have new: "cv_view (put t (s', pc') w) =
      ?s\<lparr>cv_cell := cv_of s', cv_clients := (cv_clients ?s)(t := view pc')\<rparr>"
    by (auto simp: cv_view_def)
  have stay: "?s\<lparr>cv_cell := cv_cell ?s, cv_clients := (cv_clients ?s)(t := cv_clients ?s t)\<rparr> = ?s" by simp
  have keep: "?s\<lparr>cv_cell := cv_cell ?s, cv_clients := f\<rparr> = ?s\<lparr>cv_clients := f\<rparr>" for f by simp
  show ?thesis
    using user_moves [OF assms(2)] assms(1) unfolding cv_move_def new cell client
    by (elim disjE exE conjE)
      (auto simp: stay keep intro: cv_call_wait cv_waits cv_returns cv_call_notify cv_adds cv_notified)
qed

lemma cv_view_step:
  assumes "world_step K N w w'"
  shows "cv_view w' = cv_view w \<or> cv_step K N (cv_view w) (cv_view w')"
  using assms
proof (cases rule: world_step_cases)
  case (Move t s' pc')
  then show ?thesis using cv_view_move by blast
next
  case Interrupt
  then have "pcs w' = pcs w" using queue_interrupt_same by (auto simp: same_but_queues_def)
  with user_interrupt [OF Interrupt] consider "cv_view w' = cv_view w"
    | t where "cv_view w' = (cv_view w)\<lparr>cv_cell :=
        (fst (cv_cell (cv_view w)), kernel_interrupt K t (snd (cv_cell (cv_view w))))\<rparr>"
    by (auto simp: cv_view_def)
  then show ?thesis by cases (auto intro: cv_interrupt)
qed

sublocale simulation "world_initial K" "world_step K N" "world_reach K N"
    "cv_initial K" "cv_step K N" "cv_reach K N" cv_view
proof unfold_locales
  show "cv_initial K (cv_view w)" if "world_initial K w" for w
  proof -
    from that have "pcs w = (\<lambda>_. Ready Ret_unit)" by (simp add: world_initial_def)
    with user_initial [OF that] user_ready show ?thesis by (simp add: cv_initial_def cv_view_def)
  qed
  show "cv_view w' = cv_view w \<or> cv_step K N (cv_view w) (cv_view w')"
    if "world_reach K N w" "world_step K N w w'" for w w'
    using that(2) by (rule cv_view_step)
qed

text \<open>A sleeper's ticket is current, or a notifier is about to wake everyone.\<close>

lemma sleeper_attended:
  assumes "futex_laws K" "N \<le> WAKE_ALL" "world_reach K N w" "t \<in> kernel_asleep K (snd (cv_of (mem w)))"
  shows "\<exists>ticket. view (pcs w t) = Cv_waiting ticket Cv_asleep \<and>
    (fst (cv_of (mem w)) = ticket \<or> (\<exists>u < N. view (pcs w u) = Cv_notifying Cv_wake))"
proof -
  have "cv_inv K N (cv_view w)"
    using cv_inv_reach [OF assms(1,2)] sim_reach [OF assms(3)] by blast
  with assms(4) show ?thesis by (auto simp: cv_inv_def cv_view_def)
qed

end

section \<open>The two condition variables of a message\<close>

fun writer_view :: "pc \<Rightarrow> cv_client" where
  "writer_view (Reading q b (R_wait ticket pc)) = Cv_waiting ticket pc"
| "writer_view (Starting c (SW_kick ticket pc)) = Cv_notifying pc"
| "writer_view (Publishing sz p (P_notify q pc)) = Cv_notifying pc"
| "writer_view (Stopping (St_writers pc)) = Cv_notifying pc"
| "writer_view _ = Cv_out"

fun done_view :: "pc \<Rightarrow> cv_client" where
  "done_view (Starting c (SW_wait1 ticket pc)) = Cv_waiting ticket pc"
| "done_view (Starting c (SW_wait2 ticket pc)) = Cv_waiting ticket pc"
| "done_view (Reading q b (R_notify pc)) = Cv_notifying pc"
| "done_view (Releasing (Rel_notify pc)) = Cv_notifying pc"
| "done_view (Stopping (St_readers pc)) = Cv_notifying pc"
| "done_view _ = Cv_out"

lemma cv_cells_put [simp]:
  "writer_cell (put_mutex_cell c s) = writer_cell s" "writer_cell (put_writer_cell c s) = c"
  "writer_cell (put_done_cell c s) = writer_cell s" "writer_cell (put_flags f s) = writer_cell s"
  "writer_cell (put_readers r s) = writer_cell s"
  "done_cell (put_mutex_cell c s) = done_cell s" "done_cell (put_writer_cell c s) = done_cell s"
  "done_cell (put_done_cell c s) = c" "done_cell (put_flags f s) = done_cell s"
  "done_cell (put_readers r s) = done_cell s"
  by (simp_all add: writer_cell_def done_cell_def put_mutex_cell_def put_writer_cell_def put_done_cell_def
      put_flags_def put_readers_def)

lemma cv_cells_update [simp]:
  "writer_cell (s\<lparr>published := l\<rparr>) = writer_cell s" "done_cell (s\<lparr>published := l\<rparr>) = done_cell s"
  "writer_cell (s\<lparr>abandoned := a\<rparr>) = writer_cell s" "done_cell (s\<lparr>abandoned := a\<rparr>) = done_cell s"
  "writer_cell (s\<lparr>writer_kicks := n\<rparr>) = writer_cell s" "done_cell (s\<lparr>writer_kicks := n\<rparr>) = done_cell s"
  "writer_cell (s\<lparr>done_kicks := n\<rparr>) = writer_cell s" "done_cell (s\<lparr>done_kicks := n\<rparr>) = done_cell s"
  "writer_cell (s\<lparr>msg := (msg s)\<lparr>data := d\<rparr>\<rparr>) = writer_cell s"
  "done_cell (s\<lparr>msg := (msg s)\<lparr>data := d\<rparr>\<rparr>) = done_cell s"
  "writer_cell (s\<lparr>msg := (msg s)\<lparr>data_size := sz\<rparr>\<rparr>) = writer_cell s"
  "done_cell (s\<lparr>msg := (msg s)\<lparr>data_size := sz\<rparr>\<rparr>) = done_cell s"
  by (simp_all add: writer_cell_def done_cell_def)

lemma notify_writers_cells:
  assumes "notify_writers_step K pc s = (s', r)"
  shows "condvar_notify_step K WAKE_ALL pc (writer_cell s) = (writer_cell s', r)" "done_cell s' = done_cell s"
  using assms by (auto simp: notify_writers_step_def split: prod.splits)

lemma notify_done_cells:
  assumes "notify_done_step K pc s = (s', r)"
  shows "condvar_notify_step K WAKE_ALL pc (done_cell s) = (done_cell s', r)" "writer_cell s' = writer_cell s"
  using assms by (auto simp: notify_done_step_def split: prod.splits)

lemmas notify_cells = notify_writers_cells notify_done_cells

abbreviation cv_moves :: "'k futex_kernel \<Rightarrow> tid \<Rightarrow> pc \<Rightarrow> 'k shared \<Rightarrow> 'k shared \<Rightarrow> pc \<Rightarrow> bool" where
  "cv_moves K t pc s s' pc' \<equiv>
     cv_move K t (writer_cell s) (writer_view pc) (writer_cell s') (writer_view pc') \<and>
     cv_move K t (done_cell s) (done_view pc) (done_cell s') (done_view pc')"

lemma starting_cv_moves:
  assumes "thread_step K t b (Starting call sw) s = Some (s', pc')"
  shows "cv_moves K t (Starting call sw) s s' pc'"
  using assms
  by (cases sw) (auto simp: sw_while1_def cv_move_def split: step_splits dest: notify_cells)

lemma publishing_cv_moves:
  assumes "thread_step K t b (Publishing sz p pp) s = Some (s', pc')"
  shows "cv_moves K t (Publishing sz p pp) s s' pc'"
  using assms by (cases pp) (auto simp: cv_move_def Let_def split: step_splits dest: notify_cells)

lemma reading_cv_moves:
  assumes "thread_step K t b (Reading q block rp) s = Some (s', pc')"
  shows "cv_moves K t (Reading q block rp) s s' pc'"
  using assms by (cases rp) (auto simp: cv_move_def Let_def split: step_splits dest: notify_cells)

lemma releasing_cv_moves:
  assumes "thread_step K t b (Releasing rp) s = Some (s', pc')"
  shows "cv_moves K t (Releasing rp) s s' pc'"
  using assms by (cases rp) (auto simp: cv_move_def split: step_splits dest: notify_cells)

lemma stopping_cv_moves:
  assumes "thread_step K t b (Stopping sp) s = Some (s', pc')"
  shows "cv_moves K t (Stopping sp) s s' pc'"
  using assms by (cases sp) (auto simp: cv_move_def split: step_splits dest: notify_cells)

lemma target_cv_moves:
  assumes "thread_step K t b (Setting_target count tp) s = Some (s', pc')"
  shows "cv_moves K t (Setting_target count tp) s s' pc'"
  using assms by (cases tp) (auto split: step_splits)

lemma thread_cv_moves:
  assumes "thread_step K t b pc s = Some (s', pc')"
  shows "cv_moves K t pc s s' pc'"
proof (cases pc)
  case (Starting call sw)
  with assms show ?thesis using starting_cv_moves by blast
next
  case (Publishing sz p pp)
  with assms show ?thesis using publishing_cv_moves by blast
next
  case (Reading q block rp)
  with assms show ?thesis using reading_cv_moves by blast
next
  case (Releasing rp)
  with assms show ?thesis using releasing_cv_moves by blast
next
  case (Stopping sp)
  with assms show ?thesis using stopping_cv_moves by blast
next
  case (Setting_target count tp)
  with assms show ?thesis using target_cv_moves by blast
qed (use assms in \<open>auto split: step_splits\<close>)

lemma guard_cv_moves:
  "guard_step a pc s = Some (s', pc') \<Longrightarrow> cv_moves K t pc s s' pc'"
  by (cases a; cases pc) (auto split: if_splits)

lemma move_cv_moves:
  assumes "thread_move K t pc s s' pc'"
  shows "cv_moves K t pc s s' pc'"
  using assms
proof (cases rule: thread_moveE)
  case (Call r op)
  then show ?thesis by (cases op) simp_all
qed (blast dest: thread_cv_moves guard_cv_moves)+

interpretation wcv: condvar_user K N writer_cell writer_view
  for K :: "'k futex_kernel" and N
  by unfold_locales
    (auto simp: world_initial_def writer_cell_def queue_interrupt_def dest: move_cv_moves)

interpretation dcv: condvar_user K N done_cell done_view
  for K :: "'k futex_kernel" and N
  by unfold_locales
    (auto simp: world_initial_def done_cell_def queue_interrupt_def dest: move_cv_moves)

section \<open>Notifications and tickets\<close>

abbreviation kicks_writers :: "pc \<Rightarrow> bool" where
  "kicks_writers pc \<equiv> writer_view pc = Cv_notifying Cv_add"

abbreviation kicks_done :: "pc \<Rightarrow> bool" where
  "kicks_done pc \<equiv> done_view pc = Cv_notifying Cv_add"

text \<open>Every notification increments the word, and nothing else changes it.\<close>

definition counts_kicks :: "'k shared \<Rightarrow> pc \<Rightarrow> 'k shared \<Rightarrow> bool" where
  "counts_kicks s pc s' \<longleftrightarrow>
     writer_kicks s' = writer_kicks s + of_bool (kicks_writers pc) \<and>
     fst (writer_cell s') = fst (writer_cell s) + of_bool (kicks_writers pc) \<and>
     done_kicks s' = done_kicks s + of_bool (kicks_done pc) \<and>
     fst (done_cell s') = fst (done_cell s) + of_bool (kicks_done pc)"

lemma kicks_put [simp]:
  "writer_kicks (put_mutex_cell c s) = writer_kicks s" "done_kicks (put_mutex_cell c s) = done_kicks s"
  "writer_kicks (put_writer_cell c s) = writer_kicks s" "done_kicks (put_writer_cell c s) = done_kicks s"
  "writer_kicks (put_done_cell c s) = writer_kicks s" "done_kicks (put_done_cell c s) = done_kicks s"
  "writer_kicks (put_flags f s) = writer_kicks s" "done_kicks (put_flags f s) = done_kicks s"
  "writer_kicks (put_readers r s) = writer_kicks s" "done_kicks (put_readers r s) = done_kicks s"
  by (simp_all add: put_mutex_cell_def put_writer_cell_def put_done_cell_def put_flags_def put_readers_def)

lemma notify_writers_kick:
  assumes "notify_writers_step K pc s = (s', r)"
  shows "writer_kicks s' = writer_kicks s + of_bool (pc = Cv_add) \<and>
    fst (writer_cell s') = fst (writer_cell s) + of_bool (pc = Cv_add) \<and>
    done_kicks s' = done_kicks s \<and> done_cell s' = done_cell s"
  using assms by (cases pc; cases "writer_cell s") (auto simp: notify_writers_step_def)

lemma notify_done_kick:
  assumes "notify_done_step K pc s = (s', r)"
  shows "done_kicks s' = done_kicks s + of_bool (pc = Cv_add) \<and>
    fst (done_cell s') = fst (done_cell s) + of_bool (pc = Cv_add) \<and>
    writer_kicks s' = writer_kicks s \<and> writer_cell s' = writer_cell s"
  using assms by (cases pc; cases "done_cell s") (auto simp: notify_done_step_def)

lemma condvar_wait_word: "condvar_wait_step K t ticket pc c = Some (c', r) \<Longrightarrow> fst c' = fst c"
  by (cases c; cases pc) (auto split: if_splits prod.splits bool.splits)

lemmas kick_dests = notify_writers_kick notify_done_kick condvar_wait_word

lemma starting_kicks:
  "thread_step K t b (Starting call sw) s = Some (s', pc') \<Longrightarrow> counts_kicks s (Starting call sw) s'"
  by (cases sw) (auto simp: counts_kicks_def split: step_splits dest!: kick_dests)

lemma publishing_kicks:
  "thread_step K t b (Publishing sz p pp) s = Some (s', pc') \<Longrightarrow> counts_kicks s (Publishing sz p pp) s'"
  by (cases pp) (auto simp: counts_kicks_def Let_def split: step_splits dest!: kick_dests)

lemma reading_kicks:
  "thread_step K t b (Reading q block rp) s = Some (s', pc') \<Longrightarrow> counts_kicks s (Reading q block rp) s'"
  by (cases rp) (auto simp: counts_kicks_def Let_def split: step_splits dest!: kick_dests)

lemma releasing_kicks:
  "thread_step K t b (Releasing rp) s = Some (s', pc') \<Longrightarrow> counts_kicks s (Releasing rp) s'"
  by (cases rp) (auto simp: counts_kicks_def split: step_splits dest!: kick_dests)

lemma stopping_kicks:
  "thread_step K t b (Stopping sp) s = Some (s', pc') \<Longrightarrow> counts_kicks s (Stopping sp) s'"
  by (cases sp) (auto simp: counts_kicks_def split: step_splits dest!: kick_dests)

lemma target_kicks:
  "thread_step K t b (Setting_target count tp) s = Some (s', pc') \<Longrightarrow> counts_kicks s (Setting_target count tp) s'"
  by (cases tp) (auto simp: counts_kicks_def split: step_splits)

lemma thread_kicks:
  assumes "thread_step K t b pc s = Some (s', pc')"
  shows "counts_kicks s pc s'"
proof (cases pc)
  case (Starting call sw)
  with assms show ?thesis using starting_kicks by blast
next
  case (Publishing sz p pp)
  with assms show ?thesis using publishing_kicks by blast
next
  case (Reading q block rp)
  with assms show ?thesis using reading_kicks by blast
next
  case (Releasing rp)
  with assms show ?thesis using releasing_kicks by blast
next
  case (Stopping sp)
  with assms show ?thesis using stopping_kicks by blast
next
  case (Setting_target count tp)
  with assms show ?thesis using target_kicks by blast
qed (use assms in \<open>auto simp: counts_kicks_def split: step_splits\<close>)

lemma guard_kicks: "guard_step a pc s = Some (s', pc') \<Longrightarrow> counts_kicks s pc s'"
  by (cases a; cases pc) (auto simp: counts_kicks_def split: if_splits)

lemma move_kicks:
  assumes "thread_move K t pc s s' pc'"
  shows "counts_kicks s pc s'"
  using assms
proof (cases rule: thread_moveE)
  case (Call r op)
  then show ?thesis by (simp add: counts_kicks_def)
qed (blast dest: thread_kicks guard_kicks)+

text \<open>The words count the notifications.\<close>

definition words_count :: "'k shared \<Rightarrow> bool" where
  "words_count s \<longleftrightarrow>
     fst (writer_cell s) = of_nat (writer_kicks s) \<and> fst (done_cell s) = of_nat (done_kicks s)"

lemma words_count_reach:
  assumes "world_reach K N w"
  shows "words_count (mem w)"
  using assms
proof (rule world_invariant)
  show "words_count (mem (put t (s', pc') w))"
    if "words_count (mem w)" "thread_move K t (pcs w t) (mem w) s' pc'" for w :: "'a world" and t s' pc'
    using move_kicks [OF that(2)] that(1) by (simp add: words_count_def counts_kicks_def)
qed (simp_all add: words_count_def world_initial_def same_but_queues_def writer_cell_def done_cell_def)

text \<open>Only \<open>stop\<close> sets the stopped flag, and it then notifies both condition variables.\<close>

lemma halted_entered:
  assumes "thread_move K t pc s s' pc'" "halted s'" "\<not> halted s"
  shows "pc' = Stopping (St_writers Cv_add)"
  using assms(1)
proof (cases rule: thread_moveE)
  case (Call r op)
  with assms(2,3) show ?thesis by simp
next
  case (Access b)
  show ?thesis
  proof (cases pc)
    case (Starting call sw)
    then show ?thesis using Access assms(2,3)
      by (cases sw) (auto simp: flag_eqs flag_bits same_but_condvars_def split: step_splits dest!: notify_frame)
  next
    case (Publishing sz p pp)
    then show ?thesis using Access assms(2,3)
      by (cases pp) (auto simp: flag_eqs flag_bits same_but_condvars_def Let_def split: step_splits
          dest!: notify_frame)
  next
    case (Stopping sp)
    then show ?thesis using Access assms(2,3)
      by (cases sp) (auto simp: flag_eqs same_but_condvars_def split: step_splits dest!: notify_frame)
  qed (use Access assms(2,3) in \<open>auto simp: flag_eqs split: step_splits
      dest!: read_flags release_flags set_target_flags\<close>)
next
  case (Guard a)
  with assms(2,3) show ?thesis by (cases a; cases pc) (auto simp: flag_eqs split: if_splits)
qed

section \<open>Readers\<close>

text \<open>
  A blocked reader that last saw message \<open>q\<close> could go on: there is another message and no write in
  progress, or the message was stopped and there is nothing new to read.
\<close>

definition can_go :: "u64 \<Rightarrow> 'k shared \<Rightarrow> bool" where
  "can_go q s \<longleftrightarrow> current s \<noteq> q \<and> \<not> wip s \<and> \<not> halted s \<or> current s = q \<and> halted s"

lemma can_go_entered:
  assumes "thread_move K t pc s s' pc'" "can_go q s'" "\<not> can_go q s"
    and unmark: "\<And>c. pc = Starting c SW_unmark \<Longrightarrow> halted s"
  shows "kicks_writers pc'"
  using move_history [OF assms(1)]
proof
  assume "publishes s pc s' pc'"
  then show ?thesis by (auto simp: publishes_def)
next
  assume keep: "keeps_history s pc s' pc'"
  have mono: "halted s \<Longrightarrow> halted s'" using move_flags [OF assms(1)] by (simp add: flag_effect_def)
  show ?thesis
  proof (cases "halted s' \<and> \<not> halted s")
    case True
    with halted_entered [OF assms(1)] show ?thesis by simp
  next
    case False
    with keep mono assms(2,3) unmark show ?thesis unfolding can_go_def keeps_history_def by metis
  qed
qed

text \<open>What a reader's ticket tells.\<close>

fun ticket_ok :: "pc \<Rightarrow> 'k shared \<Rightarrow> bool \<Rightarrow> bool" where
  "ticket_ok (Reading q b (R_state ticket)) s pending \<longleftrightarrow> (\<exists>k \<le> writer_kicks s. ticket = of_nat k)"
| "ticket_ok (Reading q b (R_wait ticket pc)) s pending \<longleftrightarrow>
     (\<exists>k \<le> writer_kicks s. ticket = of_nat k \<and> (k = writer_kicks s \<longrightarrow> pending \<or> \<not> can_go q s))"
| "ticket_ok pc s pending \<longleftrightarrow> True"

lemma ticket_ok_mono:
  assumes "ticket_ok pc s p" "writer_kicks s \<le> writer_kicks s'"
    and "\<And>q. writer_kicks s' = writer_kicks s \<Longrightarrow> p \<or> \<not> can_go q s \<Longrightarrow> p' \<or> \<not> can_go q s'"
  shows "ticket_ok pc s' p'"
  using assms
proof (cases "(pc, s, p)" rule: ticket_ok.cases)
  case (2 q b ticket wp s0 p0)
  with assms(1) obtain k where k: "k \<le> writer_kicks s" "ticket = of_nat k"
      "k = writer_kicks s \<Longrightarrow> p \<or> \<not> can_go q s" by auto
  have "k = writer_kicks s' \<Longrightarrow> p' \<or> \<not> can_go q s'" using k(1,3) assms(2,3) by auto
  with 2 k(1,2) assms(2) show ?thesis by (auto intro!: exI [of _ k])
qed (auto intro: order_trans)

lemma ticket_ok_own:
  assumes "thread_move K t pc s s' pc'" "words_count s" "ticket_ok pc s p" "\<not> kicks_writers pc"
    and "p \<Longrightarrow> p'"
  shows "ticket_ok pc' s' p'"
  using assms(1)
proof (cases rule: thread_moveE)
  case (Call r op)
  then show ?thesis by (cases op) auto
next
  case (Access b)
  show ?thesis
  proof (cases pc)
    case (Reading q block rp)
    show ?thesis
    proof (cases rp)
      case R_ticket
      with Reading Access assms(2) show ?thesis by (auto simp: words_count_def condvar_value_def)
    next
      case (R_state ticket)
      with Reading Access assms(3) show ?thesis
        by (auto simp: Let_def can_go_def split: if_splits)
    next
      case (R_wait ticket wp)
      with Reading Access obtain c where s': "s' = put_writer_cell c s"
        and pc': "pc' = Reading q block R_ticket \<or> (\<exists>wp'. pc' = Reading q block (R_wait ticket wp'))"
        by (auto split: option.splits prod.splits sum.splits)
      have "can_go q s' = can_go q s" "writer_kicks s' = writer_kicks s"
        by (simp_all add: s' can_go_def current_eq flag_eqs)
      with assms(3,5) Reading R_wait pc' show ?thesis by auto
    qed (use Reading Access in \<open>auto simp: Let_def split: step_splits\<close>)
  qed (use Access in \<open>auto split: step_splits\<close>)
next
  case (Guard a)
  then show ?thesis by (cases a; cases pc) (auto split: if_splits)
qed

lemma kicker_not_reading:
  assumes "thread_move K t pc s s' (Reading q b rp)"
  shows "\<not> kicks_writers pc"
  using assms
proof (cases rule: thread_moveE)
  case (Access b')
  then obtain rp' where "pc = Reading q b rp'" by (cases pc) (auto split: step_splits)
  then show ?thesis by (cases rp') auto
next
  case (Guard a)
  then show ?thesis by (cases a; cases pc) (auto split: if_splits)
qed simp

definition readers_tickets_ok :: "nat \<Rightarrow> 'k world \<Rightarrow> bool" where
  "readers_tickets_ok N w \<longleftrightarrow>
     (\<forall>t. ticket_ok (pcs w t) (mem w) (\<exists>u < N. kicks_writers (pcs w u)))"

lemma pending_stays:
  assumes "\<exists>u < N. P (f u)" "\<not> P (f t) \<or> P pc'"
  shows "\<exists>u < N. P ((f(t := pc')) u)"
  using assms by (metis fun_upd_apply)

lemma readers_tickets_reach:
  assumes "world_reach K N w"
  shows "readers_tickets_ok N w"
  using assms
proof (rule world_invariant)
  show "readers_tickets_ok N (put t (s', pc') w)"
    if reach: "world_reach K N w" and inv: "readers_tickets_ok N w" and t: "t < N"
      and move: "thread_move K t (pcs w t) (mem w) s' pc'" for w :: "'a world" and t s' pc'
  proof -
    let ?p = "\<exists>u < N. kicks_writers (pcs w u)" and ?p' = "\<exists>u < N. kicks_writers (((pcs w)(t := pc')) u)"
    note kicks = move_kicks [OF move, unfolded counts_kicks_def]
    have stays: "?p'" if "?p" "\<not> kicks_writers (pcs w t)"
      using that by (rule pending_stays [of N kicks_writers, OF _ disjI1])
    have other: "ticket_ok (pcs w u) s' ?p'" for u
    proof (rule ticket_ok_mono)
      show "ticket_ok (pcs w u) (mem w) ?p" using inv by (simp add: readers_tickets_ok_def)
      show "writer_kicks (mem w) \<le> writer_kicks s'" using kicks by simp
      fix q
      assume "writer_kicks s' = writer_kicks (mem w)" and before: "?p \<or> \<not> can_go q (mem w)"
      with kicks have quiet: "\<not> kicks_writers (pcs w t)" by auto
      have "halted (mem w)" if "pcs w t = Starting c SW_unmark" for c
        using flag_ok_reach [OF reach] that by (auto simp: flag_ok_def)
      with can_go_entered [OF move] have "can_go q s' \<Longrightarrow> \<not> can_go q (mem w) \<Longrightarrow> kicks_writers pc'" by blast
      with before stays quiet t show "?p' \<or> \<not> can_go q s'" by (metis fun_upd_same)
    qed
    have own: "ticket_ok pc' s' ?p'"
    proof (cases "kicks_writers (pcs w t)")
      case False
      from inv have "ticket_ok (pcs w t) (mem w) ?p" by (simp add: readers_tickets_ok_def)
      with False stays show ?thesis
        by (intro ticket_ok_own [OF move words_count_reach [OF reach]])
    next
      case True
      with move kicker_not_reading have "pc' \<noteq> Reading q b rp" for q b rp by blast
      then show ?thesis by (cases "(pc', s', ?p')" rule: ticket_ok.cases) auto
    qed
    show ?thesis using other own by (simp add: readers_tickets_ok_def)
  qed
  show "readers_tickets_ok N w'" if inv: "readers_tickets_ok N w" and same: "same_but_queues w w'"
    for w w' :: "'a world"
  proof -
    from same have "can_go q (mem w') = can_go q (mem w)" for q
      by (simp add: can_go_def same_but_queues_def)
    with same have "ticket_ok pc (mem w') p" if "ticket_ok pc (mem w) p" for pc p
      using ticket_ok_mono [OF that, of "mem w'" p] by (simp add: same_but_queues_def)
    moreover have "pcs w' = pcs w" using same by (simp add: same_but_queues_def)
    ultimately show ?thesis using inv by (simp add: readers_tickets_ok_def)
  qed
qed (simp add: readers_tickets_ok_def world_initial_def)

lemma ticket_current:
  assumes "words_count s" "writer_kicks s < 2 ^ 32" "k \<le> writer_kicks s" "fst (writer_cell s) = of_nat k"
  shows "k = writer_kicks s"
  using assms by (metis le_less_trans unat_of_nat_u32 words_count_def)

text \<open>A reader asleep that could go on has a notifier.\<close>

lemma reader_attended:
  assumes "futex_laws K" "N \<le> WAKE_ALL" "world_reach K N w" "writer_kicks (mem w) < 2 ^ 32"
    and "t \<in> kernel_asleep K (writer_queue (mem w))"
  shows "\<exists>q b ticket. pcs w t = Reading q b (R_wait ticket Cv_asleep) \<and>
    (can_go q (mem w) \<longrightarrow> (\<exists>u < N. \<exists>np. writer_view (pcs w u) = Cv_notifying np))"
proof -
  from wcv.sleeper_attended [OF assms(1-3), of t] assms(5)
  obtain ticket where view: "writer_view (pcs w t) = Cv_waiting ticket Cv_asleep"
    and tk: "fst (writer_cell (mem w)) = ticket \<or> (\<exists>u < N. writer_view (pcs w u) = Cv_notifying Cv_wake)"
    by (auto simp: writer_cell_def)
  from view obtain q b where pc: "pcs w t = Reading q b (R_wait ticket Cv_asleep)"
    by (cases "pcs w t" rule: writer_view.cases) auto
  from readers_tickets_reach [OF assms(3)] pc obtain k where k: "k \<le> writer_kicks (mem w)" "ticket = of_nat k"
    "k = writer_kicks (mem w) \<longrightarrow> (\<exists>u < N. kicks_writers (pcs w u)) \<or> \<not> can_go q (mem w)"
    by (fastforce simp: readers_tickets_ok_def dest: spec [of _ t])
  with tk ticket_current [OF words_count_reach [OF assms(3)] assms(4) k(1)] pc show ?thesis by blast
qed

section \<open>Writers\<close>

text \<open>The threads that are going to notify \<open>reader_done_condvar\<close>.\<close>

definition will_notify :: "pc \<Rightarrow> bool" where
  "will_notify pc \<longleftrightarrow> kicks_done pc \<or> (\<exists>np. pc = Stopping (St_writers np))"

lemma will_notify_stays:
  assumes "thread_move K t pc s s' pc'" "will_notify pc" "\<not> kicks_done pc"
  shows "will_notify pc'"
proof -
  from assms(2,3) obtain np where np: "pc = Stopping (St_writers np)" by (auto simp: will_notify_def)
  from assms(1) show ?thesis
  proof (cases rule: thread_moveE)
    case (Access b)
    with np show ?thesis by (auto simp: will_notify_def split: step_splits)
  next
    case (Guard a)
    with np show ?thesis by (cases a) auto
  qed (use np in simp)
qed

lemma registration_left:
  assumes "thread_move K t pc s s' pc'" "registered pc" "\<not> registered pc'"
  shows "active s' = 0 \<longrightarrow> will_notify pc'"
  using assms(1)
proof (cases rule: thread_moveE)
  case (Access b)
  show ?thesis
  proof (cases pc)
    case (Reading q block rp)
    with Access assms(2,3) show ?thesis
      by (cases rp) (auto simp: will_notify_def Let_def split: step_splits)
  next
    case (Releasing rp)
    with Access assms(2,3) show ?thesis
      by (cases rp) (auto simp: will_notify_def active_eq packed_simps split: step_splits
          dest!: update_step_done simp: update_step_no_panic)
  qed (use Access assms(2) in auto)
next
  case (Guard a)
  with assms(2,3) show ?thesis by (cases a; cases pc) (auto split: if_splits)
qed (use assms(2) in simp)

text \<open>The writer that waits for the active readers could go on.\<close>

definition idle_or_halted :: "'k shared \<Rightarrow> bool" where
  "idle_or_halted s \<longleftrightarrow> active s = 0 \<or> halted s"

lemma idle_entered:
  assumes small: "N < 65536" and reach: "world_reach K N w" and t: "t < N"
    and move: "thread_move K t (pcs w t) (mem w) s' pc'"
    and "active s' = 0" "active (mem w) \<noteq> 0"
  shows "will_notify pc'"
proof (cases "registered (pcs w t) \<and> \<not> registered pc'")
  case True
  with registration_left [OF move] assms(5) show ?thesis by blast
next
  case False
  have ok: "pc_ok (pcs w t)" and count: "unat (active (mem w)) = count_threads N registered (pcs w)"
    using active_counts [OF small reach] by blast+
  have "unat (active s') = count_threads N registered ((pcs w)(t := pc'))"
    using count_move [OF t small count] move_active [OF move ok] by blast
  with assms(5) have zero: "count_threads N registered ((pcs w)(t := pc')) = 0" by simp
  from count_threads_zero [OF this t] False have "registered (pcs w t) = registered pc'" by auto
  with move_active [OF move ok] assms(5,6) show ?thesis by (simp add: counts_registration_def)
qed

lemma idle_or_halted_entered:
  assumes "N < 65536" "world_reach K N w" "t < N" "thread_move K t (pcs w t) (mem w) s' pc'"
    and "idle_or_halted s'" "\<not> idle_or_halted (mem w)"
  shows "will_notify pc'"
proof (cases "active s' = 0")
  case True
  with assms idle_entered show ?thesis by (auto simp: idle_or_halted_def)
next
  case False
  with assms(5,6) halted_entered [OF assms(4)] show ?thesis by (auto simp: idle_or_halted_def will_notify_def)
qed

text \<open>
  The ticket with which a writer is going to wait, or waits, and whether what it has read since it took
  the ticket should have kept it from waiting.
\<close>

fun done_wait :: "sw_pc \<Rightarrow> 'k shared \<Rightarrow> (u32 \<times> bool) option" where
  "done_wait (SW_stopped1 ticket) s = Some (ticket, False)"
| "done_wait (SW_kick ticket pc) s = Some (ticket, halted s)"
| "done_wait (SW_wait1 ticket pc) s = Some (ticket, halted s)"
| "done_wait (SW_rereaders ticket) s = Some (ticket, False)"
| "done_wait (SW_active ticket) s = Some (ticket, False)"
| "done_wait (SW_stopped2 ticket) s = Some (ticket, active s = 0)"
| "done_wait (SW_wait2 ticket pc) s = Some (ticket, idle_or_halted s)"
| "done_wait _ s = None"

text \<open>A ticket is a former value of the word, and a current one that should not be waited for is about to expire.\<close>

definition done_ticket_ok :: "'k shared \<Rightarrow> bool \<Rightarrow> u32 \<times> bool \<Rightarrow> bool" where
  "done_ticket_ok s pending tg \<longleftrightarrow>
     (\<exists>k \<le> done_kicks s. fst tg = of_nat k \<and> (k = done_kicks s \<longrightarrow> pending \<or> \<not> snd tg))"

fun done_ok :: "pc \<Rightarrow> 'k shared \<Rightarrow> bool \<Rightarrow> bool" where
  "done_ok (Starting c sw) s pending \<longleftrightarrow> pred_option (done_ticket_ok s pending) (done_wait sw s)"
| "done_ok pc s pending \<longleftrightarrow> True"

lemma done_ticket_mono:
  assumes "done_ticket_ok s p (ticket, g)" "done_kicks s \<le> done_kicks s'"
    and "done_kicks s' = done_kicks s \<Longrightarrow> p \<or> \<not> g \<Longrightarrow> p' \<or> \<not> g'"
  shows "done_ticket_ok s' p' (ticket, g')"
proof -
  from assms(1) obtain k where k: "k \<le> done_kicks s" "ticket = of_nat k" "k = done_kicks s \<longrightarrow> p \<or> \<not> g"
    by (auto simp: done_ticket_ok_def)
  have "k = done_kicks s' \<Longrightarrow> p' \<or> \<not> g'" using k(1,3) assms(2,3) by auto
  with k(1,2) assms(2) show ?thesis unfolding done_ticket_ok_def by (auto intro!: exI [of _ k])
qed

lemma done_ok_mono:
  assumes "done_ok pc s p" "done_kicks s \<le> done_kicks s'"
    and "done_kicks s' = done_kicks s \<Longrightarrow> p \<or> \<not> idle_or_halted s \<Longrightarrow> p' \<or> \<not> idle_or_halted s'"
    and "done_kicks s' = done_kicks s \<Longrightarrow> p \<or> active s \<noteq> 0 \<Longrightarrow> p' \<or> active s' \<noteq> 0"
    and "done_kicks s' = done_kicks s \<Longrightarrow> p \<or> \<not> halted s \<Longrightarrow> p' \<or> \<not> halted s'"
  shows "done_ok pc s' p'"
proof (cases pc)
  case (Starting c sw)
  with assms(1) show ?thesis
    using assms(2-) by (cases sw) (auto elim!: done_ticket_mono)
qed auto

lemma fresh_ticket:
  assumes "words_count s"
  shows "done_ticket_ok s p (condvar_value (done_cell s), False)"
  using assms by (auto simp: words_count_def condvar_value_def done_ticket_ok_def)

lemma done_ok_own_starting:
  assumes step: "thread_step K t b (Starting c sw) s = Some (s', pc')" and "words_count s"
    and ok: "done_ok (Starting c sw) s p" and pp: "p \<Longrightarrow> p'"
  shows "done_ok pc' s' p'"
proof -
  have keep: "done_ticket_ok s' p' (ticket, g')"
    if "done_ticket_ok s p (ticket, g)" "done_kicks s' = done_kicks s" "g' \<Longrightarrow> g" for ticket g g'
    using that(1) by (rule done_ticket_mono) (use that pp in auto)
  show ?thesis
  proof (cases sw)
    case (SW_kick ticket np)
    with step obtain r where kick: "notify_writers_step K np s = (s', r)"
      and pc': "(\<exists>np'. pc' = Starting c (SW_kick ticket np')) \<or> pc' = Starting c (SW_wait1 ticket (Cv_spin CV_SPINS))"
      by (auto split: prod.splits sum.splits)
    have "halted s' = halted s" "done_kicks s' = done_kicks s"
      using kick by (auto simp: notify_writers_step_def flag_eqs split: prod.splits)
    with keep [of ticket "halted s" "halted s'"] ok SW_kick pc' show ?thesis by auto
  next
    case (SW_wait1 ticket wp)
    with step obtain c' where s': "s' = put_done_cell c' s"
      and pc': "pc' = Starting c SW_reticket1 \<or> (\<exists>wp'. pc' = Starting c (SW_wait1 ticket wp'))"
      by (auto split: option.splits prod.splits sum.splits)
    have "halted s' = halted s" "done_kicks s' = done_kicks s" by (simp_all add: s' flag_eqs)
    with keep [of ticket "halted s" "halted s'"] ok SW_wait1 pc' show ?thesis by auto
  next
    case (SW_wait2 ticket wp)
    with step obtain c' where s': "s' = put_done_cell c' s"
      and pc': "pc' = Starting c SW_ticket2 \<or> (\<exists>wp'. pc' = Starting c (SW_wait2 ticket wp'))"
      by (auto split: option.splits prod.splits sum.splits)
    have "idle_or_halted s' = idle_or_halted s" "done_kicks s' = done_kicks s"
      by (simp_all add: s' idle_or_halted_def active_eq flag_eqs)
    with keep [of ticket "idle_or_halted s" "idle_or_halted s'"] ok SW_wait2 pc' show ?thesis by auto
  next
    case (SW_active ticket)
    with step ok show ?thesis
      by (auto simp: word_gt_0 split: if_splits write_call.splits intro: keep)
  qed (use step ok fresh_ticket [OF assms(2)] in
      \<open>auto simp: sw_while1_def idle_or_halted_def split: step_splits intro: keep\<close>)
qed

lemma done_ok_own:
  assumes "thread_move K t pc s s' pc'" "words_count s" "done_ok pc s p" "p \<Longrightarrow> p'"
  shows "done_ok pc' s' p'"
  using assms(1)
proof (cases rule: thread_moveE)
  case (Call r op)
  then show ?thesis by (cases op) auto
next
  case (Access b)
  show ?thesis
  proof (cases pc)
    case (Starting c sw)
    with Access assms(2-4) done_ok_own_starting show ?thesis by blast
  qed (use Access in \<open>auto split: step_splits\<close>)
next
  case (Guard a)
  then show ?thesis by (cases a; cases pc) (auto split: if_splits)
qed

lemma done_kicker_not_starting:
  assumes "thread_move K t pc s s' (Starting c sw)"
  shows "\<not> kicks_done pc"
  using assms
proof (cases rule: thread_moveE)
  case (Access b)
  then obtain c' sw' where "pc = Starting c' sw'" by (cases pc) (auto split: step_splits)
  then show ?thesis by (cases sw') auto
next
  case (Guard a)
  then show ?thesis by (cases a; cases pc) (auto split: if_splits)
qed simp

definition writer_tickets_ok :: "nat \<Rightarrow> 'k world \<Rightarrow> bool" where
  "writer_tickets_ok N w \<longleftrightarrow> (\<forall>t. done_ok (pcs w t) (mem w) (\<exists>u < N. will_notify (pcs w u)))"

lemma writer_tickets_move:
  assumes small: "N < 65536" and reach: "world_reach K N w" and inv: "writer_tickets_ok N w" and t: "t < N"
    and move: "thread_move K t (pcs w t) (mem w) s' pc'"
  shows "writer_tickets_ok N (put t (s', pc') w)"
proof -
  let ?p = "\<exists>u < N. will_notify (pcs w u)" and ?p' = "\<exists>u < N. will_notify (((pcs w)(t := pc')) u)"
  note kicks = move_kicks [OF move, unfolded counts_kicks_def]
  have entered: "?p'" if "will_notify pc'" using that t by auto
  have stays: "?p'" if "?p" "\<not> kicks_done (pcs w t)"
    using that(1) by (rule pending_stays [of N will_notify]) (use will_notify_stays [OF move] that(2) in blast)
  have quiet: "\<not> kicks_done (pcs w t)" if "done_kicks s' = done_kicks (mem w)" using that kicks by auto
  have other: "done_ok (pcs w u) s' ?p'" for u
  proof (rule done_ok_mono)
    show "done_ok (pcs w u) (mem w) ?p" using inv by (simp add: writer_tickets_ok_def)
    show "done_kicks (mem w) \<le> done_kicks s'" using kicks by simp
    show "?p' \<or> \<not> idle_or_halted s'" if "done_kicks s' = done_kicks (mem w)" "?p \<or> \<not> idle_or_halted (mem w)"
      using that stays quiet entered idle_or_halted_entered [OF small reach t move] by blast
    show "?p' \<or> active s' \<noteq> 0" if "done_kicks s' = done_kicks (mem w)" "?p \<or> active (mem w) \<noteq> 0"
      using that stays quiet entered idle_entered [OF small reach t move] by blast
    show "?p' \<or> \<not> halted s'" if "done_kicks s' = done_kicks (mem w)" "?p \<or> \<not> halted (mem w)"
    proof (cases "halted (mem w)")
      case False
      then have "halted s' \<Longrightarrow> will_notify pc'" using halted_entered [OF move] by (simp add: will_notify_def)
      with entered show ?thesis by blast
    qed (use that stays quiet in blast)
  qed
  have "done_ok pc' s' ?p'"
  proof (cases "kicks_done (pcs w t)")
    case False
    from inv have "done_ok (pcs w t) (mem w) ?p" by (simp add: writer_tickets_ok_def)
    with False stays show ?thesis by (intro done_ok_own [OF move words_count_reach [OF reach]])
  next
    case True
    with move done_kicker_not_starting have "pc' \<noteq> Starting c sw" for c sw by blast
    then show ?thesis by (cases "(pc', s', ?p')" rule: done_ok.cases) auto
  qed
  with other show ?thesis by (simp add: writer_tickets_ok_def)
qed

lemma writer_tickets_reach:
  assumes "N < 65536" "world_reach K N w"
  shows "writer_tickets_ok N w"
  using assms(2)
proof (rule world_invariant)
  show "writer_tickets_ok N w" if "world_initial K w" for w :: "'a world"
    using that by (simp add: writer_tickets_ok_def world_initial_def)
  show "writer_tickets_ok N (put t (s', pc') w)"
    if "world_reach K N w" "writer_tickets_ok N w" "t < N" "thread_move K t (pcs w t) (mem w) s' pc'"
    for w :: "'a world" and t s' pc'
    using assms(1) that by (rule writer_tickets_move)
  show "writer_tickets_ok N w'" if inv: "writer_tickets_ok N w" and same: "same_but_queues w w'"
    for w w' :: "'a world"
  proof -
    from same have "done_ok pc (mem w') p" if "done_ok pc (mem w) p" for pc p
      using done_ok_mono [OF that, of "mem w'" p] by (simp add: same_but_queues_def idle_or_halted_def)
    moreover have "pcs w' = pcs w" using same by (simp add: same_but_queues_def)
    ultimately show ?thesis using inv by (simp add: writer_tickets_ok_def)
  qed
qed

lemma done_ticket_current:
  assumes "words_count s" "done_kicks s < 2 ^ 32" "k \<le> done_kicks s" "fst (done_cell s) = of_nat k"
  shows "k = done_kicks s"
  using assms by (metis le_less_trans unat_of_nat_u32 words_count_def)

text \<open>A writer asleep that could go on has a notifier.\<close>

lemma done_sleeper_attended:
  assumes "futex_laws K" "N < 65536" "world_reach K N w" "done_kicks (mem w) < 2 ^ 32"
    and "t \<in> kernel_asleep K (done_queue (mem w))"
  shows "\<exists>c sw ticket g. pcs w t = Starting c sw \<and> done_wait sw (mem w) = Some (ticket, g) \<and>
    sw \<in> {SW_wait1 ticket Cv_asleep, SW_wait2 ticket Cv_asleep} \<and>
    (g \<longrightarrow> (\<exists>u < N. will_notify (pcs w u) \<or> done_view (pcs w u) = Cv_notifying Cv_wake))"
proof -
  have N: "N \<le> WAKE_ALL" using assms(2) by (simp add: WAKE_ALL_def)
  from dcv.sleeper_attended [OF assms(1) N assms(3), of t] assms(5)
  obtain ticket where view: "done_view (pcs w t) = Cv_waiting ticket Cv_asleep"
    and tk: "fst (done_cell (mem w)) = ticket \<or> (\<exists>u < N. done_view (pcs w u) = Cv_notifying Cv_wake)"
    by (auto simp: done_cell_def)
  from view obtain c sw g where pc: "pcs w t = Starting c sw" and sw: "done_wait sw (mem w) = Some (ticket, g)"
    "sw \<in> {SW_wait1 ticket Cv_asleep, SW_wait2 ticket Cv_asleep}"
    by (cases "pcs w t" rule: done_view.cases) auto
  from writer_tickets_reach [OF assms(2,3)] have "done_ok (pcs w t) (mem w) (\<exists>u < N. will_notify (pcs w u))"
    by (simp add: writer_tickets_ok_def)
  with pc sw(1) have "done_ticket_ok (mem w) (\<exists>u < N. will_notify (pcs w u)) (ticket, g)" by simp
  then obtain k where k: "k \<le> done_kicks (mem w)" "ticket = of_nat k"
    "k = done_kicks (mem w) \<longrightarrow> (\<exists>u < N. will_notify (pcs w u)) \<or> \<not> g"
    by (auto simp: done_ticket_ok_def)
  with tk done_ticket_current [OF words_count_reach [OF assms(3)] assms(4) k(1)] pc sw show ?thesis by blast
qed

lemma writer_attended:
  assumes "futex_laws K" "N < 65536" "world_reach K N w" "done_kicks (mem w) < 2 ^ 32"
    and "t \<in> kernel_asleep K (done_queue (mem w))" "pcs w t = Starting c (SW_wait2 ticket wp)"
    and "idle_or_halted (mem w)"
  shows "\<exists>u < N. will_notify (pcs w u) \<or> done_view (pcs w u) = Cv_notifying Cv_wake"
  using done_sleeper_attended [OF assms(1-5)] assms(6,7) by auto

end
