(* ===== verification/Message_Guarantees.thy ===== *)
theory Message_Guarantees
  imports Message_Wakeups
begin

text \<open>
  The guarantees of the shared message under concurrency, and executable schedules of the interleaved
  model that show them at work.
\<close>

section \<open>Schedules\<close>

datatype event =
    Ev_call tid operation
  | Ev_step tid
  | Ev_use tid guard_action
  | Ev_doze tid               \<comment> \<open>all iterations of the spinning loop of a \<open>wait\<close> that finds its ticket\<close>

text \<open>A waiter whose ticket is current, after its spinning loop.\<close>

fun dozed :: "pc \<Rightarrow> 'k shared \<Rightarrow> pc option" where
  "dozed (Reading q b (R_wait ticket (Cv_spin n))) s =
     (if condvar_value (writer_cell s) = ticket then Some (Reading q b (R_wait ticket (Cv_spin 0))) else None)"
| "dozed (Starting c (SW_wait1 ticket (Cv_spin n))) s =
     (if condvar_value (done_cell s) = ticket then Some (Starting c (SW_wait1 ticket (Cv_spin 0))) else None)"
| "dozed (Starting c (SW_wait2 ticket (Cv_spin n))) s =
     (if condvar_value (done_cell s) = ticket then Some (Starting c (SW_wait2 ticket (Cv_spin 0))) else None)"
| "dozed pc s = None"

fun event_tid :: "event \<Rightarrow> tid" where
  "event_tid (Ev_call t op) = t"
| "event_tid (Ev_step t) = t"
| "event_tid (Ev_use t a) = t"
| "event_tid (Ev_doze t) = t"

fun world_move :: "'k futex_kernel \<Rightarrow> event \<Rightarrow> 'k world \<Rightarrow> 'k world option" where
  "world_move K (Ev_call t op) w =
     (case pcs w t of Ready _ \<Rightarrow> Some (put t (mem w, entry op) w) | _ \<Rightarrow> None)"
| "world_move K (Ev_step t) w = map_option (\<lambda>r. put t r w) (thread_step K t False (pcs w t) (mem w))"
| "world_move K (Ev_use t a) w = map_option (\<lambda>r. put t r w) (guard_step a (pcs w t) (mem w))"
| "world_move K (Ev_doze t) w = map_option (\<lambda>pc. put t (mem w, pc) w) (dozed (pcs w t) (mem w))"

fun world_moves :: "'k futex_kernel \<Rightarrow> nat \<Rightarrow> event list \<Rightarrow> 'k world \<Rightarrow> 'k world option" where
  "world_moves K N [] w = Some w"
| "world_moves K N (e # es) w =
     (if event_tid e < N
      then (case world_move K e w of None \<Rightarrow> None | Some w' \<Rightarrow> world_moves K N es w') else None)"

definition fresh_world :: "nat \<Rightarrow> tid list world" where
  "fresh_world n =
     \<lparr>mem = \<lparr>msg = \<lparr>sequence_and_flags = 0, data_size = 0, readers_state = 0, writer_mutex = 0,
                    writer_condvar = 0, reader_done_condvar = 0, data = replicate n 0\<rparr>,
             mutex_queue = [], writer_queue = [], done_queue = [], published = [], abandoned = False,
             writer_kicks = 0, done_kicks = 0\<rparr>,
      pcs = (\<lambda>_. Ready Ret_unit)\<rparr>"

lemma fresh_world_reach: "n < 2 ^ 64 \<Longrightarrow> world_reach fifo_kernel N (fresh_world n)"
  by (rule world_reach_initial) (simp add: world_initial_def fresh_world_def fifo_kernel_def)

text \<open>Spinning changes nothing but the counter of the loop.\<close>

lemma spin_step:
  assumes "fst c = ticket"
  shows "condvar_wait_step K t ticket (Cv_spin (Suc n)) c = Some (c, Inl (Cv_spin n))"
  using assms by (cases c) simp

lemma put_put [simp]: "put t r (put t r' w) = put t r w"
  by (simp add: put_def)

lemma put_cells_same [simp]:
  "put_writer_cell (writer_cell s) s = s" "put_done_cell (done_cell s) s = s"
  by (simp_all add: put_writer_cell_def writer_cell_def put_done_cell_def done_cell_def)

lemma spin_down:
  assumes steps: "\<And>n. thread_step K t False (f (Suc n)) s = Some (s, f n)"
    and "world_reach K N w" "t < N" "mem w = s" "pcs w t = f n"
  shows "world_reach K N (put t (s, f 0) w)"
  using assms(2,4,5)
proof (induction n arbitrary: w)
  case 0
  then have "put t (s, f 0) w = w" by (simp add: put_def fun_upd_idem)
  with 0 show ?case by simp
next
  case (Suc n)
  have "world_step K N w (put t (s, f n) w)"
    using access [of t N K False w "(s, f n)"] steps [of n] Suc.prems assms(3) by simp
  with Suc.prems(1) have "world_reach K N (put t (s, f n) w)" by (rule world_reach_step)
  then have "world_reach K N (put t (s, f 0) (put t (s, f n) w))" by (rule Suc.IH) simp_all
  then show ?case by simp
qed

lemma doze_reach:
  assumes "world_reach K N w" "t < N" "dozed (pcs w t) (mem w) = Some pc"
  shows "world_reach K N (put t (mem w, pc) w)"
  using assms(3)
proof (cases "(pcs w t, mem w)" rule: dozed.cases)
  case (1 q b ticket n s)
  with assms(3) have tk: "fst (writer_cell (mem w)) = ticket"
    and pc: "pc = Reading q b (R_wait ticket (Cv_spin 0))"
    by (auto simp: condvar_value_def split: if_splits)
  have "thread_step K t False (Reading q b (R_wait ticket (Cv_spin (Suc m)))) (mem w) =
      Some (mem w, Reading q b (R_wait ticket (Cv_spin m)))" for m
    by (simp add: spin_step [OF tk])
  from spin_down [of K t "\<lambda>m. Reading q b (R_wait ticket (Cv_spin m))", OF this assms(1,2) refl, of n] 1 pc
  show ?thesis by simp
next
  case (2 c ticket n s)
  with assms(3) have tk: "fst (done_cell (mem w)) = ticket"
    and pc: "pc = Starting c (SW_wait1 ticket (Cv_spin 0))"
    by (auto simp: condvar_value_def split: if_splits)
  have "thread_step K t False (Starting c (SW_wait1 ticket (Cv_spin (Suc m)))) (mem w) =
      Some (mem w, Starting c (SW_wait1 ticket (Cv_spin m)))" for m
    by (simp add: spin_step [OF tk])
  from spin_down [of K t "\<lambda>m. Starting c (SW_wait1 ticket (Cv_spin m))", OF this assms(1,2) refl, of n] 2 pc
  show ?thesis by simp
next
  case (3 c ticket n s)
  with assms(3) have tk: "fst (done_cell (mem w)) = ticket"
    and pc: "pc = Starting c (SW_wait2 ticket (Cv_spin 0))"
    by (auto simp: condvar_value_def split: if_splits)
  have "thread_step K t False (Starting c (SW_wait2 ticket (Cv_spin (Suc m)))) (mem w) =
      Some (mem w, Starting c (SW_wait2 ticket (Cv_spin m)))" for m
    by (simp add: spin_step [OF tk])
  from spin_down [of K t "\<lambda>m. Starting c (SW_wait2 ticket (Cv_spin m))", OF this assms(1,2) refl, of n] 3 pc
  show ?thesis by simp
qed auto

lemma world_move_reach:
  assumes "world_reach K N w" "event_tid e < N" "world_move K e w = Some w'"
  shows "world_reach K N w'"
proof (cases e)
  case (Ev_call t op)
  with assms show ?thesis by (auto split: pc.splits intro: world_reach_step call_op)
next
  case (Ev_step t)
  with assms show ?thesis by (auto intro: world_reach_step access)
next
  case (Ev_use t a)
  with assms show ?thesis by (auto intro: world_reach_step use_guard)
next
  case (Ev_doze t)
  with assms show ?thesis by (auto intro: doze_reach)
qed

lemma world_moves_reach:
  "world_moves K N es w = Some w' \<Longrightarrow> world_reach K N w \<Longrightarrow> world_reach K N w'"
  by (induction es arbitrary: w) (auto split: if_splits option.splits dest: world_move_reach)

lemma world_moves_append:
  "world_moves K N (es @ es') w = (case world_moves K N es w of None \<Rightarrow> None | Some w' \<Rightarrow> world_moves K N es' w')"
  by (induction es arbitrary: w) (auto split: option.splits)

lemma replicate_numeral: "replicate (numeral k) x = x # replicate (pred_numeral k) x"
  by (simp add: numeral_eq_Suc)

lemmas run_simps = replicate_numeral UNLOCKED_def LOCKED_def CONTENDED_def fresh_world_def fifo_kernel_def word_ops spin_iteration_def
   get_sequence_state_def get_reader_state_def SequenceState_from_def mask_numerals shift_defs
   mutex_cell_def put_mutex_cell_def writer_cell_def put_writer_cell_def done_cell_def put_done_cell_def
   put_flags_def put_readers_def notify_writers_step_def notify_done_step_def urs_attempt_def sw_while1_def
   published_packed_def next_sequence_def SequenceState_to_packed_def Let_def put_def condvar_value_def
   get_target_consumed_def WAKE_ALL_def CV_SPINS_def capacity_def
text \<open>Thread 0 writes the byte 1; thread 1 takes a read guard; thread 0 starts a second write and waits.\<close>

definition write_once :: "event list" where
  "write_once = Ev_call 0 (Op_write_slice [1]) # replicate 16 (Ev_step 0)"

definition reading_schedule :: "event list" where
  "reading_schedule =
     write_once @ Ev_call 1 (Op_read 0 True) # replicate 5 (Ev_step 1)
     @ Ev_call 0 Op_write # replicate 8 (Ev_step 0)"

text \<open>
  Thread 1 sees message 1 and is preempted; thread 0 takes a write guard, stores 9 and drops the
  guard; thread 1 registers; a second write of thread 0 finds it active; thread 2 stops the message,
  thread 0 withdraws the writing flag, and thread 1 gets its guard.
\<close>

definition torn_schedule :: "event list" where
  "torn_schedule =
     write_once @ Ev_call 1 (Op_read 0 True) # replicate 2 (Ev_step 1)
     @ Ev_call 0 Op_write # replicate 7 (Ev_step 0)
     @ [Ev_use 0 (Store 0 9), Ev_use 0 Drop_write_guard, Ev_step 0]
     @ replicate 2 (Ev_step 1)
     @ Ev_call 0 Op_write # replicate 7 (Ev_step 0)
     @ [Ev_call 2 Op_stop, Ev_step 2, Ev_step 0, Ev_step 0, Ev_step 1]"

text \<open>
  Thread 1 holds a read guard, thread 0 waits for it with the writing flag set, thread 2 waits for
  the flag. Thread 3 stops the message, which wakes both; thread 2 is first, still sees the flag and
  goes back to sleep; thread 0 withdraws the flag and returns; thread 1 drops its guard.
\<close>

definition stranded_schedule :: "event list" where
  "stranded_schedule =
     write_once @ Ev_call 1 (Op_read 0 True) # replicate 5 (Ev_step 1)
     @ Ev_call 0 Op_write # replicate 8 (Ev_step 0)
     @ Ev_call 2 (Op_read 0 True) # replicate 2 (Ev_step 2)
     @ Ev_call 3 Op_stop # replicate 5 (Ev_step 3)
     @ replicate 3 (Ev_step 2) @ [Ev_doze 2, Ev_step 2]
     @ replicate 6 (Ev_step 0)
     @ Ev_use 1 Drop_read_guard # replicate 4 (Ev_step 1)"

text \<open>Thread 1 sleeps in \<open>read\<close>; thread 0 has published and is about to notify.\<close>

definition sleeping_reader_schedule :: "event list" where
  "sleeping_reader_schedule =
     Ev_call 1 (Op_read 0 True) # replicate 2 (Ev_step 1) @ [Ev_doze 1, Ev_step 1]
     @ Ev_call 0 (Op_write_slice [1]) # replicate 13 (Ev_step 0)"

text \<open>Thread 0 sleeps in \<open>start_write\<close>; thread 1, the last reader, has released its guard and is about to notify.\<close>

definition sleeping_writer_schedule :: "event list" where
  "sleeping_writer_schedule =
     reading_schedule @ [Ev_doze 0, Ev_step 0, Ev_use 1 Drop_read_guard, Ev_step 1, Ev_step 1]"

text \<open>
  Writers wait for one consumer. Thread 0, about to write a second message, has just read the counters,
  when thread 1, the consumer, releases its guard and notifies; thread 0 then takes its ticket, judges
  by the counters it read before, and goes to sleep; thread 1 waits for the second message.
\<close>

definition deadlock_schedule :: "event list" where
  "deadlock_schedule =
     Ev_call 3 (Op_set_target 1) # replicate 4 (Ev_step 3) @ Ev_call 3 Op_add_reader # replicate 2 (Ev_step 3)
     @ write_once
     @ Ev_call 1 (Op_read 0 True) # replicate 5 (Ev_step 1)
     @ Ev_call 0 (Op_write_slice [2]) # replicate 4 (Ev_step 0)
     @ Ev_use 1 Drop_read_guard # replicate 4 (Ev_step 1)
     @ replicate 4 (Ev_step 0) @ [Ev_doze 0, Ev_step 0]
     @ Ev_call 1 (Op_read 1 True) # replicate 2 (Ev_step 1) @ [Ev_doze 1, Ev_step 1]"

definition outcome_of :: "event list \<Rightarrow> tid list world" where
  "outcome_of es = the (world_moves fifo_kernel 4 es (fresh_world 1))"

lemma outcome_reach:
  assumes "\<exists>w. world_moves fifo_kernel 4 es (fresh_world 1) = Some w"
  shows "world_reach fifo_kernel 4 (outcome_of es)"
proof -
  from assms have "world_moves fifo_kernel 4 es (fresh_world 1) = Some (outcome_of es)"
    by (auto simp: outcome_of_def)
  then show ?thesis by (rule world_moves_reach) (simp add: fresh_world_reach)
qed

lemma reading_outcome:
  "world_reach fifo_kernel 4 (outcome_of reading_schedule)"
  "pcs (outcome_of reading_schedule) 0 = Starting By_guard (SW_wait2 0 (Cv_spin 1000))"
  "pcs (outcome_of reading_schedule) 1 = Read_guard 1"
  "data (msg (mem (outcome_of reading_schedule))) = [1]"
  "data_size (msg (mem (outcome_of reading_schedule))) = 1"
  "published (mem (outcome_of reading_schedule)) = [(1, [1])]"
  "\<not> abandoned (mem (outcome_of reading_schedule))"
  "reader_done_condvar (msg (mem (outcome_of reading_schedule))) = 0"
proof -
  show "world_reach fifo_kernel 4 (outcome_of reading_schedule)"
    by (rule outcome_reach) (simp add: reading_schedule_def write_once_def run_simps)
qed (simp_all add: outcome_of_def reading_schedule_def write_once_def run_simps)

lemma torn_outcome:
  "world_reach fifo_kernel 4 (outcome_of torn_schedule)"
  "pcs (outcome_of torn_schedule) 1 = Read_guard 1"
  "data (msg (mem (outcome_of torn_schedule))) = [9]"
  "data_size (msg (mem (outcome_of torn_schedule))) = 1"
  "published (mem (outcome_of torn_schedule)) = [(1, [1])]"
proof -
  show "world_reach fifo_kernel 4 (outcome_of torn_schedule)"
    by (rule outcome_reach) (simp add: torn_schedule_def write_once_def run_simps)
qed (simp_all add: outcome_of_def torn_schedule_def write_once_def run_simps)

lemma stranded_outcome:
  "world_reach fifo_kernel 4 (outcome_of stranded_schedule)"
  "pcs (outcome_of stranded_schedule) 2 = Reading 0 True (R_wait 2 Cv_asleep)"
  "pcs (outcome_of stranded_schedule) = (\<lambda>_. Ready Ret_unit)
     (0 := Ready (Ret_sequence None), 2 := Reading 0 True (R_wait 2 Cv_asleep))"
  "writer_queue (mem (outcome_of stranded_schedule)) = [2]"
  "sequence_and_flags (msg (mem (outcome_of stranded_schedule))) = 9223372036854775809"
proof -
  show "world_reach fifo_kernel 4 (outcome_of stranded_schedule)"
    by (rule outcome_reach) (simp add: stranded_schedule_def write_once_def run_simps)
qed (auto simp: outcome_of_def stranded_schedule_def write_once_def run_simps)

lemma deadlock_outcome:
  "world_reach fifo_kernel 4 (outcome_of deadlock_schedule)"
  "pcs (outcome_of deadlock_schedule) = (\<lambda>_. Ready Ret_unit)
     (0 := Starting (By_slice [2]) (SW_wait1 1 Cv_asleep), 1 := Reading 1 True (R_wait 2 Cv_asleep))"
  "writer_queue (mem (outcome_of deadlock_schedule)) = [1]"
  "done_queue (mem (outcome_of deadlock_schedule)) = [0]"
  "sequence_and_flags (msg (mem (outcome_of deadlock_schedule))) = 1"
  "get_reader_state (msg (mem (outcome_of deadlock_schedule))) =
     \<lparr>target_read = 1, consumers = 1, active_readers = 0, data_consumed = 1\<rparr>"
proof -
  show "world_reach fifo_kernel 4 (outcome_of deadlock_schedule)"
    by (rule outcome_reach) (simp add: deadlock_schedule_def write_once_def run_simps)
qed (auto simp: outcome_of_def deadlock_schedule_def write_once_def run_simps)

lemma sleeping_reader_outcome:
  "world_reach fifo_kernel 4 (outcome_of sleeping_reader_schedule)"
  "pcs (outcome_of sleeping_reader_schedule) 1 = Reading 0 True (R_wait 0 Cv_asleep)"
  "writer_queue (mem (outcome_of sleeping_reader_schedule)) = [1]"
  "writer_kicks (mem (outcome_of sleeping_reader_schedule)) = 0"
  "sequence_and_flags (msg (mem (outcome_of sleeping_reader_schedule))) = 1"
proof -
  show "world_reach fifo_kernel 4 (outcome_of sleeping_reader_schedule)"
    by (rule outcome_reach) (simp add: sleeping_reader_schedule_def run_simps)
qed (auto simp: outcome_of_def sleeping_reader_schedule_def run_simps)

lemma sleeping_writer_outcome:
  "world_reach fifo_kernel 4 (outcome_of sleeping_writer_schedule)"
  "pcs (outcome_of sleeping_writer_schedule) 0 = Starting By_guard (SW_wait2 0 Cv_asleep)"
  "done_queue (mem (outcome_of sleeping_writer_schedule)) = [0]"
  "done_kicks (mem (outcome_of sleeping_writer_schedule)) = 0"
  "active_readers (get_reader_state (msg (mem (outcome_of sleeping_writer_schedule)))) = 0"
proof -
  note schedule = sleeping_writer_schedule_def reading_schedule_def write_once_def
  show "world_reach fifo_kernel 4 (outcome_of sleeping_writer_schedule)"
    by (rule outcome_reach) (simp add: schedule run_simps)
qed (auto simp: outcome_of_def sleeping_writer_schedule_def reading_schedule_def write_once_def run_simps)

section \<open>Properties\<close>

text \<open>
  C1: No data race on the payload. With fewer than 65536 threads, in every interleaving of their
  sequentially consistent accesses and for every behaviour of the futex system call: while a thread holds a read guard (up to
  the decrement that releases it), no thread is storing to the buffer or to \<open>data_size\<close> through
  \<open>write_slice\<close>, a write guard or \<open>publish_write\<close>; and at most one thread does so at any time.
\<close>

theorem readers_exclude_writers:
  assumes "N < 65536" "world_reach K N w"
  shows "(guarded (pcs w t) \<longrightarrow> \<not> writing (pcs w u)) \<and>
    (writing (pcs w t) \<and> writing (pcs w u) \<longrightarrow> t = u)"
  using exclusion [OF assms] writer_unique [OF assms(2)] by (auto simp: excluded_def)

theorem readers_exclude_writers_witness:
  "guarded (pcs (outcome_of reading_schedule) 1) \<and> \<not> writing (pcs (outcome_of reading_schedule) 0)"
  using readers_exclude_writers [of 4 fifo_kernel "outcome_of reading_schedule" 1 0] reading_outcome by simp

text \<open>
  C4: Integrity of reads. With fewer than 65536 threads, in every interleaving: a read guard with sequence number \<open>q\<close> shows exactly the payload that was
  published last, and \<open>q\<close> is the number it was published under, unless the message was stopped after
  a write was given up; and showing it never panics.
\<close>

theorem read_guard_shows_last_message:
  assumes "N < 65536" "world_reach K N w" "pcs w t = Read_guard q"
    and "\<not> (abandoned (mem w) \<and> is_stopped (msg (mem w)))"
  shows "\<exists>payload. last_message (mem w) = (q, payload) \<and> data_ref (msg (mem w)) = Inr payload"
proof -
  have guarded: "guarded (pcs w t)" using assms(3) by simp
  with guards_ok_reach [OF assms(1,2)] assms(3)
  have q: "q = current (mem w)" and "abandoned (mem w) \<longrightarrow> halted (mem w)"
    unfolding guards_ok_def by blast+
  with assms(4) have fresh: "\<not> abandoned (mem w)" by (simp add: is_stopped_def)
  from exclusion [OF assms(1,2)] guarded have "\<forall>u. \<not> writing (pcs w u)"
    by (auto simp: excluded_def)
  with settled_reach [OF assms(2)] fresh
  have "take (unat (data_size (msg (mem w)))) (data (msg (mem w))) = snd (last_message (mem w))"
    by (simp add: settled_def)
  moreover have "unat (data_size (msg (mem w))) \<le> length (data (msg (mem w)))"
    using buffer_invariant [OF assms(2)] by (simp add: buffer_ok_def)
  moreover have "fst (last_message (mem w)) = q"
    using numbered_last [OF publication_numbers [OF assms(2)]] q by simp
  ultimately show ?thesis by (cases "last_message (mem w)") (simp add: data_ref_def)
qed

theorem read_guard_shows_last_message_witness:
  "pcs (outcome_of reading_schedule) 1 = Read_guard 1 \<and>
   (\<exists>payload. last_message (mem (outcome_of reading_schedule)) = (1, payload) \<and>
      data_ref (msg (mem (outcome_of reading_schedule))) = Inr payload)"
  using read_guard_shows_last_message [of 4 fifo_kernel "outcome_of reading_schedule" 1 1] reading_outcome
  by simp

text \<open>
  C8: A live read guard is stable. With fewer than 65536 threads, no step of any thread changes the payload, its size or the sequence
  number while some thread holds a read guard before and after the step.
\<close>

theorem read_guard_is_stable:
  assumes "N < 65536" "world_reach K N w" "world_step K N w w'"
    and "guarded (pcs w t)" "guarded (pcs w' t)"
  shows "data (msg (mem w')) = data (msg (mem w)) \<and> data_size (msg (mem w')) = data_size (msg (mem w)) \<and>
    current_sequence (msg (mem w')) = current_sequence (msg (mem w))"
  using assms(3)
proof (cases rule: world_step_cases)
  case (Move u s' pc')
  have "\<not> writing (pcs w u)" using exclusion [OF assms(1,2)] assms(4) by (auto simp: excluded_def)
  then have "same_buffer (mem w) s'" using move_buffer [OF Move(2)] by (auto simp: buffer_effect_def)
  moreover have "current s' = current (mem w)"
    using guards_ok_move [OF assms(1,2) guards_ok_reach [OF assms(1,2)] Move(2) assms(4)] assms(5) Move(3)
    by (auto split: if_splits)
  ultimately show ?thesis using Move(3) by (simp add: current_sequence_def)
next
  case Interrupt
  then show ?thesis
    using queue_interrupt_same by (fastforce simp: same_but_queues_def current_sequence_def)
qed

definition after_one_spin :: "tid list world" where
  "after_one_spin = put 0 (mem (outcome_of reading_schedule), Starting By_guard (SW_wait2 0 (Cv_spin 999)))
     (outcome_of reading_schedule)"

lemma one_spin: "world_step fifo_kernel 4 (outcome_of reading_schedule) after_one_spin"
proof -
  have "fst (done_cell (mem (outcome_of reading_schedule))) = 0"
    using reading_outcome(8) by (simp add: done_cell_def)
  from spin_step [OF this, of fifo_kernel 0 999]
  have "thread_step fifo_kernel 0 False (pcs (outcome_of reading_schedule) 0) (mem (outcome_of reading_schedule)) =
      Some (mem (outcome_of reading_schedule), Starting By_guard (SW_wait2 0 (Cv_spin 999)))"
    using reading_outcome(2) by simp
  then show ?thesis unfolding after_one_spin_def by (rule access [rotated]) simp
qed

theorem read_guard_is_stable_witness:
  "guarded (pcs (outcome_of reading_schedule) 1) \<and>
   data (msg (mem after_one_spin)) = data (msg (mem (outcome_of reading_schedule)))"
  using read_guard_is_stable [OF _ reading_outcome(1) one_spin, of 1] reading_outcome(3)
  by (simp add: after_one_spin_def)

text \<open>
  C21: The shared memory stays well-formed in every interleaving. The stored size never exceeds the
  capacity, so showing the payload never panics, whoever asks and whenever; no step changes the
  capacity; the mutex word has one of its three values, and it is \<open>UNLOCKED\<close> exactly when no thread
  owns the mutex.
\<close>

theorem memory_stays_well_formed:
  assumes "world_reach K N w" "world_step K N w w'"
  shows "wf_message (msg (mem w')) \<and> (\<exists>payload. data_ref (msg (mem w')) = Inr payload) \<and>
    capacity (msg (mem w')) = capacity (msg (mem w)) \<and>
    writer_mutex (msg (mem w')) \<in> {UNLOCKED, LOCKED, CONTENDED} \<and>
    (writer_mutex (msg (mem w')) = UNLOCKED \<longleftrightarrow> (\<forall>t. \<not> owns_mutex (pcs w' t)))"
proof -
  have reach: "world_reach K N w'" using assms by (rule world_reach_step)
  have "wf_message (msg (mem w'))"
    using buffer_invariant [OF reach] by (simp add: buffer_ok_def wf_message_def)
  moreover from this have "\<exists>payload. data_ref (msg (mem w')) = Inr payload" using data_ref_wf by blast
  moreover have "mutex_inv (lock_view w')" using wl.sim_reach [OF reach] by (rule mutex_inv_reach)
  moreover have "length (data (msg (mem w'))) = length (data (msg (mem w)))"
    using assms(2)
  proof (cases rule: world_step_cases)
    case (Move t s' pc')
    then show ?thesis using move_buffer [OF Move(2)] by (simp add: buffer_effect_def)
  next
    case Interrupt
    then show ?thesis using queue_interrupt_same [OF Interrupt] by (simp add: same_but_queues_def)
  qed
  ultimately show ?thesis
    unfolding capacity_def mutex_inv_def lock_view_def mutex_cell_def owns_mutex_def by simp blast
qed

theorem memory_stays_well_formed_witness:
  "wf_message (msg (mem after_one_spin)) \<and>
   capacity (msg (mem after_one_spin)) = capacity (msg (mem (outcome_of reading_schedule)))"
  using memory_stays_well_formed [OF reading_outcome(1) one_spin] by simp

text \<open>
  C18: The counter of active readers is exact. With fewer than 65536 threads it equals the number of
  threads that registered in \<open>read\<close> and have not unregistered or released their guard, so the
  subtractions never wrap around and a guard that is alive keeps it above zero.
\<close>

theorem active_readers_exact:
  assumes "N < 65536" "world_reach K N w"
  shows "unat (active_readers (get_reader_state (msg (mem w)))) = card {t. t < N \<and> registered (pcs w t)} \<and>
    (registered (pcs w t) \<longrightarrow> active_readers (get_reader_state (msg (mem w))) \<noteq> 0)"
proof -
  have count: "unat (active (mem w)) = count_threads N registered (pcs w)"
    using active_counts [OF assms] by blast
  have "registered (pcs w t) \<Longrightarrow> t < N"
    using idle_beyond [OF assms(2), of t] by (cases "t < N") auto
  then have "registered (pcs w t) \<Longrightarrow> 0 < count_threads N registered (pcs w)"
    using count_threads_pos [of t N registered "pcs w"] by blast
  then have "registered (pcs w t) \<Longrightarrow> active (mem w) \<noteq> 0" using count by auto
  with count show ?thesis by (simp add: count_threads_alt)
qed

theorem active_readers_exact_witness:
  "registered (pcs (outcome_of reading_schedule) 1) \<and>
   active_readers (get_reader_state (msg (mem (outcome_of reading_schedule)))) \<noteq> 0"
  using active_readers_exact [of 4 fifo_kernel "outcome_of reading_schedule" 1] reading_outcome by simp

text \<open>
  C7: Publications are numbered without gaps or duplicates. The \<open>i\<close>-th message published, by whichever
  thread, carries the \<open>(i + 1)\<close>-st sequence number, \<open>i + 1\<close> itself as long as the 62-bit counter does
  not wrap, and the current sequence number is that of the last one.
\<close>

theorem publications_numbered:
  assumes "world_reach K N w" "length (published (mem w)) < 2 ^ 62"
  shows "map fst (published (mem w)) = map (\<lambda>i. of_nat (Suc i)) [0..<length (published (mem w))] \<and>
    current_sequence (msg (mem w)) = of_nat (length (published (mem w)))"
proof -
  from publication_numbers [OF assms(1)]
  have "current (mem w) = (next_sequence ^^ length (published (mem w))) 0"
    "map fst (published (mem w)) = map (\<lambda>i. (next_sequence ^^ Suc i) 0) [0..<length (published (mem w))]"
    by (simp_all add: numbered_def del: funpow.simps)
  moreover have "map (\<lambda>i. (next_sequence ^^ Suc i) 0) [0..<length (published (mem w))] =
      map (\<lambda>i. of_nat (Suc i)) [0..<length (published (mem w))]"
    using assms(2) by (intro map_cong refl, subst sequence_iterates) auto
  ultimately show ?thesis using sequence_iterates [OF assms(2)] by (simp add: current_sequence_def)
qed

theorem publications_numbered_witness:
  "length (published (mem (outcome_of reading_schedule))) < 2 ^ 62 \<and>
   current_sequence (msg (mem (outcome_of reading_schedule))) = 1"
  using publications_numbered [OF reading_outcome(1)] reading_outcome(6) by simp

text \<open>
  C38: A write that is given up and then stopped can be seen. There is an interleaving after which a
  thread holds a read guard for message 1, published as the byte 1, and the guard shows the byte 9 that
  a dropped write guard left in the buffer.
\<close>

theorem abandoned_write_becomes_visible:
  "\<exists>w. world_reach fifo_kernel 4 w \<and> pcs w 1 = Read_guard 1 \<and>
     published (mem w) = [(1, [1])] \<and> data_ref (msg (mem w)) = Inr [9]"
  using torn_outcome by (intro exI [of _ "outcome_of torn_schedule"]) (simp add: data_ref_def)

text \<open>
  C37: \<open>stop\<close> can leave a reader asleep with nobody left to wake it. There is an interleaving after which a thread sleeps in
  a blocking \<open>read\<close> although the message is stopped, an unseen message is available and no write is in
  progress, every other thread has returned from its call, and none holds a guard: the writer that
  withdraws its writing flag in \<open>start_write\<close> notifies no one.
\<close>

theorem stop_strands_reader:
  "\<exists>w. world_reach fifo_kernel 4 w \<and> 2 \<in> kernel_asleep fifo_kernel (writer_queue (mem w)) \<and>
     (\<exists>ticket. pcs w = (\<lambda>_. Ready Ret_unit)
        (0 := Ready (Ret_sequence None), 2 := Reading 0 True (R_wait ticket Cv_asleep))) \<and>
     is_stopped (msg (mem w)) \<and> has_new_data 0 (msg (mem w)) \<and>
     \<not> writing_in_progress (get_sequence_state (msg (mem w)))"
  using stranded_outcome
  by (intro exI [of _ "outcome_of stranded_schedule"])
    (auto simp: fifo_kernel_def is_stopped_def has_new_data_def get_sequence_state_def SequenceState_from_def
      mask_numerals)

text \<open>
  C17: A writer and its reader can sleep for ever. There is an interleaving after which the only
  consumer has released the last message, so that nothing holds back the writer, no reader is active
  and the message is not stopped; yet the writer sleeps in the first loop of \<open>start_write\<close>, the reader
  sleeps in \<open>read\<close> until the writer publishes, and no thread in a call can make a step: \<open>start_write\<close> takes
  its first ticket after it has read the counters.
\<close>

theorem writer_and_reader_deadlock:
  "\<exists>w. world_reach fifo_kernel 4 w \<and>
     (\<exists>i j. pcs w = (\<lambda>_. Ready Ret_unit)
        (0 := Starting (By_slice [2]) (SW_wait1 i Cv_asleep), 1 := Reading 1 True (R_wait j Cv_asleep))) \<and>
     \<not> unread (msg (mem w)) \<and> active_readers (get_reader_state (msg (mem w))) = 0 \<and>
     \<not> is_stopped (msg (mem w)) \<and>
     (\<forall>t spurious. thread_step fifo_kernel t spurious (pcs w t) (mem w) = None)"
proof (intro exI [of _ "outcome_of deadlock_schedule"] conjI allI)
  let ?w = "outcome_of deadlock_schedule"
  show "\<exists>i j. pcs ?w = (\<lambda>_. Ready Ret_unit)
      (0 := Starting (By_slice [2]) (SW_wait1 i Cv_asleep), 1 := Reading 1 True (R_wait j Cv_asleep))"
    using deadlock_outcome(2) by blast
  show "\<not> unread (msg (mem ?w))" "active_readers (get_reader_state (msg (mem ?w))) = 0"
    using deadlock_outcome(6) by (simp_all add: unread_iff get_target_consumed_def)
  show "\<not> is_stopped (msg (mem ?w))"
    using deadlock_outcome(5) by (simp add: is_stopped_def get_sequence_state_def SequenceState_from_def mask_numerals)
  show "thread_step fifo_kernel t spurious (pcs ?w t) (mem ?w) = None" for t spurious
    using deadlock_outcome(3,4) by (simp add: deadlock_outcome(2) done_cell_def writer_cell_def fifo_kernel_def)
qed (rule deadlock_outcome(1))

text \<open>
  C9: No reader sleeps through a publication, or through a stop after which it has nothing to read. If a
  thread is asleep in the kernel inside \<open>read\<close>, then it sleeps on a ticket of \<open>writer_condvar\<close>. If in
  addition the message is not stopped, carries a number the thread has not seen and no write is in
  progress, or the message is stopped and carries the number the thread has seen, then some thread is
  inside \<open>writer_condvar.notify_all\<close> and has not yet woken the sleepers. A stopped message with a number
  the thread has not seen is no such case: there a reader can be left asleep (\<open>stop_strands_reader\<close>). For
  at most \<open>WAKE_ALL\<close> threads, and as long as \<open>writer_condvar\<close> has been notified fewer than \<open>2 ^ 32\<close> times
  in all, so that its word has not wrapped around.
\<close>

theorem reader_not_forgotten:
  assumes "futex_laws K" "N \<le> WAKE_ALL" "world_reach K N w" "writer_kicks (mem w) < 2 ^ 32"
    and "t \<in> kernel_asleep K (writer_queue (mem w))"
  shows "\<exists>last_seen block ticket. pcs w t = Reading last_seen block (R_wait ticket Cv_asleep) \<and>
    (has_new_data last_seen (msg (mem w)) \<and> \<not> is_stopped (msg (mem w)) \<and>
       \<not> writing_in_progress (get_sequence_state (msg (mem w))) \<or>
     \<not> has_new_data last_seen (msg (mem w)) \<and> is_stopped (msg (mem w)) \<longrightarrow>
       (\<exists>u < N. \<exists>np. writer_view (pcs w u) = Cv_notifying np))"
  using reader_attended [OF assms] by (auto simp: can_go_def has_new_data_def is_stopped_def)

theorem reader_not_forgotten_witness:
  "1 \<in> kernel_asleep fifo_kernel (writer_queue (mem (outcome_of sleeping_reader_schedule))) \<and>
   has_new_data 0 (msg (mem (outcome_of sleeping_reader_schedule))) \<and>
   (\<exists>u < 4. \<exists>np. writer_view (pcs (outcome_of sleeping_reader_schedule) u) = Cv_notifying np)"
proof -
  have asleep: "1 \<in> kernel_asleep fifo_kernel (writer_queue (mem (outcome_of sleeping_reader_schedule)))"
    using sleeping_reader_outcome(3) by (simp add: fifo_kernel_def)
  have state: "has_new_data 0 (msg (mem (outcome_of sleeping_reader_schedule)))"
    "\<not> is_stopped (msg (mem (outcome_of sleeping_reader_schedule)))"
    "\<not> writing_in_progress (get_sequence_state (msg (mem (outcome_of sleeping_reader_schedule))))"
    using sleeping_reader_outcome(5)
    by (simp_all add: has_new_data_def is_stopped_def get_sequence_state_def SequenceState_from_def mask_numerals)
  from reader_not_forgotten [OF futex_laws_fifo _ sleeping_reader_outcome(1) _ asleep]
    sleeping_reader_outcome(2,4) asleep state
  show ?thesis by (simp add: WAKE_ALL_def)
qed

text \<open>
  C10: No writer sleeps once the readers are gone. If a thread is asleep in the kernel inside the second
  waiting loop of \<open>start_write\<close> although no reader is active, or although the message is stopped, then
  some thread is about to notify \<open>reader_done_condvar\<close>: the reader that left last, or \<open>stop\<close>. For fewer
  than 65536 threads, and as long as \<open>reader_done_condvar\<close> has been notified fewer than \<open>2 ^ 32\<close> times.
\<close>

theorem writer_not_forgotten:
  assumes "futex_laws K" "N < 65536" "world_reach K N w" "done_kicks (mem w) < 2 ^ 32"
    and "t \<in> kernel_asleep K (done_queue (mem w))" "pcs w t = Starting call (SW_wait2 ticket wp)"
    and "active_readers (get_reader_state (msg (mem w))) = 0 \<or> is_stopped (msg (mem w))"
  shows "\<exists>u < N. will_notify (pcs w u) \<or> done_view (pcs w u) = Cv_notifying Cv_wake"
  using writer_attended [OF assms(1-6)] assms(7) by (simp add: idle_or_halted_def is_stopped_def)

theorem writer_not_forgotten_witness:
  "0 \<in> kernel_asleep fifo_kernel (done_queue (mem (outcome_of sleeping_writer_schedule))) \<and>
   (\<exists>u < 4. will_notify (pcs (outcome_of sleeping_writer_schedule) u) \<or>
      done_view (pcs (outcome_of sleeping_writer_schedule) u) = Cv_notifying Cv_wake)"
proof -
  have asleep: "0 \<in> kernel_asleep fifo_kernel (done_queue (mem (outcome_of sleeping_writer_schedule)))"
    using sleeping_writer_outcome(3) by (simp add: fifo_kernel_def)
  from writer_not_forgotten [OF futex_laws_fifo _ sleeping_writer_outcome(1) _ asleep sleeping_writer_outcome(2)]
    sleeping_writer_outcome(4,5) asleep
  show ?thesis by simp
qed

end
