(* ===== verification/Message_Board.thy ===== *)
theory Message_Board
  imports Message_Guarantees
begin

text \<open>
  What the shared message promises its clients, with all of its synchronisation abstracted away: a
  notice board on which one post at a time is shown. The interleaved model is a refinement of the
  board: every atomic access of every thread either is one of the board's few atomic events or leaves
  the board as it was, and what a read guard shows is what hangs on the board.
\<close>

section \<open>The board\<close>

text \<open>
  All posts so far, the last one showing; whether the board was closed; whether the post that shows has
  been spoiled by a write that was given up; and the threads that look at it, with the number they were
  told.
\<close>

record board =
  posts :: "(u64 \<times> bytes) list"
  closed :: bool
  spoiled :: bool
  viewers :: "tid \<Rightarrow> u64 option"

definition shown :: "board \<Rightarrow> u64 \<times> bytes" where
  "shown b = (if posts b = [] then (0, []) else last (posts b))"

inductive board_step :: "board \<Rightarrow> board \<Rightarrow> bool" where
  post: "viewers b = Map.empty \<Longrightarrow>
     board_step b (b\<lparr>posts := posts b @ [(next_sequence (fst (shown b)), payload)], spoiled := False\<rparr>)"
| spoil: "viewers b = Map.empty \<Longrightarrow> board_step b (b\<lparr>spoiled := True\<rparr>)"
| shut: "board_step b (b\<lparr>closed := True\<rparr>)"
| look: "viewers b t = None \<Longrightarrow> spoiled b \<longrightarrow> closed b \<Longrightarrow>
     board_step b (b\<lparr>viewers := (viewers b)(t \<mapsto> fst (shown b))\<rparr>)"
| leave: "viewers b t = Some q \<Longrightarrow> board_step b (b\<lparr>viewers := (viewers b)(t := None)\<rparr>)"

definition board_initial :: "board \<Rightarrow> bool" where
  "board_initial b \<longleftrightarrow> b = \<lparr>posts = [], closed = False, spoiled = False, viewers = Map.empty\<rparr>"

inductive board_reach :: "board \<Rightarrow> bool" where
  board_reach_initial: "board_initial b \<Longrightarrow> board_reach b"
| board_reach_step: "board_reach b \<Longrightarrow> board_step b b' \<Longrightarrow> board_reach b'"

interpretation bd: reachability board_initial board_step board_reach
proof
  show "board_reach s" if "board_initial s" for s
    using that by (rule board_reach_initial)
  show "board_reach s'" if "board_reach s" "board_step s s'" for s s'
    using that by (rule board_reach_step)
  show "P s" if "board_reach s" "\<And>s. board_initial s \<Longrightarrow> P s"
      "\<And>s s'. board_reach s \<Longrightarrow> P s \<Longrightarrow> board_step s s' \<Longrightarrow> P s'" for s P
    using that(1) by (induction rule: board_reach.induct) (blast intro: that(2,3))+
qed

inductive_cases board_stepE: "board_step b b'"

text \<open>Everybody who looks was told the number of the post that shows, and the post is intact unless the board was closed.\<close>

definition board_inv :: "board \<Rightarrow> bool" where
  "board_inv b \<longleftrightarrow>
     (\<forall>t q. viewers b t = Some q \<longrightarrow> q = fst (shown b)) \<and>
     (viewers b \<noteq> Map.empty \<longrightarrow> spoiled b \<longrightarrow> closed b)"

lemma board_inv_reach: "board_reach b \<Longrightarrow> board_inv b"
proof (erule bd.invariant_rule)
  show "board_inv s'" if "board_inv s" "board_step s s'" for s s'
    using that(2)
  proof cases
    case (leave t q)
    then have "viewers s \<noteq> Map.empty" by auto
    with leave that(1) show ?thesis by (auto simp: board_inv_def shown_def split: if_splits)
  qed (use that(1) in \<open>auto simp: board_inv_def shown_def split: if_splits\<close>)
qed (simp add: board_inv_def board_initial_def)

lemma posts_grow: "board_step b b' \<Longrightarrow> \<exists>new. posts b' = posts b @ new"
  by (erule board_stepE) auto

section \<open>The board behind a message\<close>

fun viewer :: "pc \<Rightarrow> u64 option" where
  "viewer (Read_guard q) = Some q"
| "viewer _ = None"

definition board_of :: "'k world \<Rightarrow> board" where
  "board_of w =
     \<lparr>posts = published (mem w), closed = halted (mem w), spoiled = abandoned (mem w),
      viewers = (\<lambda>t. viewer (pcs w t))\<rparr>"

lemma viewer_Some: "viewer pc = Some q \<longleftrightarrow> pc = Read_guard q"
  by (cases pc rule: viewer.cases) auto

lemma viewer_None: "viewer pc = None \<longleftrightarrow> (\<forall>q. pc \<noteq> Read_guard q)"
  by (cases pc rule: viewer.cases) auto

lemma shown_board: "shown (board_of w) = last_message (mem w)"
  by (simp add: shown_def board_of_def last_message_def)

lemma board_of_put:
  "board_of (put t (s', pc') w) =
     \<lparr>posts = published s', closed = halted s', spoiled = abandoned s',
      viewers = (viewers (board_of w))(t := viewer pc')\<rparr>"
  by (auto simp: board_of_def fun_eq_iff)

lemma nobody_looks:
  assumes "\<And>u. \<not> guarded (pcs w u)"
  shows "viewers (board_of w) = Map.empty"
proof
  fix u
  show "viewers (board_of w) u = None" using assms [of u] by (auto simp: board_of_def viewer_None)
qed

text \<open>Only the release gives a guard up.\<close>

lemma guard_given_up:
  assumes "thread_move K t (Read_guard q) s s' pc'"
  shows "s' = s \<and> viewer pc' = None"
  using assms
proof (cases rule: thread_moveE)
  case (Guard a)
  then show ?thesis by (cases a) auto
qed simp_all

lemma stopper_not_marked:
  assumes "thread_move K t pc s s' (Stopping sp)"
  shows "\<not> marked pc"
  using assms
proof (cases rule: thread_moveE)
  case (Access b)
  then show ?thesis by (cases pc) (auto split: step_splits)
next
  case (Guard a)
  then show ?thesis by (cases a; cases pc) (auto split: if_splits)
qed simp

lemma move_board:
  assumes small: "N < 65536" and reach: "world_reach K N w"
    and move: "thread_move K t (pcs w t) (mem w) s' pc'"
  shows "board_of (put t (s', pc') w) = board_of w \<or> board_step (board_of w) (board_of (put t (s', pc') w))"
proof (cases "viewer pc' = viewer (pcs w t)")
  case False
  show ?thesis
  proof (cases "viewer (pcs w t)")
    case None
    with False obtain q where pc': "pc' = Read_guard q" by (cases pc' rule: viewer.cases) auto
    with move guard_is_new have "\<not> guarded (pcs w t)" by blast
    with guarded_entered [OF move] pc' have new: "\<not> wip (mem w)" "s' = mem w" "q = current (mem w)" by auto
    have "fst (shown (board_of w)) = q"
      using numbered_last [OF publication_numbers [OF reach]] new(3) by (simp add: shown_board)
    moreover have "spoiled (board_of w) \<longrightarrow> closed (board_of w)"
      using flag_ok_reach [OF reach] new(1) by (auto simp: board_of_def flag_ok_def)
    moreover have "viewers (board_of w) t = None" using None by (simp add: board_of_def)
    ultimately have "board_step (board_of w) ((board_of w)\<lparr>viewers := (viewers (board_of w))(t \<mapsto> q)\<rparr>)"
      using look by metis
    moreover have "board_of (put t (s', pc') w) = (board_of w)\<lparr>viewers := (viewers (board_of w))(t \<mapsto> q)\<rparr>"
      unfolding board_of_put using new(2) pc' by (simp add: board_of_def)
    ultimately show ?thesis by simp
  next
    case (Some q)
    then have pc: "pcs w t = Read_guard q" by (simp add: viewer_Some)
    with guard_given_up move have "s' = mem w" "viewer pc' = None" by metis+
    then have "board_of (put t (s', pc') w) = (board_of w)\<lparr>viewers := (viewers (board_of w))(t := None)\<rparr>"
      unfolding board_of_put by (simp add: board_of_def)
    moreover have "board_step (board_of w) ((board_of w)\<lparr>viewers := (viewers (board_of w))(t := None)\<rparr>)"
      using Some by (intro leave) (simp add: board_of_def)
    ultimately show ?thesis by simp
  qed
next
  case True
  let ?b = "board_of w" and ?b' = "board_of (put t (s', pc') w)"
  have same: "viewers ?b' = viewers ?b" using True by (auto simp: board_of_put board_of_def fun_eq_iff)
  have alone: "viewers ?b = Map.empty" if "writing (pcs w t) \<or> active (mem w) = 0"
    using that exclusion [OF small reach] guarded_active [OF small reach]
    by (intro nobody_looks) (auto simp: excluded_def)
  from move_history [OF move] show ?thesis
  proof
    assume pub: "publishes (mem w) (pcs w t) s' pc'"
    then have "halted s' = halted (mem w)"
      using halted_entered [OF move] move_flags [OF move] by (auto simp: publishes_def flag_effect_def)
    moreover have "fst (shown ?b) = current (mem w)"
      using numbered_last [OF publication_numbers [OF reach]] by (simp add: shown_board)
    moreover have "writing (pcs w t)" using pub by (auto simp: publishes_def)
    moreover obtain p where "published s' = published (mem w) @ [(next_sequence (current (mem w)), p)]"
      "\<not> abandoned s'" using pub by (auto simp: publishes_def)
    ultimately have "?b' = ?b\<lparr>posts := posts ?b @ [(next_sequence (fst (shown ?b)), p)], spoiled := False\<rparr>"
      using same unfolding board_of_put by (simp add: board_of_def)
    then show ?thesis using post [OF alone] \<open>writing (pcs w t)\<close> by metis
  next
    assume keep: "keeps_history (mem w) (pcs w t) s' pc'"
    have mono: "halted (mem w) \<Longrightarrow> halted s'" using move_flags [OF move] by (simp add: flag_effect_def)
    show ?thesis
    proof (cases "abandoned s' = abandoned (mem w)")
      case True
      show ?thesis
      proof (cases "halted s' = halted (mem w)")
        case True
        with \<open>abandoned s' = abandoned (mem w)\<close> keep same
        have "?b' = ?b" unfolding board_of_put by (simp add: keeps_history_def board_of_def)
        then show ?thesis ..
      next
        case False
        with mono have "halted s'" by blast
        with \<open>abandoned s' = abandoned (mem w)\<close> keep same
        have "?b' = ?b\<lparr>closed := True\<rparr>" unfolding board_of_put by (simp add: keeps_history_def board_of_def)
        then show ?thesis using shut by metis
      qed
    next
      case False
      with keep have ab: "abandoned s'" and wr: "writing (pcs w t) \<or> marked (pcs w t) \<and> active (mem w) = 0"
        by (auto simp: keeps_history_def)
      then have "marked (pcs w t)" using writing_marked by blast
      with halted_entered [OF move] mono stopper_not_marked move have "halted s' = halted (mem w)" by blast
      with ab keep same have "?b' = ?b\<lparr>spoiled := True\<rparr>"
        unfolding board_of_put by (simp add: keeps_history_def board_of_def)
      then show ?thesis using spoil [OF alone] wr by metis
    qed
  qed
qed

text \<open>The step relation is interpreted for fewer than 65536 threads, the range of the counter of active readers.\<close>

interpretation wb: simulation "world_initial K" "world_step K (min N 65535)" "world_reach K (min N 65535)"
    board_initial board_step board_reach board_of
  for K :: "'k futex_kernel" and N
proof unfold_locales
  show "board_initial (board_of w)" if "world_initial K w" for w
    using that by (simp add: world_initial_def board_initial_def board_of_def flag_eqs)
  show "board_of w' = board_of w \<or> board_step (board_of w) (board_of w')"
    if reach: "world_reach K (min N 65535) w" and step: "world_step K (min N 65535) w w'" for w w'
    using step
  proof (cases rule: world_step_cases)
    case (Move t s' pc')
    with move_board [OF _ reach Move(2)] show ?thesis by simp
  next
    case Interrupt
    then show ?thesis using queue_interrupt_same [OF Interrupt] by (simp add: same_but_queues_def board_of_def)
  qed
qed

section \<open>Acknowledged writes\<close>

text \<open>A later world in which thread \<open>t\<close> is still in the call it was in, or has returned from it and called nothing since.\<close>

inductive later :: "'k futex_kernel \<Rightarrow> nat \<Rightarrow> tid \<Rightarrow> 'k world \<Rightarrow> 'k world \<Rightarrow> bool" for K N t w0 where
  later_now: "later K N t w0 w0"
| later_step: "later K N t w0 w \<Longrightarrow> world_step K N w w' \<Longrightarrow> (\<exists>r. pcs w t = Ready r) \<longrightarrow> pcs w' t = pcs w t \<Longrightarrow>
     later K N t w0 w'"

text \<open>A thread that has just called \<open>write_slice\<close> with the bytes \<open>d\<close>, or \<open>publish\<close> on a guard whose first bytes are \<open>d\<close>.\<close>

fun begins_write :: "bytes \<Rightarrow> pc \<Rightarrow> bool" where
  "begins_write d (Starting call pc) \<longleftrightarrow> call = By_slice d \<and> pc = SW_stopped0"
| "begins_write d (Publishing sz p pc) \<longleftrightarrow> p = d \<and> pc = P_size"
| "begins_write d _ \<longleftrightarrow> False"

text \<open>The stages of such a call: from the publication on, the message is among the new posts under the number to be returned.\<close>

definition reports :: "bytes \<Rightarrow> (u64 \<times> bytes) set \<Rightarrow> ret \<Rightarrow> bool" where
  "reports d new r \<longleftrightarrow> (\<forall>q. r = Ret_sequence (Some q) \<longrightarrow> (q, d) \<in> new)"

fun write_stage :: "bytes \<Rightarrow> (u64 \<times> bytes) set \<Rightarrow> pc \<Rightarrow> bool" where
  "write_stage d new (Starting call pc) \<longleftrightarrow> call = By_slice d"
| "write_stage d new (Copying d' i) \<longleftrightarrow> d' = d"
| "write_stage d new (Publishing sz p (P_notify q pc)) \<longleftrightarrow> p = d \<and> (q, d) \<in> new"
| "write_stage d new (Publishing sz p pc) \<longleftrightarrow> p = d"
| "write_stage d new (Unlocking r pc) \<longleftrightarrow> reports d new r"
| "write_stage d new (Ready r) \<longleftrightarrow> reports d new r"
| "write_stage d new _ \<longleftrightarrow> False"

lemma begins_write_stage: "begins_write d pc \<Longrightarrow> write_stage d new pc"
  by (cases pc) auto

lemma write_stage_mono: "write_stage d new pc \<Longrightarrow> new \<subseteq> new' \<Longrightarrow> write_stage d new' pc"
  by (induction d new pc rule: write_stage.induct) (auto simp: reports_def)

lemma published_grows:
  assumes "thread_move K t pc s s' pc'"
  obtains xs where "published s' = published s @ xs"
  using move_history [OF assms] by (auto simp: publishes_def keeps_history_def)

lemma write_stage_move:
  assumes move: "thread_move K t pc s s' pc'" and stage: "write_stage d new pc" "\<nexists>r. pc = Ready r"
    and grown: "published s' = published s @ xs"
  shows "write_stage d (new \<union> set xs) pc'"
  using move
proof (cases rule: thread_moveE)
  case (Access b)
  show ?thesis
  proof (cases pc)
    case (Starting call sp)
    with Access stage show ?thesis by (auto simp: reports_def split: step_splits)
  next
    case (Copying d' i)
    with Access stage show ?thesis by (auto split: if_splits)
  next
    case (Publishing sz p pp)
    with Access stage grown show ?thesis by (cases pp) (auto simp: reports_def Let_def split: step_splits)
  next
    case (Unlocking r up)
    with Access stage show ?thesis by (auto simp: reports_def split: step_splits)
  qed (use stage in auto)
next
  case (Guard a)
  with stage show ?thesis by (cases a; cases pc) auto
qed (use stage(2) in blast)

lemma later_stage:
  assumes "later K N t w0 w" "begins_write d (pcs w0 t)"
  shows "\<exists>xs. published (mem w) = published (mem w0) @ xs \<and> write_stage d (set xs) (pcs w t)"
  using assms
proof (induction rule: later.induct)
  case later_now
  then show ?case by (auto intro: begins_write_stage)
next
  case (later_step w w')
  then obtain xs where xs: "published (mem w) = published (mem w0) @ xs" "write_stage d (set xs) (pcs w t)" by blast
  from later_step.hyps(2) show ?case
  proof (cases rule: world_step_cases)
    case (Move u s' pc')
    from published_grows [OF Move(2)] obtain ys where ys: "published s' = published (mem w) @ ys" .
    have "write_stage d (set xs \<union> set ys) (pcs w' t)"
    proof (cases "u = t \<and> (\<nexists>r. pcs w t = Ready r)")
      case True
      with write_stage_move [of K t "pcs w t" "mem w" s' pc', OF _ xs(2) _ ys] Move show ?thesis by simp
    next
      case False
      with Move(3) later_step.hyps(3) have "pcs w' t = pcs w t" by auto
      with write_stage_mono [OF xs(2)] show ?thesis by simp
    qed
    with Move(3) xs(1) ys show ?thesis by auto
  next
    case Interrupt
    with queue_interrupt_same [OF Interrupt] xs show ?thesis by (auto simp: same_but_queues_def)
  qed
qed

lemma acknowledged_write:
  assumes "later K N t w0 w" "begins_write d (pcs w0 t)" "pcs w t = Ready (Ret_sequence (Some q))"
  shows "(q, d) \<in> set (drop (length (published (mem w0))) (published (mem w)))"
  using later_stage [OF assms(1,2)] assms(3) by (auto simp: reports_def)

section \<open>Properties\<close>

text \<open>
  C2: The message is a notice board. With fewer than 65536 threads, whose accesses are sequentially
  consistent, every atomic step of every thread is one of the board's events (post, spoil, shut, look,
  leave) or leaves the board alone. Whoever holds a read guard was told the number of the last post, and
  is shown exactly its payload unless a write was given up since and the board is closed. A write is
  posted with its own payload between its call and its return: when a thread that called \<open>write_slice\<close>
  with some bytes, or \<open>publish\<close> on a guard that holds them, has returned from the call with a number, then
  exactly those bytes were posted under that number after the call.
\<close>

theorem message_refines_board:
  assumes "N < 65536" "world_reach K N w" "world_step K N w w'"
  shows "board_reach (board_of w) \<and>
    (board_of w' = board_of w \<or> board_step (board_of w) (board_of w')) \<and>
    (\<forall>t q. viewers (board_of w) t = Some q \<longrightarrow> q = fst (shown (board_of w)) \<and>
       (\<not> spoiled (board_of w) \<or> \<not> closed (board_of w) \<longrightarrow>
          data_ref (msg (mem w)) = Inr (snd (shown (board_of w))))) \<and>
    (\<forall>t w0 d q. later K N t w0 w \<and> begins_write d (pcs w0 t) \<and> pcs w t = Ready (Ret_sequence (Some q)) \<longrightarrow>
       (q, d) \<in> set (drop (length (posts (board_of w0))) (posts (board_of w))))"
proof -
  have N: "min N 65535 = N" using assms(1) by simp
  have reach: "board_reach (board_of w)" using wb.sim_reach [of K N w] assms(2) N by simp
  have inv: "board_inv (board_of w)" using reach by (rule board_inv_reach)
  have shows_last: "data_ref (msg (mem w)) = Inr (snd (shown (board_of w)))"
    if "viewers (board_of w) t = Some q" "\<not> spoiled (board_of w) \<or> \<not> closed (board_of w)" for t q
  proof -
    from that(1) have guard: "pcs w t = Read_guard q" by (simp add: board_of_def viewer_Some)
    then have "guarded (pcs w t)" by simp
    with exclusion [OF assms(1,2)] have "\<forall>u. \<not> writing (pcs w u)" by (auto simp: excluded_def)
    moreover have "viewers (board_of w) \<noteq> Map.empty" using that(1) by auto
    then have "\<not> spoiled (board_of w)" using that(2) inv unfolding board_inv_def by blast
    then have "\<not> abandoned (mem w)" by (simp add: board_of_def)
    ultimately have "take (unat (data_size (msg (mem w)))) (data (msg (mem w))) = snd (last_message (mem w))"
      using settled_reach [OF assms(2)] by (simp add: settled_def)
    with buffer_invariant [OF assms(2)] show ?thesis by (simp add: data_ref_def buffer_ok_def shown_board)
  qed
  have posts: "posts (board_of x) = published (mem x)" for x :: "'a world" by (simp add: board_of_def)
  have "board_of w' = board_of w \<or> board_step (board_of w) (board_of w')"
    using wb.sim_step [of K N w w'] assms(2,3) N by simp
  moreover have "q = fst (shown (board_of w))" if "viewers (board_of w) t = Some q" for t q
    using that inv by (simp add: board_inv_def)
  ultimately show ?thesis using reach shows_last acknowledged_write unfolding posts by blast
qed

text \<open>Thread 0 has called \<open>write_slice\<close>, and sixteen accesses later it has returned.\<close>

lemma later_steps:
  "world_moves K N (replicate n (Ev_step u)) w = Some w' \<Longrightarrow> later K N t w0 w \<Longrightarrow> later K N t w0 w'"
proof (induction n arbitrary: w)
  case (Suc n)
  then obtain r where r: "u < N" "thread_step K u False (pcs w u) (mem w) = Some r"
    "world_moves K N (replicate n (Ev_step u)) (put u r w) = Some w'"
    by (auto split: if_splits option.splits)
  then have "world_step K N w (put u r w)" by (blast intro: access)
  moreover have "(\<exists>x. pcs w t = Ready x) \<longrightarrow> pcs (put u r w) t = pcs w t" using r(2) by auto
  ultimately have "later K N t w0 (put u r w)" using Suc.prems(2) later_step by metis
  with Suc.IH r(3) show ?case by blast
qed simp

definition calling :: "tid list world" where
  "calling = put 0 (mem (fresh_world 1), entry (Op_write_slice [1])) (fresh_world 1)"

lemma returned_outcome:
  "world_reach fifo_kernel 4 (outcome_of write_once)" "later fifo_kernel 4 0 calling (outcome_of write_once)"
  "pcs (outcome_of write_once) 0 = Ready (Ret_sequence (Some 1))"
proof -
  have ex: "\<exists>w. world_moves fifo_kernel 4 write_once (fresh_world 1) = Some w"
    by (simp add: write_once_def run_simps)
  then show "world_reach fifo_kernel 4 (outcome_of write_once)" by (rule outcome_reach)
  from ex have "world_moves fifo_kernel 4 (replicate 16 (Ev_step 0)) calling = Some (outcome_of write_once)"
    by (auto simp: outcome_of_def write_once_def calling_def fresh_world_def)
  then show "later fifo_kernel 4 0 calling (outcome_of write_once)"
    by (rule later_steps) (rule later_now)
qed (simp add: outcome_of_def write_once_def run_simps)

theorem message_refines_board_witness:
  "viewers (board_of (outcome_of reading_schedule)) 1 = Some 1 \<and>
   shown (board_of (outcome_of reading_schedule)) = (1, [1]) \<and>
   data_ref (msg (mem (outcome_of reading_schedule))) = Inr [1] \<and>
   begins_write [1] (pcs calling 0) \<and> (1, [1]) \<in> set (posts (board_of (outcome_of write_once)))"
proof -
  let ?b = "board_of (outcome_of reading_schedule)"
  have v: "viewers ?b 1 = Some 1" "\<not> spoiled ?b" "shown ?b = (1, [1])"
    using reading_outcome by (simp_all add: board_of_def shown_def)
  have N: "(4 :: nat) < 65536" by simp
  from message_refines_board [OF N reading_outcome(1) one_spin]
  have "data_ref (msg (mem (outcome_of reading_schedule))) = Inr (snd (shown ?b))" using v(1,2) by blast
  moreover have w: "begins_write [1] (pcs calling 0)" by (simp add: calling_def)
  have "world_step fifo_kernel 4 (outcome_of write_once) (put 0 (mem (outcome_of write_once), entry Op_stop) (outcome_of write_once))"
    by (rule call_op [OF _ returned_outcome(3)]) simp
  from message_refines_board [OF N returned_outcome(1) this] returned_outcome(2,3) w
  have "(1, [1]) \<in> set (posts (board_of (outcome_of write_once)))" by (blast dest: in_set_dropD)
  ultimately show ?thesis using v w by simp
qed

end
