(* ===== verification/Message_Progress.thy ===== *)
theory Message_Progress
  imports Message_Guarantees
begin

text \<open>
  When can the threads of a message come to a halt? A world is stuck when no thread inside a call can
  make a step, whatever the scheduler does. From the invariants of the lock, of the two condition
  variables and of the counters follows, for every thread of a stuck world, what it waits for: nearly
  always the owner of a guard. After \<open>stop\<close> the writers are free as soon as the guards are dropped.
\<close>

section \<open>Threads that cannot move\<close>

definition stuck :: "'k futex_kernel \<Rightarrow> nat \<Rightarrow> 'k world \<Rightarrow> bool" where
  "stuck K N w \<longleftrightarrow> (\<forall>t < N. \<forall>spurious. thread_step K t spurious (pcs w t) (mem w) = None)"

text \<open>Threads whose next step is up to their client.\<close>

fun at_rest :: "pc \<Rightarrow> bool" where
  "at_rest (Ready r) = True"
| "at_rest Write_guard = True"
| "at_rest (Read_guard seq) = True"
| "at_rest _ = False"

lemma lock_step_stuck:
  "lock_step K t pc c = None \<longleftrightarrow> pc = Lock_asleep \<and> t \<in> kernel_asleep K (snd c)"
  by (cases c; cases pc) (auto split: prod.splits sum.splits bool.splits)

lemma wait_step_stuck:
  "condvar_wait_step K t ticket pc c = None \<longleftrightarrow> pc = Cv_asleep \<and> t \<in> kernel_asleep K (snd c)"
  by (cases c; cases pc) (auto split: prod.splits bool.splits)

text \<open>A thread that cannot move is at rest or asleep in the kernel, at one of the four calls of \<open>futex_wait\<close>.\<close>

lemma cannot_move:
  assumes "thread_step K t b pc s = None"
  shows "at_rest pc \<or>
    (\<exists>c. pc = Starting c (SW_lock Lock_asleep) \<and> t \<in> kernel_asleep K (mutex_queue s)) \<or>
    (\<exists>n. pc = Setting_target n (T_lock Lock_asleep) \<and> t \<in> kernel_asleep K (mutex_queue s)) \<or>
    (\<exists>c ticket. pc = Starting c (SW_wait1 ticket Cv_asleep) \<and> t \<in> kernel_asleep K (done_queue s)) \<or>
    (\<exists>c ticket. pc = Starting c (SW_wait2 ticket Cv_asleep) \<and> t \<in> kernel_asleep K (done_queue s)) \<or>
    (\<exists>q block ticket. pc = Reading q block (R_wait ticket Cv_asleep) \<and> t \<in> kernel_asleep K (writer_queue s))"
proof (cases pc)
  case (Starting c sw)
  with assms show ?thesis
    by (cases sw) (auto simp: lock_step_stuck wait_step_stuck mutex_cell_def done_cell_def split: step_splits)
next
  case (Reading q block rp)
  with assms show ?thesis
    by (cases rp) (auto simp: wait_step_stuck writer_cell_def Let_def split: step_splits)
next
  case (Setting_target n tp)
  with assms show ?thesis by (cases tp) (auto simp: lock_step_stuck mutex_cell_def split: step_splits)
qed (use assms in \<open>auto split: step_splits\<close>)

fun in_second_loop :: "pc \<Rightarrow> bool" where
  "in_second_loop (Starting c (SW_wait2 ticket pc)) = True"
| "in_second_loop _ = False"

fun in_first_loop :: "pc \<Rightarrow> bool" where
  "in_first_loop (Starting c (SW_wait1 ticket pc)) = True"
| "in_first_loop _ = False"

lemma notifier_moves:
  assumes "writer_view pc = Cv_notifying np \<or> done_view pc = Cv_notifying np \<or> will_notify pc"
  shows "thread_step K t b pc s \<noteq> None"
proof
  assume "thread_step K t b pc s = None"
  from cannot_move [OF this] assms show False by (cases pc) (auto simp: will_notify_def)
qed

lemma on_duty_moves:
  assumes "on_duty (mutex_view pc) \<or> mutex_view pc = Acquiring Lock_asleep \<and> t \<notin> kernel_asleep K (mutex_queue s)"
  shows "thread_step K t b pc s \<noteq> None"
proof
  assume "thread_step K t b pc s = None"
  from cannot_move [OF this] assms show False by (cases pc) auto
qed

lemma stuck_owner:
  assumes "thread_step K t b pc s = None" "owns_mutex pc"
  shows "pc = Write_guard \<or> in_first_loop pc \<or> in_second_loop pc"
  using cannot_move [OF assms(1)] assms(2) by (cases pc) (auto simp: owns_mutex_def)

lemma stuck_marked:
  assumes "thread_step K t b pc s = None" "marked pc"
  shows "pc = Write_guard \<or> in_second_loop pc"
  using cannot_move [OF assms(1)] assms(2) by (cases pc) auto

lemma stuck_registered:
  assumes "thread_step K t b pc s = None" "registered pc"
  shows "\<exists>q. pc = Read_guard q"
  using cannot_move [OF assms(1)] assms(2) by (cases pc) auto

text \<open>Only threads that take part are inside a call.\<close>

lemma stuck_thread:
  assumes "world_reach K N w" "stuck K N w"
  shows "thread_step K t b (pcs w t) (mem w) = None"
  using assms idle_beyond [OF assms(1), of t] by (cases "t < N") (auto simp: stuck_def)

section \<open>The writing flag\<close>

text \<open>The flag is set only as long as some write is under way, or was given up.\<close>

lemma move_wip:
  assumes "thread_move K t pc s s' pc'" "wip s'"
  shows "marked pc' \<or> wip s \<and> (marked pc \<longrightarrow> abandoned s') \<and> (abandoned s \<longrightarrow> abandoned s')"
  using assms(1)
proof (cases rule: thread_moveE)
  case (Access b)
  show ?thesis
  proof (cases pc)
    case (Starting c sw)
    with Access assms(2) show ?thesis
      by (cases sw) (auto simp: flag_eqs flag_bits same_but_condvars_def sw_while1_def
          split: step_splits dest!: notify_frame)
  next
    case (Publishing sz p pp)
    with Access assms(2) show ?thesis
      by (cases pp) (auto simp: flag_eqs flag_bits same_but_condvars_def Let_def
          split: step_splits dest!: notify_frame)
  next
    case (Stopping sp)
    with Access assms(2) show ?thesis
      by (cases sp) (auto simp: flag_eqs flag_bits same_but_condvars_def
          split: step_splits dest!: notify_frame)
  next
    case (Reading q block rp)
    with Access assms(2) show ?thesis
      by (cases rp) (auto simp: flag_eqs same_but_condvars_def Let_def split: step_splits dest!: notify_frame)
  next
    case (Releasing rp)
    with Access assms(2) show ?thesis
      by (cases rp) (auto simp: flag_eqs same_but_condvars_def split: step_splits dest!: notify_frame)
  next
    case (Setting_target n tp)
    with Access assms(2) show ?thesis by (cases tp) (auto simp: flag_eqs split: step_splits)
  qed (use Access assms(2) in \<open>auto simp: flag_eqs split: step_splits\<close>)
next
  case (Guard a)
  with assms(2) show ?thesis by (cases a; cases pc) (auto simp: flag_eqs split: if_splits)
next
  case (Call r op)
  with assms(2) show ?thesis by simp
qed

lemma wip_explained:
  assumes "world_reach K N w"
  shows "wip (mem w) \<longrightarrow> abandoned (mem w) \<or> (\<exists>t. marked (pcs w t))"
  using assms
proof (rule world_invariant)
  show "wip (mem (put t (s', pc') w)) \<longrightarrow>
      abandoned (mem (put t (s', pc') w)) \<or> (\<exists>u. marked (pcs (put t (s', pc') w) u))"
    if inv: "wip (mem w) \<longrightarrow> abandoned (mem w) \<or> (\<exists>t. marked (pcs w t))"
      and move: "thread_move K t (pcs w t) (mem w) s' pc'" for w :: "'a world" and t s' pc'
    using move_wip [OF move] inv by auto
qed (auto simp: world_initial_def flag_eqs same_but_queues_def)

section \<open>What a stuck thread waits for\<close>

definition stuck_world :: "'k futex_kernel \<Rightarrow> nat \<Rightarrow> 'k world \<Rightarrow> bool" where
  "stuck_world K N w \<longleftrightarrow>
     futex_laws K \<and> N < 65536 \<and> world_reach K N w \<and> writer_kicks (mem w) < 2 ^ 32 \<and>
     done_kicks (mem w) < 2 ^ 32 \<and> stuck K N w"

lemma stuck_worldD:
  assumes "stuck_world K N w"
  shows "futex_laws K" "N < 65536" "N \<le> WAKE_ALL" "world_reach K N w" "writer_kicks (mem w) < 2 ^ 32"
    "done_kicks (mem w) < 2 ^ 32" "thread_step K t b (pcs w t) (mem w) = None"
  using assms stuck_thread by (auto simp: stuck_world_def WAKE_ALL_def)

lemma no_notifier:
  assumes "stuck_world K N w"
  shows "writer_view (pcs w u) \<noteq> Cv_notifying np" "done_view (pcs w u) \<noteq> Cv_notifying np"
    "\<not> will_notify (pcs w u)"
  using notifier_moves stuck_worldD(7) [OF assms] by blast+

lemma stuck_done_sleeper:
  assumes "stuck_world K N w" "t \<in> kernel_asleep K (done_queue (mem w))"
  shows "\<not> halted (mem w)" "in_second_loop (pcs w t) \<Longrightarrow> active (mem w) \<noteq> 0"
proof -
  note world = stuck_worldD [OF assms(1)]
  from done_sleeper_attended [OF world(1,2,4,6) assms(2)]
  obtain c sw ticket g where pc: "pcs w t = Starting c sw" "done_wait sw (mem w) = Some (ticket, g)"
    "sw \<in> {SW_wait1 ticket Cv_asleep, SW_wait2 ticket Cv_asleep}"
    and go: "g \<longrightarrow> (\<exists>u < N. will_notify (pcs w u) \<or> done_view (pcs w u) = Cv_notifying Cv_wake)"
    by (elim exE conjE) blast
  from go no_notifier [OF assms(1)] have "\<not> g" by blast
  with pc show "\<not> halted (mem w)" "in_second_loop (pcs w t) \<Longrightarrow> active (mem w) \<noteq> 0"
    by (auto simp: idle_or_halted_def)
qed

lemma active_guard:
  assumes "stuck_world K N w" "active (mem w) \<noteq> 0"
  shows "\<exists>u q. pcs w u = Read_guard q"
proof -
  note world = stuck_worldD [OF assms(1)]
  from active_counts [OF world(2,4)] assms(2) have "count_threads N registered (pcs w) \<noteq> 0"
    by (metis unat_eq_zero)
  then obtain u where "registered (pcs w u)" by (auto simp: count_threads_alt)
  with stuck_registered [OF world(7)] show ?thesis by blast
qed

text \<open>Whoever owns the mutex holds a write guard or sleeps in one of the loops of \<open>start_write\<close>.\<close>

lemma stuck_mutex_sleeper:
  assumes "stuck_world K N w" "t \<in> kernel_asleep K (mutex_queue (mem w))"
  shows "\<exists>u. pcs w u = Write_guard \<or> in_first_loop (pcs w u) \<or> in_second_loop (pcs w u)"
proof -
  note world = stuck_worldD [OF assms(1)]
  have lock: "lock_reach K (lock_view w)" using world(4) by (rule wl.sim_reach)
  have "\<not> on_duty (mutex_view (pcs w u))"
    "mutex_view (pcs w u) = Acquiring Lock_asleep \<Longrightarrow> u \<in> kernel_asleep K (mutex_queue (mem w))" for u
    using on_duty_moves [of "pcs w u" u K "mem w"] world(7) [of u] by blast+
  with wake_inv_reach [OF world(1) lock] assms(2) have "fst (mutex_cell (mem w)) = CONTENDED"
    by (auto simp: wake_inv_def attended_def asleep_def lock_view_def mutex_cell_def)
  with mutex_inv_reach [OF lock] obtain u where "owns_mutex (pcs w u)"
    by (auto simp: mutex_inv_def lock_view_def owns_mutex_def UNLOCKED_def CONTENDED_def)
  with stuck_owner [OF world(7)] show ?thesis by blast
qed

lemma stuck_in_loop:
  assumes "stuck_world K N w" "in_first_loop (pcs w t) \<or> in_second_loop (pcs w t)"
  shows "t \<in> kernel_asleep K (done_queue (mem w))"
  using cannot_move [OF stuck_worldD(7) [OF assms(1)], of t] assms(2) by (cases "pcs w t") auto

lemma stuck_reader:
  assumes "stuck_world K N w" "pcs w t = Reading q block (R_wait ticket Cv_asleep)"
    and "t \<in> kernel_asleep K (writer_queue (mem w))"
  shows "current (mem w) = q \<and> \<not> halted (mem w) \<or>
    current (mem w) \<noteq> q \<and> (halted (mem w) \<or> abandoned (mem w) \<or>
      (\<exists>u. pcs w u = Write_guard \<or> in_second_loop (pcs w u)))"
proof -
  note world = stuck_worldD [OF assms(1)]
  from reader_attended [OF world(1,3,4,5) assms(3)] assms(2) no_notifier [OF assms(1)]
  have "\<not> can_go q (mem w)" by auto
  moreover have "abandoned (mem w) \<or> (\<exists>u. pcs w u = Write_guard \<or> in_second_loop (pcs w u))" if "wip (mem w)"
    using wip_explained [OF world(4)] that stuck_marked [OF world(7)] by blast
  ultimately show ?thesis by (auto simp: can_go_def)
qed

lemma stuck_thread_cases:
  assumes "stuck_world K N w"
  shows "at_rest (pcs w t) \<or>
    mutex_view (pcs w t) = Acquiring Lock_asleep \<and>
      (\<exists>u. pcs w u = Write_guard \<or> in_first_loop (pcs w u) \<or> in_second_loop (pcs w u)) \<or>
    in_first_loop (pcs w t) \<and> \<not> halted (mem w) \<or>
    in_second_loop (pcs w t) \<and> \<not> halted (mem w) \<and> (\<exists>u q. pcs w u = Read_guard q) \<or>
    (\<exists>q block ticket. pcs w t = Reading q block (R_wait ticket Cv_asleep) \<and>
      (current (mem w) = q \<and> \<not> halted (mem w) \<or>
       current (mem w) \<noteq> q \<and> (halted (mem w) \<or> abandoned (mem w) \<or>
         (\<exists>u. pcs w u = Write_guard \<or> in_second_loop (pcs w u)))))"
  using cannot_move [OF stuck_worldD(7) [OF assms], of t]
proof (elim disjE exE conjE)
  fix c ticket
  assume pc: "pcs w t = Starting c (SW_wait2 ticket Cv_asleep)"
    and asleep: "t \<in> kernel_asleep K (done_queue (mem w))"
  have "in_second_loop (pcs w t)" using pc by simp
  with stuck_done_sleeper [OF assms asleep] active_guard [OF assms] show ?thesis by blast
next
  fix c ticket
  assume pc: "pcs w t = Starting c (SW_wait1 ticket Cv_asleep)"
    and asleep: "t \<in> kernel_asleep K (done_queue (mem w))"
  have "in_first_loop (pcs w t)" using pc by simp
  with stuck_done_sleeper(1) [OF assms asleep] show ?thesis by blast
next
  fix q block ticket
  assume "pcs w t = Reading q block (R_wait ticket Cv_asleep)" "t \<in> kernel_asleep K (writer_queue (mem w))"
  with stuck_reader [OF assms] show ?thesis by blast
qed (use stuck_mutex_sleeper [OF assms, of t] in auto)

section \<open>Properties\<close>

text \<open>
  C12: What can bring a message to a halt. In a reachable world, with fewer than 65536 threads, in which
  no thread inside a call can make a step, a thread has returned or holds a guard; or it waits for the
  mutex, whose owner holds a write guard or sleeps in \<open>start_write\<close>; or it sleeps in the second loop of
  \<open>start_write\<close> and a read guard is out; or in \<open>read\<close> with nothing new to see, or behind a write that is
  under way or was given up, or after a stop; or in the first loop of \<open>start_write\<close>, the one loop that is
  not always somebody's to end. (As long as the words of the condition variables have not wrapped around.)
\<close>

theorem stuck_threads_explained:
  assumes "futex_laws K" "N < 65536" "world_reach K N w"
    and "writer_kicks (mem w) < 2 ^ 32" "done_kicks (mem w) < 2 ^ 32"
    and "\<forall>t < N. \<forall>spurious. thread_step K t spurious (pcs w t) (mem w) = None"
  shows "at_rest (pcs w t) \<or>
    mutex_view (pcs w t) = Acquiring Lock_asleep \<and>
      (\<exists>u. pcs w u = Write_guard \<or> in_first_loop (pcs w u) \<or> in_second_loop (pcs w u)) \<or>
    in_first_loop (pcs w t) \<and> \<not> is_stopped (msg (mem w)) \<or>
    in_second_loop (pcs w t) \<and> \<not> is_stopped (msg (mem w)) \<and> (\<exists>u seq. pcs w u = Read_guard seq) \<or>
    (\<exists>last_seen block ticket. pcs w t = Reading last_seen block (R_wait ticket Cv_asleep) \<and>
      (\<not> has_new_data last_seen (msg (mem w)) \<and> \<not> is_stopped (msg (mem w)) \<or>
       has_new_data last_seen (msg (mem w)) \<and>
         (is_stopped (msg (mem w)) \<or> abandoned (mem w) \<or>
          (\<exists>u. pcs w u = Write_guard \<or> in_second_loop (pcs w u)))))"
proof -
  have "stuck_world K N w" using assms by (simp add: stuck_world_def stuck_def)
  from stuck_thread_cases [OF this, of t] show ?thesis by (auto simp: is_stopped_def has_new_data_def)
qed

lemma deadlock_stuck:
  "thread_step fifo_kernel t b (pcs (outcome_of deadlock_schedule) t) (mem (outcome_of deadlock_schedule)) = None"
  using deadlock_outcome(3,4) by (simp add: deadlock_outcome(2) done_cell_def writer_cell_def fifo_kernel_def)

lemma deadlock_kicks:
  "writer_kicks (mem (outcome_of deadlock_schedule)) < 2 ^ 32"
  "done_kicks (mem (outcome_of deadlock_schedule)) < 2 ^ 32"
  by (simp_all add: outcome_of_def deadlock_schedule_def write_once_def run_simps)

theorem stuck_threads_explained_witness:
  "in_first_loop (pcs (outcome_of deadlock_schedule) 0) \<and>
   \<not> is_stopped (msg (mem (outcome_of deadlock_schedule)))"
  using stuck_threads_explained [OF futex_laws_fifo _ deadlock_outcome(1) deadlock_kicks, of 0] deadlock_stuck
  by (simp add: deadlock_outcome(2))

text \<open>
  C11: Stopping ends the calls. In a reachable world of a stopped message in which no thread inside a call
  can make a step, no thread sleeps in either loop of \<open>start_write\<close>; a thread waits for the mutex only
  while some thread keeps a write guard; and a thread asleep in \<open>read\<close> has a message before it that it
  has not seen. So once the write guards are dropped, every call has returned except such a \<open>read\<close>.
\<close>

theorem stop_ends_calls:
  assumes "futex_laws K" "N < 65536" "world_reach K N w"
    and "writer_kicks (mem w) < 2 ^ 32" "done_kicks (mem w) < 2 ^ 32" "is_stopped (msg (mem w))"
    and "\<forall>t < N. \<forall>spurious. thread_step K t spurious (pcs w t) (mem w) = None"
  shows "at_rest (pcs w t) \<or>
    mutex_view (pcs w t) = Acquiring Lock_asleep \<and> (\<exists>u. pcs w u = Write_guard) \<or>
    (\<exists>last_seen block ticket. pcs w t = Reading last_seen block (R_wait ticket Cv_asleep) \<and>
      has_new_data last_seen (msg (mem w)))"
proof -
  have world: "stuck_world K N w" using assms by (simp add: stuck_world_def stuck_def)
  have halted: "halted (mem w)" using assms(6) by (simp add: is_stopped_def)
  have "\<not> in_first_loop (pcs w u) \<and> \<not> in_second_loop (pcs w u)" for u
    using stuck_in_loop [OF world, of u] stuck_done_sleeper(1) [OF world] halted by blast
  with stuck_thread_cases [OF world, of t] halted show ?thesis by (auto simp: has_new_data_def)
qed

lemma stranded_stuck:
  "thread_step fifo_kernel t b (pcs (outcome_of stranded_schedule) t) (mem (outcome_of stranded_schedule)) = None"
  using stranded_outcome(4) by (simp add: stranded_outcome(3) writer_cell_def fifo_kernel_def)

lemma stranded_kicks:
  "writer_kicks (mem (outcome_of stranded_schedule)) < 2 ^ 32"
  "done_kicks (mem (outcome_of stranded_schedule)) < 2 ^ 32"
  by (simp_all add: outcome_of_def stranded_schedule_def write_once_def run_simps)

theorem stop_ends_calls_witness:
  "is_stopped (msg (mem (outcome_of stranded_schedule))) \<and>
   pcs (outcome_of stranded_schedule) 2 = Reading 0 True (R_wait 2 Cv_asleep) \<and>
   has_new_data 0 (msg (mem (outcome_of stranded_schedule)))"
proof -
  have "is_stopped (msg (mem (outcome_of stranded_schedule)))"
    using stranded_outcome(5)
    by (simp add: is_stopped_def get_sequence_state_def SequenceState_from_def mask_numerals)
  with stop_ends_calls [OF futex_laws_fifo _ stranded_outcome(1) stranded_kicks, of 2] stranded_stuck
  show ?thesis by (simp add: stranded_outcome(2))
qed

end
