(* ===== verification/Message_Solo.thy ===== *)
theory Message_Solo
  imports Message_Steps Message_Behaviour
begin

text \<open>
  The two models of the shared message against each other: a thread of \<open>Message_Steps\<close> that runs
  undisturbed, one atomic access after the other, against the functions over whole operations of
  \<open>Shared_Message\<close>; and the compare-exchange loop of \<open>update_reader_state\<close> under interference.
\<close>

section \<open>Undisturbed runs\<close>

text \<open>\<open>n\<close> accesses of thread \<open>t\<close>, with no other thread in between.\<close>

fun solo :: "'k futex_kernel \<Rightarrow> tid \<Rightarrow> nat \<Rightarrow> pc \<Rightarrow> 'k shared \<Rightarrow> ('k shared \<times> pc) option" where
  "solo K t 0 pc s = Some (s, pc)"
| "solo K t (Suc n) pc s =
     (case thread_step K t False pc s of None \<Rightarrow> None | Some (s', pc') \<Rightarrow> solo K t n pc' s')"

lemma solo_add:
  "solo K t a pc s = Some (s', pc') \<Longrightarrow> solo K t (a + b) pc s = solo K t b pc' s'"
  by (induction a arbitrary: pc s) (auto split: option.splits)

text \<open>From \<open>pc\<close> over the memory \<open>m\<close> the thread gets to \<open>pc'\<close> over \<open>m'\<close> in at most \<open>b\<close> accesses.\<close>

definition solo_to :: "'k futex_kernel \<Rightarrow> tid \<Rightarrow> nat \<Rightarrow> pc \<Rightarrow> shared_message \<Rightarrow> pc \<Rightarrow> shared_message \<Rightarrow> bool" where
  "solo_to K t b pc m pc' m' \<longleftrightarrow>
     (\<forall>s. msg s = m \<longrightarrow> (\<exists>n s'. n \<le> b \<and> solo K t n pc s = Some (s', pc') \<and> msg s' = m'))"

lemma solo_to_refl: "solo_to K t b pc m pc m"
  unfolding solo_to_def by (intro allI impI exI [of _ 0]) auto

lemma solo_to_trans:
  assumes "solo_to K t a pc m pc1 m1" "solo_to K t b pc1 m1 pc' m'"
  shows "solo_to K t (a + b) pc m pc' m'"
  unfolding solo_to_def
proof (intro allI impI)
  fix s :: "'a shared"
  assume "msg s = m"
  with assms(1) obtain n s1 where 1: "n \<le> a" "solo K t n pc s = Some (s1, pc1)" "msg s1 = m1"
    unfolding solo_to_def by blast
  with assms(2) obtain n' s' where 2: "n' \<le> b" "solo K t n' pc1 s1 = Some (s', pc')" "msg s' = m'"
    unfolding solo_to_def by blast
  from solo_add [OF 1(2), of n'] 1 2
  show "\<exists>n s'. n \<le> a + b \<and> solo K t n pc s = Some (s', pc') \<and> msg s' = m'"
    by (intro exI [of _ "n + n'"] exI [of _ s']) simp
qed

lemma solo_to_step:
  assumes "\<And>s. msg s = m \<Longrightarrow> \<exists>s'. thread_step K t False pc s = Some (s', pc1) \<and> msg s' = m1"
    and "solo_to K t b pc1 m1 pc' m'"
  shows "solo_to K t (Suc b) pc m pc' m'"
proof -
  have "solo_to K t 1 pc m pc1 m1"
    unfolding solo_to_def
  proof (intro allI impI)
    fix s :: "'a shared"
    assume "msg s = m"
    then obtain s' where "thread_step K t False pc s = Some (s', pc1)" "msg s' = m1" using assms(1) by blast
    then show "\<exists>n s'. n \<le> 1 \<and> solo K t n pc s = Some (s', pc1) \<and> msg s' = m1"
      by (intro exI [of _ 1] exI [of _ s']) simp
  qed
  from solo_to_trans [OF this assms(2)] show ?thesis by simp
qed

lemma solo_to_mono: "solo_to K t a pc m pc' m' \<Longrightarrow> a \<le> b \<Longrightarrow> solo_to K t b pc m pc' m'"
  unfolding solo_to_def by (metis le_trans)

section \<open>The pieces the operations are made of\<close>

text \<open>The loop of \<open>update_reader_state\<close>, wherever it is called: at most two accesses.\<close>

definition updates_in :: "'k futex_kernel \<Rightarrow> tid \<Rightarrow> mutator \<Rightarrow> (urs_pc \<Rightarrow> pc) \<Rightarrow> (panic + ReadersStateCount \<Rightarrow> pc) \<Rightarrow> bool" where
  "updates_in K t mu at fin \<longleftrightarrow>
     (\<forall>pc s. thread_step K t False (at pc) s =
        (case update_step mu False pc (readers_state (msg s)) of
           (w, Inl pc') \<Rightarrow> Some (put_readers w s, at pc')
         | (w, Inr r) \<Rightarrow> Some (put_readers w s, fin r)))"

lemma msg_put_readers: "msg (put_readers w s) = (msg s)\<lparr>readers_state := w\<rparr>"
  by (simp add: put_readers_def)

lemma readers_state_same: "m\<lparr>readers_state := readers_state m\<rparr> = m"
  by simp

lemma solo_update:
  assumes at: "updates_in K t mu at fin"
  shows "solo_to K t 2 (at Urs_load) m (fin (fst (update_reader_state mu m))) (snd (update_reader_state mu m))"
proof -
  note step = at [unfolded updates_in_def, rule_format]
  have load: "\<exists>s'. thread_step K t False (at Urs_load) s = Some (s', case urs_attempt mu (readers_state m) of
        Inl pc \<Rightarrow> at pc | Inr r \<Rightarrow> fin r) \<and> msg s' = m" if "msg s = m" for s
    using that by (simp add: step msg_put_readers split: sum.splits)
  show ?thesis
  proof (cases "urs_attempt mu (readers_state m)")
    case (Inr r)
    then have "update_reader_state mu m = (r, m)"
      by (auto simp: urs_attempt_def update_reader_state_def Let_def split: sum.splits if_splits)
    with solo_to_step [OF load solo_to_refl [where b = 1]] Inr show ?thesis by (simp add: numeral_2_eq_2)
  next
    case (Inl pc)
    then obtain policy where mu: "mutate mu (ReadersStateCount_from (readers_state m)) = Inr policy"
        "readers_state m \<noteq> ReadersStateCount_to_packed policy" "pc = Urs_cas (readers_state m)"
      by (auto simp: urs_attempt_def split: sum.splits if_splits)
    let ?m' = "m\<lparr>readers_state := ReadersStateCount_to_packed policy\<rparr>"
    have "\<exists>s'. thread_step K t False (at pc) s = Some (s', fin (Inr policy)) \<and> msg s' = ?m'" if "msg s = m" for s
      using that mu by (simp add: step msg_put_readers)
    from solo_to_step [OF load [unfolded Inl sum.case] solo_to_step [OF this solo_to_refl [where b = 0]]]
    have "solo_to K t 2 (at Urs_load) m (fin (Inr policy)) ?m'" by (simp add: numeral_2_eq_2)
    with mu show ?thesis by (simp add: update_reader_state_def)
  qed
qed

text \<open>A notification, wherever it is made: two accesses.\<close>

definition notifies_in :: "'k futex_kernel \<Rightarrow> tid \<Rightarrow> ('k futex_kernel \<Rightarrow> cv_notify_pc \<Rightarrow> 'k shared \<Rightarrow> 'k shared \<times> (cv_notify_pc + unit)) \<Rightarrow> (cv_notify_pc \<Rightarrow> pc) \<Rightarrow> pc \<Rightarrow> bool" where
  "notifies_in K t notify at fin \<longleftrightarrow>
     (\<forall>pc s. thread_step K t False (at pc) s =
        (case notify K pc s of (s', Inl pc') \<Rightarrow> Some (s', at pc') | (s', Inr _) \<Rightarrow> Some (s', fin)))"

lemma solo_notify_writers:
  assumes "notifies_in K t notify_writers_step at fin"
  shows "solo_to K t 2 (at Cv_add) m fin (notify_writer_condvar m)"
proof -
  note step = assms [unfolded notifies_in_def, rule_format]
  have 1: "\<exists>s'. thread_step K t False (at Cv_add) s = Some (s', at Cv_wake) \<and> msg s' = notify_writer_condvar m"
    if "msg s = m" for s
    using that by (simp add: step notify_writers_step_def writer_cell_def put_writer_cell_def
        notify_writer_condvar_def)
  have 2: "\<exists>s'. thread_step K t False (at Cv_wake) s = Some (s', fin) \<and> msg s' = m1" if "msg s = m1" for s m1
    using that by (simp add: step notify_writers_step_def writer_cell_def put_writer_cell_def)
  from solo_to_step [OF 1 solo_to_step [OF 2 solo_to_refl [where b = 0]]]
  show ?thesis by (simp add: numeral_2_eq_2)
qed

lemma solo_notify_done:
  assumes "notifies_in K t notify_done_step at fin"
  shows "solo_to K t 2 (at Cv_add) m fin (notify_reader_done_condvar m)"
proof -
  note step = assms [unfolded notifies_in_def, rule_format]
  have 1: "\<exists>s'. thread_step K t False (at Cv_add) s = Some (s', at Cv_wake) \<and> msg s' = notify_reader_done_condvar m"
    if "msg s = m" for s
    using that by (simp add: step notify_done_step_def done_cell_def put_done_cell_def
        notify_reader_done_condvar_def)
  have 2: "\<exists>s'. thread_step K t False (at Cv_wake) s = Some (s', fin) \<and> msg s' = m1" if "msg s = m1" for s m1
    using that by (simp add: step notify_done_step_def done_cell_def put_done_cell_def)
  from solo_to_step [OF 1 solo_to_step [OF 2 solo_to_refl [where b = 0]]]
  show ?thesis by (simp add: numeral_2_eq_2)
qed

text \<open>Straight-line code: a given number of accesses evaluated at once.\<close>

lemma solo_toI:
  "(\<And>s. msg s = m \<Longrightarrow> \<exists>s'. solo K t n pc s = Some (s', pc') \<and> msg s' = m') \<Longrightarrow> solo_to K t n pc m pc' m'"
  unfolding solo_to_def by blast

lemmas cell_simps = mutex_cell_def put_mutex_cell_def done_cell_def put_flags_def condvar_value_def

lemma solo_unlock:
  assumes "writer_mutex m = LOCKED"
  shows "solo_to K t 1 (Unlocking r Unlock_swap) m (Ready r) (mutex_unlock m)"
  using assms by (intro solo_toI) (simp add: cell_simps swap_word_def mutex_unlock_def lock_words)

lemma solo_lock_write:
  assumes "\<not> is_stopped m" "writer_mutex m = UNLOCKED" "\<not> unread m"
  shows "solo_to K t 5 (Starting call SW_stopped0) m (Starting call SW_mark) (m\<lparr>writer_mutex := LOCKED\<rparr>)"
proof (cases "0 < get_target_consumed (get_reader_state m) \<and> 0 < sequence (get_sequence_state m)")
  case True
  then have "\<not> data_consumed (get_reader_state m) < get_target_consumed (get_reader_state m)"
    using assms(3) by (simp add: unread_iff)
  with True assms(1,2) show ?thesis
    by (intro solo_toI) (simp add: numeral_eq_Suc cell_simps compare_exchange_def is_stopped_def sw_while1_def
        get_sequence_state_def get_reader_state_def)
next
  case False
  have "solo_to K t 4 (Starting call SW_stopped0) m (Starting call SW_mark) (m\<lparr>writer_mutex := LOCKED\<rparr>)"
    using False assms(1,2)
    by (intro solo_toI) (simp add: numeral_eq_Suc cell_simps compare_exchange_def is_stopped_def
        get_sequence_state_def get_reader_state_def)
  then show ?thesis by (rule solo_to_mono) simp
qed

lemma solo_copy:
  assumes "length d \<le> length (data m)" "i \<le> length d" "take i (data m) = take i d"
  shows "solo_to K t (Suc (length d - i)) (Copying d i) m (Publishing (of_nat (length d)) d P_size)
    (m\<lparr>data := overwrite_prefix d (data m)\<rparr>)"
  using assms
proof (induction "length d - i" arbitrary: i m)
  case 0
  then have i: "i = length d" by simp
  with 0(4) have "take (length d) (data m) = d" by simp
  then have "overwrite_prefix d (data m) = data m"
    unfolding overwrite_prefix_def by (metis append_take_drop_id)
  with i show ?case by (intro solo_toI) simp
next
  case (Suc n)
  then have i: "i < length d" by simp
  let ?m1 = "m\<lparr>data := (data m)[i := d ! i]\<rparr>"
  have "drop (length d) ((data m)[i := d ! i]) = drop (length d) (data m)" using i by simp
  then have same: "overwrite_prefix d (data ?m1) = overwrite_prefix d (data m)"
    by (simp add: overwrite_prefix_def)
  have "take (Suc i) (data ?m1) = take (Suc i) d" using i Suc.prems by (simp add: take_Suc_update)
  with Suc.hyps(1) [of "Suc i" ?m1] Suc.hyps(2) Suc.prems i
  have "solo_to K t (Suc (length d - Suc i)) (Copying d (Suc i)) ?m1 (Publishing (of_nat (length d)) d P_size)
      (?m1\<lparr>data := overwrite_prefix d (data ?m1)\<rparr>)" by simp
  then have "solo_to K t (Suc (length d - Suc i)) (Copying d (Suc i)) ?m1 (Publishing (of_nat (length d)) d P_size)
      (m\<lparr>data := overwrite_prefix d (data m)\<rparr>)" using same by simp
  from solo_to_step [OF _ this, of m "Copying d i"] i show ?case by (simp add: Suc_diff_Suc)
qed

lemma solo_publish:
  assumes "writer_mutex m = LOCKED"
  shows "solo_to K t 8 (Publishing sz p P_size) m (Ready (Ret_sequence (fst (publish_write sz m))))
    (snd (publish_write sz m))"
proof -
  let ?m1 = "m\<lparr>data_size := sz\<rparr>"
  let ?m2 = "snd (update_reader_state Reset_consumed ?m1)"
  let ?q = "next_sequence (sequence (get_sequence_state ?m2))"
  let ?m3 = "?m2\<lparr>sequence_and_flags := published_packed (sequence_and_flags ?m2)\<rparr>"
  have 1: "solo_to K t 1 (Publishing sz p P_size) m (Publishing sz p (P_reset Urs_load)) ?m1"
    by (rule solo_toI) simp
  have "updates_in K t Reset_consumed (\<lambda>pc. Publishing sz p (P_reset pc)) (\<lambda>_. Publishing sz p P_load)"
    by (auto simp: updates_in_def split: prod.splits sum.splits)
  from solo_update [OF this, of ?m1]
  have 2: "solo_to K t 2 (Publishing sz p (P_reset Urs_load)) ?m1 (Publishing sz p P_load) ?m2" .
  have 3: "solo_to K t 2 (Publishing sz p P_load) ?m2 (Publishing sz p (P_notify ?q Cv_add)) ?m3"
    by (rule solo_toI) (simp add: numeral_2_eq_2 put_flags_def get_sequence_state_def Let_def)
  have "notifies_in K t notify_writers_step (\<lambda>pc. Publishing sz p (P_notify ?q pc))
      (Unlocking (Ret_sequence (Some ?q)) Unlock_swap)"
    by (auto simp: notifies_in_def split: prod.splits sum.splits)
  from solo_notify_writers [OF this, of ?m3]
  have 4: "solo_to K t 2 (Publishing sz p (P_notify ?q Cv_add)) ?m3
      (Unlocking (Ret_sequence (Some ?q)) Unlock_swap) (notify_writer_condvar ?m3)" .
  have "writer_mutex (notify_writer_condvar ?m3) = LOCKED"
    using assms by (simp add: notify_writer_condvar_def update_reader_state_eq)
  from solo_to_trans [OF 1 solo_to_trans [OF 2 solo_to_trans [OF 3 solo_to_trans [OF 4 solo_unlock [OF this]]]]]
  show ?thesis by (simp add: publish_write_def published_packed_def get_sequence_state_def Let_def)
qed

section \<open>Falling asleep\<close>

text \<open>A kernel that puts every caller of \<open>futex_wait\<close> to sleep whose expected value agrees.\<close>

definition no_spurious_return :: "'k futex_kernel \<Rightarrow> bool" where
  "no_spurious_return K \<longleftrightarrow> futex_laws K \<and> (\<forall>t w q. fst (kernel_wait K t w w q))"

lemma sleeps_in:
  assumes "no_spurious_return K"
  shows "\<exists>q'. kernel_wait K t w w q = (True, q') \<and> t \<in> kernel_asleep K q'"
proof -
  obtain q' where q': "kernel_wait K t w w q = (True, q')"
    using assms by (metis (full_types) no_spurious_return_def prod.collapse)
  with assms kernel_wait_sleeps show ?thesis by (fastforce simp: no_spurious_return_def)
qed

fun sleeping :: "pc \<Rightarrow> bool" where
  "sleeping (Starting call (SW_wait1 ticket Cv_asleep)) = True"
| "sleeping (Starting call (SW_wait2 ticket Cv_asleep)) = True"
| "sleeping (Reading last_seen block (R_wait ticket Cv_asleep)) = True"
| "sleeping _ = False"

text \<open>The thread is asleep, and only a wake-up lets it go on.\<close>

definition stuck :: "'k futex_kernel \<Rightarrow> tid \<Rightarrow> pc \<Rightarrow> 'k shared \<Rightarrow> bool" where
  "stuck K t pc s \<longleftrightarrow> sleeping pc \<and> (\<forall>spurious. thread_step K t spurious pc s = None)"

definition solo_sleeps :: "'k futex_kernel \<Rightarrow> tid \<Rightarrow> nat \<Rightarrow> pc \<Rightarrow> shared_message \<Rightarrow> shared_message \<Rightarrow> bool" where
  "solo_sleeps K t b pc m m' \<longleftrightarrow>
     (\<forall>s. msg s = m \<longrightarrow> (\<exists>n s' pc'. n \<le> b \<and> solo K t n pc s = Some (s', pc') \<and> stuck K t pc' s' \<and> msg s' = m'))"

lemma solo_sleeps_after:
  assumes "solo_to K t a pc m pc1 m1" "solo_sleeps K t b pc1 m1 m'"
  shows "solo_sleeps K t (a + b) pc m m'"
  unfolding solo_sleeps_def
proof (intro allI impI)
  fix s :: "'a shared"
  assume "msg s = m"
  with assms(1) obtain n s1 where 1: "n \<le> a" "solo K t n pc s = Some (s1, pc1)" "msg s1 = m1"
    unfolding solo_to_def by blast
  with assms(2) obtain n' s' pc' where
    2: "n' \<le> b" "solo K t n' pc1 s1 = Some (s', pc')" "stuck K t pc' s'" "msg s' = m'"
    unfolding solo_sleeps_def by blast
  from solo_add [OF 1(2), of n'] 1 2
  show "\<exists>n s' pc'. n \<le> a + b \<and> solo K t n pc s = Some (s', pc') \<and> stuck K t pc' s' \<and> msg s' = m'"
    by (intro exI [of _ "n + n'"] exI [of _ s'] exI [of _ pc']) simp
qed

text \<open>A \<open>wait\<close> whose ticket is current, wherever it is called.\<close>

definition waits_in :: "'k futex_kernel \<Rightarrow> tid \<Rightarrow> u32 \<Rightarrow> ('k shared \<Rightarrow> 'k futex) \<Rightarrow> ('k futex \<Rightarrow> 'k shared \<Rightarrow> 'k shared) \<Rightarrow> (cv_wait_pc \<Rightarrow> pc) \<Rightarrow> pc \<Rightarrow> bool" where
  "waits_in K t ticket ld st at fin \<longleftrightarrow>
     (\<forall>spurious pc s. thread_step K t spurious (at pc) s =
        (case condvar_wait_step K t ticket pc (ld s) of
           None \<Rightarrow> None
         | Some (c, Inl pc') \<Rightarrow> Some (st c s, at pc')
         | Some (c, Inr _) \<Rightarrow> Some (st c s, fin))) \<and>
     (\<forall>c s. fst c = fst (ld s) \<longrightarrow> msg (st c s) = msg s \<and> ld (st c s) = c) \<and>
     sleeping (at Cv_asleep)"

lemma solo_wait:
  assumes K: "no_spurious_return K" and at: "waits_in K t ticket ld st at fin"
    and word: "\<And>s. msg s = m \<Longrightarrow> fst (ld s) = ticket"
  shows "solo_sleeps K t (Suc n) (at (Cv_spin n)) m m"
proof -
  have step: "thread_step K t b (at pc) s = (case condvar_wait_step K t ticket pc (ld s) of
        None \<Rightarrow> None | Some (c, Inl pc') \<Rightarrow> Some (st c s, at pc') | Some (c, Inr _) \<Rightarrow> Some (st c s, fin))"
    for b pc s using at unfolding waits_in_def by blast
  have put_eq: "fst c = fst (ld s) \<Longrightarrow> msg (st c s) = msg s \<and> ld (st c s) = c" for c s
    using at unfolding waits_in_def by blast
  have "\<exists>s' pc'. solo K t (Suc n) (at (Cv_spin n)) s = Some (s', pc') \<and> stuck K t pc' s' \<and> msg s' = m"
    if "msg s = m" for s
    using that
  proof (induction n arbitrary: s)
    case 0
    obtain q where s: "ld s = (ticket, q)" using word [OF 0] by (cases "ld s") simp
    obtain q' where q': "kernel_wait K t ticket ticket q = (True, q')" "t \<in> kernel_asleep K q'"
      using sleeps_in [OF K] by blast
    let ?s' = "st (ticket, q') s"
    have s': "msg ?s' = m" "ld ?s' = (ticket, q')" using put_eq [of "(ticket, q')" s] s 0 by simp_all
    with q'(2) step have "thread_step K t b (at Cv_asleep) ?s' = None" for b by simp
    moreover have "sleeping (at Cv_asleep)" using at by (simp add: waits_in_def)
    ultimately show ?case using s q'(1) s'(1) step [of False "Cv_spin 0" s] by (simp add: stuck_def)
  next
    case (Suc n)
    obtain q where s: "ld s = (ticket, q)" using word [OF Suc.prems] by (cases "ld s") simp
    let ?s1 = "st (ticket, q) s"
    have "msg ?s1 = m" using put_eq [of "(ticket, q)" s] s Suc.prems by simp
    from Suc.IH [OF this] step [of False "Cv_spin (Suc n)" s] s show ?case by simp
  qed
  then show ?thesis unfolding solo_sleeps_def by blast
qed

section \<open>Every operation\<close>

lemma solo_write_slice:
  assumes m: "writer_mutex m = UNLOCKED" and run: "write_slice d [] m = (r, m', es)" and r: "r \<noteq> Blocks"
  shows "solo_to K t (20 + length d) (Starting (By_slice d) SW_stopped0) m
    (Ready (case r of Returns q \<Rightarrow> Ret_sequence q | Panics p \<Rightarrow> Ret_panic p | Blocks \<Rightarrow> Ret_unit)) m'"
proof (cases "is_stopped m")
  case True
  then have "solo_to K t 1 (Starting (By_slice d) SW_stopped0) m (Ready (Ret_sequence None)) m"
    by (intro solo_toI) (simp add: is_stopped_def)
  then have "solo_to K t (20 + length d) (Starting (By_slice d) SW_stopped0) m (Ready (Ret_sequence None)) m"
    by (rule solo_to_mono) simp
  with True run show ?thesis by (auto simp: write_slice_def start_write_alone)
next
  case False
  let ?m1 = "m\<lparr>writer_mutex := LOCKED, sequence_and_flags := sequence_and_flags m OR WRITING_IN_PROGRESS_MASK\<rparr>"
  have go: "\<not> unread m" "\<not> 0 < active_readers (get_reader_state m)"
    using run r False m by (auto simp: write_slice_def start_write_alone Let_def split: if_splits)
  let ?granted = "if length d > length (data m)
     then Unlocking (Ret_panic (Capacity_exceeded (length d) (length (data m)))) Unlock_swap else Copying d 0"
  have "solo_to K t 3 (Starting (By_slice d) SW_mark) (m\<lparr>writer_mutex := LOCKED\<rparr>) ?granted ?m1"
    using go(2) by (intro solo_toI) (simp add: numeral_eq_Suc cell_simps get_reader_state_def)
  from solo_to_trans [OF solo_lock_write [OF False m go(1)] this]
  have start: "solo_to K t 8 (Starting (By_slice d) SW_stopped0) m ?granted ?m1" by simp
  show ?thesis
  proof (cases "length d > length (data m)")
    case True
    with start have "solo_to K t 8 (Starting (By_slice d) SW_stopped0) m
        (Unlocking (Ret_panic (Capacity_exceeded (length d) (length (data m)))) Unlock_swap) ?m1" by simp
    from solo_to_mono [OF solo_to_trans [OF this solo_unlock], of "20 + length d"] True run go False m
    show ?thesis by (auto simp: write_slice_def start_write_alone Let_def)
  next
    case False
    let ?m2 = "?m1\<lparr>data := overwrite_prefix d (data ?m1)\<rparr>"
    have "solo_to K t (Suc (length d)) (Copying d 0) ?m1 (Publishing (of_nat (length d)) d P_size) ?m2"
      using solo_copy [of d ?m1 0 K t] False by simp
    from solo_to_trans [OF this solo_publish]
    have "solo_to K t (Suc (length d) + 8) (Copying d 0) ?m1
        (Ready (Ret_sequence (fst (publish_write (of_nat (length d)) ?m2)))) (snd (publish_write (of_nat (length d)) ?m2))"
      by simp
    moreover from start False have "solo_to K t 8 (Starting (By_slice d) SW_stopped0) m (Copying d 0) ?m1" by simp
    ultimately have "solo_to K t (20 + length d) (Starting (By_slice d) SW_stopped0) m
        (Ready (Ret_sequence (fst (publish_write (of_nat (length d)) ?m2)))) (snd (publish_write (of_nat (length d)) ?m2))"
      using solo_to_mono [OF solo_to_trans] by fastforce
    moreover have "r = Returns (fst (publish_write (of_nat (length d)) ?m2))"
      "m' = snd (publish_write (of_nat (length d)) ?m2)"
      using run go False \<open>\<not> is_stopped m\<close> m
      by (auto simp: write_slice_def start_write_alone Let_def case_prod_beta)
    ultimately show ?thesis by simp
  qed
qed

lemma solo_sleeps_mono: "solo_sleeps K t a pc m m' \<Longrightarrow> a \<le> b \<Longrightarrow> solo_sleeps K t b pc m m'"
  unfolding solo_sleeps_def by (metis le_trans)

lemma done_waits:
  "waits_in K t ticket done_cell put_done_cell (\<lambda>pc. Starting call (SW_wait1 ticket pc)) (Starting call SW_reticket1)"
  "waits_in K t ticket done_cell put_done_cell (\<lambda>pc. Starting call (SW_wait2 ticket pc)) (Starting call SW_ticket2)"
  by (auto simp: waits_in_def done_cell_def put_done_cell_def split: option.splits prod.splits sum.splits)

lemma writer_waits:
  "waits_in K t ticket writer_cell put_writer_cell (\<lambda>pc. Reading q block (R_wait ticket pc)) (Reading q block R_ticket)"
  by (auto simp: waits_in_def writer_cell_def put_writer_cell_def split: option.splits prod.splits sum.splits)

lemma solo_write_unread:
  assumes K: "no_spurious_return K" and m: "\<not> is_stopped m" "writer_mutex m = UNLOCKED" "unread m"
  shows "solo_sleeps K t (8 + Suc CV_SPINS) (Starting call SW_stopped0) m
    (notify_writer_condvar (m\<lparr>writer_mutex := LOCKED\<rparr>))"
proof -
  let ?m1 = "m\<lparr>writer_mutex := LOCKED\<rparr>" and ?c = "reader_done_condvar m"
  have "0 < get_target_consumed (get_reader_state m)"
    using m(3) word_zero_le le_less_trans unfolding unread_iff by blast
  with m have "solo_to K t 6 (Starting call SW_stopped0) m (Starting call (SW_kick ?c Cv_add)) ?m1"
    by (intro solo_toI) (simp add: numeral_eq_Suc cell_simps compare_exchange_def is_stopped_def sw_while1_def
        unread_iff get_sequence_state_def get_reader_state_def)
  moreover have "notifies_in K t notify_writers_step (\<lambda>pc. Starting call (SW_kick ?c pc))
      (Starting call (SW_wait1 ?c (Cv_spin CV_SPINS)))"
    by (auto simp: notifies_in_def split: prod.splits sum.splits)
  note solo_notify_writers [OF this, of ?m1]
  ultimately have "solo_to K t (6 + 2) (Starting call SW_stopped0) m
      (Starting call (SW_wait1 ?c (Cv_spin CV_SPINS))) (notify_writer_condvar ?m1)"
    by (rule solo_to_trans)
  then have "solo_to K t 8 (Starting call SW_stopped0) m
      (Starting call (SW_wait1 ?c (Cv_spin CV_SPINS))) (notify_writer_condvar ?m1)" by simp
  then show ?thesis
    by (rule solo_sleeps_after [OF _ solo_wait [OF K done_waits(1)]])
      (simp add: done_cell_def notify_writer_condvar_def)
qed

lemma solo_write_readers_active:
  assumes K: "no_spurious_return K" and m: "\<not> is_stopped m" "writer_mutex m = UNLOCKED" "\<not> unread m"
    and active: "0 < active_readers (get_reader_state m)"
  shows "solo_sleeps K t (9 + Suc CV_SPINS) (Starting call SW_stopped0) m
    (m\<lparr>writer_mutex := LOCKED, sequence_and_flags := sequence_and_flags m OR WRITING_IN_PROGRESS_MASK\<rparr>)"
    (is "solo_sleeps K t _ _ m ?m1")
proof -
  let ?c = "reader_done_condvar m"
  have "\<not> stopped (get_sequence_state ?m1)"
    using m(1) by (simp add: get_sequence_state_def is_stopped_def packed_simps)
  with active have "solo_to K t 4 (Starting call SW_mark) (m\<lparr>writer_mutex := LOCKED\<rparr>)
      (Starting call (SW_wait2 ?c (Cv_spin CV_SPINS))) ?m1"
    by (intro solo_toI) (simp add: numeral_eq_Suc cell_simps get_reader_state_def)
  from solo_to_trans [OF solo_lock_write [OF m] this]
  have "solo_to K t 9 (Starting call SW_stopped0) m (Starting call (SW_wait2 ?c (Cv_spin CV_SPINS))) ?m1" by simp
  then show ?thesis
    by (rule solo_sleeps_after [OF _ solo_wait [OF K done_waits(2)]]) (simp add: done_cell_def)
qed

lemma solo_write_sleeps:
  assumes K: "no_spurious_return K" and m: "writer_mutex m = UNLOCKED" and run: "write_slice d [] m = (Blocks, m', es)"
  shows "solo_sleeps K t 1020 (Starting (By_slice d) SW_stopped0) m m'"
proof -
  have ns: "\<not> is_stopped m" using run by (auto simp: write_slice_def start_write_alone split: if_splits)
  show ?thesis
  proof (cases "unread m")
    case True
    with run ns m have "m' = notify_writer_condvar (m\<lparr>writer_mutex := LOCKED\<rparr>)"
      by (auto simp: write_slice_def start_write_alone)
    with solo_sleeps_mono [OF solo_write_unread [OF K ns m True]] show ?thesis by (simp add: CV_SPINS_def)
  next
    case False
    with run ns m have "0 < active_readers (get_reader_state m)"
      "m' = m\<lparr>writer_mutex := LOCKED, sequence_and_flags := sequence_and_flags m OR WRITING_IN_PROGRESS_MASK\<rparr>"
      by (auto simp: write_slice_def start_write_alone Let_def split: if_splits prod.splits)
    with solo_sleeps_mono [OF solo_write_readers_active [OF K ns m False]] show ?thesis by (simp add: CV_SPINS_def)
  qed
qed

lemma solo_read:
  assumes run: "read q block [] m = (r, m', es)" and "r \<noteq> Blocks"
  shows "solo_to K t 20 (Reading q block R_ticket) m
    (case r of Returns (Some g) \<Rightarrow> Read_guard (guard_sequence g) | _ \<Rightarrow> Ready Ret_no_guard) m'"
proof (cases "sequence (get_sequence_state m) = q")
  case True
  with assms have r: "r = Returns None" "m' = m" "stopped (get_sequence_state m) \<or> \<not> block"
    by (auto simp: read_alone split: if_splits)
  with True have "solo_to K t 2 (Reading q block R_ticket) m (Ready Ret_no_guard) m"
    by (intro solo_toI) (auto simp: numeral_eq_Suc Let_def)
  with r solo_to_mono show ?thesis by fastforce
next
  case False
  let ?q = "sequence (get_sequence_state m)" and ?m1 = "snd (update_reader_state Register_reader m)"
  from False assms have r: "r = Returns (Some \<lparr>guard_sequence = ?q\<rparr>)" "m' = ?m1"
    "\<not> writing_in_progress (get_sequence_state m)"
    by (auto simp: read_alone split: if_splits)
  from False r(3) have "solo_to K t 2 (Reading q block R_ticket) m (Reading q block (R_register ?q Urs_load)) m"
    by (intro solo_toI) (auto simp: numeral_eq_Suc Let_def)
  moreover have "updates_in K t Register_reader (\<lambda>pc. Reading q block (R_register ?q pc))
      (\<lambda>_. Reading q block (R_verify ?q))"
    by (auto simp: updates_in_def split: prod.splits sum.splits)
  note solo_update [OF this, of m]
  moreover have "solo_to K t 1 (Reading q block (R_verify ?q)) ?m1 (Read_guard ?q) ?m1"
    using r(3) by (intro solo_toI) (simp add: Let_def sequence_state_update_reader)
  ultimately have "solo_to K t (2 + (2 + 1)) (Reading q block R_ticket) m (Read_guard ?q) ?m1"
    by (intro solo_to_trans)
  then have "solo_to K t 20 (Reading q block R_ticket) m (Read_guard ?q) ?m1" by (rule solo_to_mono) simp
  with r show ?thesis by simp
qed

lemma solo_read_sleeps:
  assumes K: "no_spurious_return K" and run: "read q block [] m = (Blocks, m', es)"
  shows "solo_sleeps K t 1020 (Reading q block R_ticket) m m'"
proof -
  let ?c = "writer_condvar m"
  from run have m': "m' = m" by (auto simp: read_alone split: if_splits)
  from run have "solo_to K t 2 (Reading q block R_ticket) m (Reading q block (R_wait ?c (Cv_spin CV_SPINS))) m"
    by (intro solo_toI) (auto simp: numeral_eq_Suc Let_def condvar_value_def writer_cell_def read_alone split: if_splits)
  from solo_sleeps_after [OF this solo_wait [OF K writer_waits]]
  have "solo_sleeps K t (2 + Suc CV_SPINS) (Reading q block R_ticket) m m" by (simp add: writer_cell_def)
  with m' show ?thesis by (auto elim: solo_sleeps_mono simp: CV_SPINS_def)
qed

lemma solo_release:
  "solo_to K t 20 (Releasing (Rel_update Urs_load)) m (Ready Ret_unit) (release_active_reader m)"
proof -
  obtain rs where rs: "fst (update_reader_state Release_reader m) = Inr rs"
    by (simp add: update_reader_state_def Let_def)
  let ?m1 = "snd (update_reader_state Release_reader m)"
  let ?next = "\<lambda>r :: panic + ReadersStateCount. case r of Inr reader_state \<Rightarrow>
        (if active_readers reader_state = 0 then Releasing (Rel_notify Cv_add) else Ready Ret_unit)
      | Inl _ \<Rightarrow> Ready Ret_unit"
  have "updates_in K t Release_reader (\<lambda>pc. Releasing (Rel_update pc)) ?next"
    by (auto simp: updates_in_def split: prod.splits sum.splits)
  from solo_update [OF this, of m]
  have upd: "solo_to K t 2 (Releasing (Rel_update Urs_load)) m (?next (Inr rs)) ?m1" by (simp only: rs)
  have "notifies_in K t notify_done_step (\<lambda>pc. Releasing (Rel_notify pc)) (Ready Ret_unit)"
    by (auto simp: notifies_in_def split: prod.splits sum.splits)
  note notify = solo_notify_done [OF this, of ?m1]
  have rel: "release_active_reader m = (if active_readers rs = 0 then notify_reader_done_condvar ?m1 else ?m1)"
    using rs by (simp add: release_active_reader_def case_prod_beta)
  have "solo_to K t (2 + 2) (Releasing (Rel_update Urs_load)) m (Ready Ret_unit) (release_active_reader m)"
  proof (cases "active_readers rs = 0")
    case True
    with upd have "solo_to K t 2 (Releasing (Rel_update Urs_load)) m (Releasing (Rel_notify Cv_add)) ?m1" by simp
    from solo_to_trans [OF this notify] True rel show ?thesis by simp
  next
    case False
    with upd have "solo_to K t 2 (Releasing (Rel_update Urs_load)) m (Ready Ret_unit) ?m1" by simp
    from solo_to_mono [OF this, of "2 + 2"] False rel show ?thesis by simp
  qed
  then show ?thesis by (rule solo_to_mono) simp
qed

lemma solo_stop: "solo_to K t 20 (Stopping St_or) m (Ready Ret_unit) (stop m)"
proof -
  let ?m1 = "m\<lparr>sequence_and_flags := sequence_and_flags m OR STOPPED_MASK\<rparr>"
  have "solo_to K t 1 (Stopping St_or) m (Stopping (St_writers Cv_add)) ?m1"
    by (rule solo_toI) (simp add: put_flags_def)
  moreover have "notifies_in K t notify_writers_step (\<lambda>pc. Stopping (St_writers pc)) (Stopping (St_readers Cv_add))"
    by (auto simp: notifies_in_def split: prod.splits sum.splits)
  note solo_notify_writers [OF this, of ?m1]
  moreover have "notifies_in K t notify_done_step (\<lambda>pc. Stopping (St_readers pc)) (Ready Ret_unit)"
    by (auto simp: notifies_in_def split: prod.splits sum.splits)
  note solo_notify_done [OF this, of "notify_writer_condvar ?m1"]
  ultimately have "solo_to K t (1 + (2 + 2)) (Stopping St_or) m (Ready Ret_unit) (stop m)"
    unfolding stop_def by (intro solo_to_trans)
  then show ?thesis by (rule solo_to_mono) simp
qed

lemma solo_set_target:
  assumes "writer_mutex m = UNLOCKED"
  shows "solo_to K t 20 (Setting_target count (T_lock Lock_fast)) m (Ready Ret_unit)
    (mutex_unlock (snd (update_reader_state (Set_target count) (m\<lparr>writer_mutex := LOCKED\<rparr>))))"
proof -
  let ?m1 = "m\<lparr>writer_mutex := LOCKED\<rparr>"
  have "solo_to K t 1 (Setting_target count (T_lock Lock_fast)) m (Setting_target count (T_update Urs_load)) ?m1"
    using assms by (intro solo_toI) (simp add: cell_simps compare_exchange_def)
  moreover have "updates_in K t (Set_target count) (\<lambda>pc. Setting_target count (T_update pc))
      (\<lambda>_. Unlocking Ret_unit Unlock_swap)"
    by (auto simp: updates_in_def split: prod.splits sum.splits)
  note solo_update [OF this, of ?m1]
  moreover have "writer_mutex (snd (update_reader_state (Set_target count) ?m1)) = LOCKED"
    by (simp add: update_reader_state_eq)
  note solo_unlock [OF this]
  ultimately have "solo_to K t (1 + (2 + 1)) (Setting_target count (T_lock Lock_fast)) m (Ready Ret_unit)
    (mutex_unlock (snd (update_reader_state (Set_target count) ?m1)))"
    by (intro solo_to_trans)
  then show ?thesis by (rule solo_to_mono) simp
qed

lemma solo_registration:
  assumes "reader_registration mu m = (r, m')"
  shows "solo_to K t 20 (Registering mu Urs_load) m
    (Ready (case r of Panics p \<Rightarrow> Ret_panic p | _ \<Rightarrow> Ret_unit)) m'"
proof -
  have "updates_in K t mu (\<lambda>pc. Registering mu pc)
      (\<lambda>x. Ready (case x of Inl p \<Rightarrow> Ret_panic p | Inr _ \<Rightarrow> Ret_unit))"
    by (auto simp: updates_in_def split: prod.splits sum.splits)
  from solo_update [OF this, of m]
  have "solo_to K t 20 (Registering mu Urs_load) m
      (Ready (case fst (update_reader_state mu m) of Inl p \<Rightarrow> Ret_panic p | Inr _ \<Rightarrow> Ret_unit))
      (snd (update_reader_state mu m))" by (rule solo_to_mono) simp
  with assms show ?thesis by (auto simp: reader_registration_def split: prod.splits sum.splits)
qed

section \<open>The two models agree\<close>

text \<open>The program counter at the start of a call, and after its return.\<close>

fun call_pc :: "call \<Rightarrow> pc" where
  "call_pc (Call_write_slice d) = entry (Op_write_slice d)"
| "call_pc (Call_read last_seen block) = entry (Op_read last_seen block)"
| "call_pc Call_release = Releasing (Rel_update Urs_load)"
| "call_pc Call_stop = entry Op_stop"
| "call_pc (Call_set_target count) = entry (Op_set_target count)"
| "call_pc Call_add_reader = entry Op_add_reader"
| "call_pc Call_remove_reader = entry Op_remove_reader"

fun result_pc :: "call_result \<Rightarrow> pc" where
  "result_pc (Sequence_result (Returns q)) = Ready (Ret_sequence q)"
| "result_pc (Guard_result (Returns None)) = Ready Ret_no_guard"
| "result_pc (Guard_result (Returns (Some g))) = Read_guard (guard_sequence g)"
| "result_pc (Sequence_result (Panics p)) = Ready (Ret_panic p)"
| "result_pc (Unit_result (Panics p)) = Ready (Ret_panic p)"
| "result_pc _ = Ready Ret_unit"

fun call_bytes :: "call \<Rightarrow> nat" where
  "call_bytes (Call_write_slice d) = length d"
| "call_bytes _ = 0"

lemma solo_call:
  assumes "writer_mutex m = UNLOCKED" "perform c m = (r, m')" "\<not> is_blocked r"
  shows "solo_to K t (20 + call_bytes c) (call_pc c) m (result_pc r) m'"
proof (cases c)
  case (Call_write_slice d)
  with assms obtain o' es where "write_slice d [] m = (o', m', es)" "r = Sequence_result o'" "o' \<noteq> Blocks"
    by (auto split: prod.splits)
  with solo_write_slice [OF assms(1) this(1,3), of K t] Call_write_slice show ?thesis by (cases o') simp_all
next
  case (Call_read q block)
  with assms obtain o' es where run: "read q block [] m = (o', m', es)" "r = Guard_result o'" "o' \<noteq> Blocks"
    by (auto split: prod.splits)
  then have "o' = Returns None \<or> (\<exists>g. o' = Returns (Some g))" by (auto simp: read_alone split: if_splits)
  with solo_read [OF run(1,3), of K t] run(2) Call_read show ?thesis by auto
next
  case (Call_set_target count)
  with assms solo_set_target [OF assms(1), of K t count] show ?thesis
    by (auto simp: set_target_read_count_def mutex_lock_alone)
next
  case Call_add_reader
  with assms obtain o' where "reader_registration Add_reader m = (o', m')" "r = Unit_result o'" "o' \<noteq> Blocks"
    by (auto simp: add_reader_def split: prod.splits)
  with solo_registration [OF this(1), of K t] Call_add_reader show ?thesis by (cases o') simp_all
next
  case Call_remove_reader
  with assms obtain o' where "reader_registration Remove_reader m = (o', m')" "r = Unit_result o'" "o' \<noteq> Blocks"
    by (auto simp: remove_reader_def split: prod.splits)
  with solo_registration [OF this(1), of K t] Call_remove_reader show ?thesis by (cases o') simp_all
qed (use assms solo_release [of K t m] solo_stop [of K t m] in auto)

lemma solo_call_sleeps:
  assumes "no_spurious_return K" "writer_mutex m = UNLOCKED" "perform c m = (r, m')" "is_blocked r"
  shows "solo_sleeps K t 1020 (call_pc c) m m'"
proof (cases c)
  case (Call_write_slice d)
  with assms(3,4) obtain es where "write_slice d [] m = (Blocks, m', es)" by (auto split: prod.splits)
  with solo_write_sleeps [OF assms(1,2)] Call_write_slice show ?thesis by simp
next
  case (Call_read q block)
  with assms(3,4) obtain es where "read q block [] m = (Blocks, m', es)" by (auto split: prod.splits)
  with solo_read_sleeps [OF assms(1)] Call_read show ?thesis by simp
qed (use assms in \<open>auto simp: set_target_read_count_def mutex_lock_alone add_reader_def remove_reader_def
      reader_registration_def split: sum.splits prod.splits\<close>)

section \<open>The update loop under interference\<close>

text \<open>
  \<open>update_reader_state\<close> with other threads in between. The argument lists the accesses of the loop: the
  word as each one finds it, and whether a \<open>compare_exchange_weak\<close> there fails spuriously. The result is
  the access that ended the loop (counted from 0), the word it left and the value returned; \<open>None\<close> when
  the loop is still running after all of them.
\<close>

fun update_run :: "mutator \<Rightarrow> urs_pc \<Rightarrow> (u64 \<times> bool) list \<Rightarrow> (nat \<times> u64 \<times> (panic + ReadersStateCount)) option" where
  "update_run mu pc [] = None"
| "update_run mu pc ((w, spurious) # acs) =
     (case update_step mu spurious pc w of
        (w', Inr r) \<Rightarrow> Some (0, w', r)
      | (_, Inl pc') \<Rightarrow> map_option (\<lambda>(i, x). (Suc i, x)) (update_run mu pc' acs))"

lemma update_step_continues:
  "update_step mu spurious pc w = (w', Inl pc') \<Longrightarrow> pc' = Urs_cas w \<and> w' = w \<and> (pc \<noteq> Urs_cas w \<or> spurious)"
  by (cases pc) (auto simp: urs_attempt_def split: sum.splits if_splits)

text \<open>The effect of the last access is that of the whole function on the word it finds.\<close>

lemma update_step_returns:
  assumes "update_step mu spurious pc w = (w', Inr r)" "readers_state m = w"
  shows "update_reader_state mu m = (r, m\<lparr>readers_state := w'\<rparr>)"
  using assms
  by (cases pc) (auto simp: urs_attempt_def update_reader_state_def Let_def split: sum.splits if_splits)

lemma update_run_atomic:
  "update_run mu pc acs = Some (i, w', r) \<Longrightarrow> i < length acs \<and>
     (readers_state m = fst (acs ! i) \<longrightarrow> update_reader_state mu m = (r, m\<lparr>readers_state := w'\<rparr>))"
proof (induction acs arbitrary: pc i)
  case (Cons a acs)
  obtain w spurious where a: "a = (w, spurious)" by fastforce
  obtain w1 x where step: "update_step mu spurious pc w = (w1, x)" by fastforce
  show ?case
  proof (cases x)
    case (Inl pc')
    with Cons.prems step a obtain j where "update_run mu pc' acs = Some (j, w', r)" "i = Suc j" by auto
    with Cons.IH show ?thesis by simp
  next
    case (Inr r')
    with Cons.prems step a have "i = 0" "w1 = w'" "r' = r" by auto
    with update_step_returns [of mu spurious pc w w' r m] step Inr a show ?thesis by auto
  qed
qed simp

text \<open>What an access that goes on has seen: the word changed since the access before, or it failed spuriously.\<close>

definition disturbed :: "u64 \<times> bool \<Rightarrow> u64 \<times> bool \<Rightarrow> bool" where
  "disturbed a b \<longleftrightarrow> fst a \<noteq> fst b \<or> snd b"

lemma update_run_unfinished:
  assumes "update_run mu pc (a # acs) = None"
  shows "successively disturbed (a # acs)"
  using assms
proof (induction acs arbitrary: pc a)
  case (Cons b acs)
  obtain w spurious where a: "a = (w, spurious)" by fastforce
  obtain v spurious' where b: "b = (v, spurious')" by fastforce
  from Cons.prems a obtain w1 pc1 where "update_step mu spurious pc w = (w1, Inl pc1)"
    by (auto split: prod.splits sum.splits)
  with update_step_continues a Cons.prems have rest: "update_run mu (Urs_cas w) (b # acs) = None" by fastforce
  with b obtain w2 pc2 where "update_step mu spurious' (Urs_cas w) v = (w2, Inl pc2)"
    by (auto split: prod.splits sum.splits)
  from update_step_continues [OF this] a b have "disturbed a b" by (auto simp: disturbed_def)
  with Cons.IH [OF rest] show ?case by simp
qed simp

section \<open>Properties\<close>

text \<open>
  C19: The two models agree. A thread that calls any operation on a message with a free mutex and runs
  undisturbed, one atomic access after the other, comes to an end: within 20 accesses, one more for
  every byte it copies, it has returned the result and left the memory that the function over whole
  operations computes; and exactly when that function blocks, it is asleep within 1020 accesses, 1000 of
  them the spinning of \<open>wait\<close>, over the memory the function leaves behind.
\<close>

theorem solo_runs_agree:
  assumes "writer_mutex (msg s) = UNLOCKED" "perform c (msg s) = (r, m')" "no_spurious_return K"
  shows "\<exists>n s' pc. solo K t n (call_pc c) s = Some (s', pc) \<and> msg s' = m' \<and>
    (if is_blocked r then n \<le> 1020 \<and> stuck K t pc s'
     else n \<le> 20 + call_bytes c \<and> pc = result_pc r)"
proof (cases "is_blocked r")
  case True
  then obtain n s' pc where "n \<le> 1020" "solo K t n (call_pc c) s = Some (s', pc)" "stuck K t pc s'" "msg s' = m'"
    using solo_call_sleeps [OF assms(3,1,2), of t] unfolding solo_sleeps_def by blast
  with True show ?thesis by (intro exI [of _ n] exI [of _ s'] exI [of _ pc]) simp
next
  case False
  then obtain n s' where "n \<le> 20 + call_bytes c" "solo K t n (call_pc c) s = Some (s', result_pc r)" "msg s' = m'"
    using solo_call [OF assms(1,2), of K t] unfolding solo_to_def by blast
  with False show ?thesis by (intro exI [of _ n] exI [of _ s'] exI [of _ "result_pc r"]) simp
qed

text \<open>
  C20: The compare-exchange loop of \<open>update_reader_state\<close> goes round only for a reason, and it is atomic.
  Whatever other threads store in between and whichever exchanges fail spuriously: if the loop has not
  returned after some accesses, then at each of them but the first the word had changed since the
  access before, so that some other thread made progress, or the weak exchange failed spuriously; so the
  loop has ended at the latest with the first access that finds the word as the access before found it and
  does not fail spuriously. When it returns, its effect and its result are those of the whole function
  applied to the word that its last access found.
\<close>

theorem update_is_lock_free:
  "case update_run mu Urs_load acs of
     None \<Rightarrow> successively disturbed acs
   | Some (i, w', r) \<Rightarrow> i < length acs \<and>
       update_reader_state mu (m\<lparr>readers_state := fst (acs ! i)\<rparr>) = (r, m\<lparr>readers_state := w'\<rparr>)"
proof (cases "update_run mu Urs_load acs")
  case None
  then have "successively disturbed acs" by (cases acs) (auto intro: update_run_unfinished)
  with None show ?thesis by simp
next
  case (Some x)
  then obtain i w' r where "update_run mu Urs_load acs = Some (i, w', r)" by (cases x) auto
  with update_run_atomic [OF this, of "m\<lparr>readers_state := fst (acs ! i)\<rparr>"] show ?thesis by simp
qed

definition solo_start :: "tid list shared" where
  "solo_start =
     \<lparr>msg = fresh_message 8, mutex_queue = [], writer_queue = [], done_queue = [], published = [], abandoned = False,
      writer_kicks = 0, done_kicks = 0\<rparr>"

lemma no_spurious_return_fifo: "no_spurious_return fifo_kernel"
  unfolding no_spurious_return_def using futex_laws_fifo by (simp add: fifo_kernel_def)

theorem solo_runs_agree_witness:
  "(\<exists>n s'. n \<le> 22 \<and> solo fifo_kernel 0 n (call_pc (Call_write_slice [7, 9])) solo_start =
      Some (s', Ready (Ret_sequence (Some 1)))) \<and>
   (\<exists>n s' pc. n \<le> 1020 \<and> solo fifo_kernel 0 n (call_pc (Call_read 0 True)) solo_start = Some (s', pc) \<and>
      stuck fifo_kernel 0 pc s')"
proof -
  have free: "writer_mutex (msg solo_start) = UNLOCKED" by (simp add: solo_start_def fresh_message_def UNLOCKED_def)
  have "quiescent (fresh_message 8)" "writable [7, 9] (fresh_message 8)"
    by (simp_all add: fresh_message_quiescent fresh_message_writable)
  then obtain m1 where "write_slice [7, 9] [] (fresh_message 8) =
      (Returns (Some (next_sequence (current_sequence (fresh_message 8)))), m1, [])"
    by (rule write_slice_writable)
  then have wr: "perform (Call_write_slice [7, 9]) (msg solo_start) = (Sequence_result (Returns (Some 1)), m1)"
    by (simp add: solo_start_def current_sequence_def fresh_message_state next_sequence_0)
  have rd: "perform (Call_read 0 True) (msg solo_start) = (Guard_result Blocks, msg solo_start)"
    by (simp add: solo_start_def read_alone fresh_message_state)
  from solo_runs_agree [OF free wr no_spurious_return_fifo, of 0]
    solo_runs_agree [OF free rd no_spurious_return_fifo, of 0]
  show ?thesis by auto
qed

end
