(* ===== verification/Memory_Mapper.thy ===== *)
theory Memory_Mapper
  imports Shared_Message
begin

text \<open>
  The layout of a shared message in memory (the \<open>repr(C)\<close> structure of \<open>src/shared_message/mod.rs\<close> with
  its compile-time assertions and \<open>cast_from_void_ptr\<close>) and the mapper that creates, opens and drops
  the shared memory object it lives in (\<open>src/memory_mapper.rs\<close>). The operating system is a parameter,
  the record \<open>os\<close> of the calls the mapper makes over a state of its own; \<open>shm_laws\<close> states what the
  manual pages promise of them. The contract that the trait \<open>SlicePtrCast\<close> asks of an implementation
  is the locale \<open>slice_ptr_cast\<close>, interpreted on the implementation for \<open>SharedMessage\<close>.
\<close>

section \<open>Layout\<close>

text \<open>A field is its size and its alignment. \<open>repr(C)\<close> places the fields in order, each at the next multiple of its alignment.\<close>

type_synonym field_layout = "nat \<times> nat"

definition align_up :: "nat \<Rightarrow> nat \<Rightarrow> nat" where
  "align_up a n = (n + a - 1) div a * a"

fun field_offsets :: "nat \<Rightarrow> field_layout list \<Rightarrow> nat list" where
  "field_offsets pos [] = []"
| "field_offsets pos ((sz, al) # fs) = (let off = align_up al pos in off # field_offsets (off + sz) fs)"

fun fields_end :: "nat \<Rightarrow> field_layout list \<Rightarrow> nat" where
  "fields_end pos [] = pos"
| "fields_end pos ((sz, al) # fs) = fields_end (align_up al pos + sz) fs"

definition struct_align :: "field_layout list \<Rightarrow> nat" where
  "struct_align fs = fold max (map snd fs) 1"

definition struct_size :: "field_layout list \<Rightarrow> nat" where
  "struct_size fs = align_up (struct_align fs) (fields_end 0 fs)"

text \<open>\<open>SharedMessage<[u8; n]>\<close>.\<close>

definition message_fields :: "nat \<Rightarrow> field_layout list" where
  "message_fields n =
     [(8, 8),     \<comment> \<open>\<open>sequence_and_flags: AtomicU64\<close>\<close>
      (8, 8),     \<comment> \<open>\<open>data_size: AtomicUsize\<close>\<close>
      (112, 1),   \<comment> \<open>\<open>_pad1\<close>\<close>
      (8, 8),     \<comment> \<open>\<open>readers_state: AtomicU64\<close>\<close>
      (4, 4),     \<comment> \<open>\<open>writer_mutex: SharedMutex<()>\<close>\<close>
      (4, 4),     \<comment> \<open>\<open>writer_condvar: SharedCondvar\<close>\<close>
      (4, 4),     \<comment> \<open>\<open>reader_done_condvar: SharedCondvar\<close>\<close>
      (104, 1),   \<comment> \<open>\<open>_pad2\<close>\<close>
      (n, 1)]     \<comment> \<open>\<open>data: UnsafeCell<T>\<close>\<close>"

definition size_of_message :: "nat \<Rightarrow> nat" where
  "size_of_message n = struct_size (message_fields n)"

definition data_offset :: nat where
  "data_offset = last (field_offsets 0 (message_fields 0))"

text \<open>\<open>size_of_fields\<close>: the two constant assertions fail the build.\<close>

definition size_of_fields :: "nat option" where
  "size_of_fields =
     (if size_of_message 0 mod 64 \<noteq> 0 then None
      else if size_of_message 8 mod 64 \<noteq> 8 then None
      else Some (size_of_message 0))"

definition header_size :: usize where
  "header_size = (case size_of_fields of Some n \<Rightarrow> of_nat n | None \<Rightarrow> 0)"

definition align_of_fields :: nat where
  "align_of_fields = struct_align (message_fields 0)"

text \<open>A pointer to a message: its address and the length of its payload.\<close>

type_synonym message_ptr = "u64 \<times> usize"

definition saturating_sub :: "usize \<Rightarrow> usize \<Rightarrow> usize" where
  "saturating_sub a b = (if a \<ge> b then a - b else 0)"

definition cast_from_void_ptr :: "u64 \<Rightarrow> usize \<Rightarrow> message_ptr option" where
  "cast_from_void_ptr ptr memory_size =
     (if unat ptr mod align_of_fields \<noteq> 0 then None
      else (let payload_size = saturating_sub memory_size header_size in
            if payload_size = 0 then None else Some (ptr, payload_size)))"

lemma layout_values:
  "size_of_fields = Some 256" "header_size = 256" "align_of_fields = 8" "data_offset = 252"
  "size_of_message 8 = 264"
  by (simp_all add: size_of_fields_def header_size_def align_of_fields_def data_offset_def size_of_message_def
      struct_size_def struct_align_def message_fields_def align_up_def Let_def)

lemma saturating_sub_unat: "unat (saturating_sub a b) = unat a - unat b"
  by (auto simp: saturating_sub_def unat_sub word_le_nat_alt)

section \<open>The operating system, a parameter\<close>

datatype errno = EINVAL | Errno nat

record 'o os =
  os_shm_create :: "string \<Rightarrow> 'o \<Rightarrow> (errno + nat) \<times> 'o"         \<comment> \<open>\<open>shm::open\<close>, \<open>CREATE | RDWR | TRUNC\<close>\<close>
  os_shm_open :: "string \<Rightarrow> 'o \<Rightarrow> (errno + nat) \<times> 'o"           \<comment> \<open>\<open>shm::open\<close>, \<open>RDWR\<close>\<close>
  os_ftruncate :: "nat \<Rightarrow> u64 \<Rightarrow> 'o \<Rightarrow> (errno + unit) \<times> 'o"
  os_fstat_size :: "nat \<Rightarrow> 'o \<Rightarrow> errno + usize"
  os_mmap :: "usize \<Rightarrow> nat \<Rightarrow> 'o \<Rightarrow> (errno + u64) \<times> 'o"
  os_madvise :: "u64 \<Rightarrow> usize \<Rightarrow> 'o \<Rightarrow> (errno + unit) \<times> 'o"
  os_munmap :: "u64 \<Rightarrow> usize \<Rightarrow> 'o \<Rightarrow> (errno + unit) \<times> 'o"
  os_shm_unlink :: "string \<Rightarrow> 'o \<Rightarrow> (errno + unit) \<times> 'o"
  os_close :: "nat \<Rightarrow> 'o \<Rightarrow> 'o"

section \<open>SharedMemoryMapper\<close>

record mapper =
  mapper_name :: string
  mapper_fd :: nat
  mapped_ptr :: message_ptr
  mapped_size :: usize
  created :: bool

type_synonym ptr_cast = "u64 \<Rightarrow> usize \<Rightarrow> message_ptr option"

definition map_and_init :: "ptr_cast \<Rightarrow> 'o os \<Rightarrow> nat \<Rightarrow> 'o \<Rightarrow> (errno + message_ptr \<times> usize) \<times> 'o" where
  "map_and_init cast os shm st =
     (case os_fstat_size os shm st of
        Inl e \<Rightarrow> (Inl e, st)
      | Inr sz \<Rightarrow>
          (case os_mmap os sz shm st of
             (Inl e, st1) \<Rightarrow> (Inl e, st1)
           | (Inr void_ptr, st1) \<Rightarrow>
               if void_ptr = 0 then (Inl EINVAL, st1)
               else (let st2 = snd (os_madvise os void_ptr sz st1) in
                     case cast void_ptr sz of
                       None \<Rightarrow> (Inl EINVAL, st2)
                     | Some ptr \<Rightarrow> (Inr (ptr, sz), st2))))"

text \<open>The descriptor is closed when a call returns with an error.\<close>

definition mapper_create :: "ptr_cast \<Rightarrow> 'o os \<Rightarrow> string \<Rightarrow> usize \<Rightarrow> 'o \<Rightarrow> (errno + mapper) \<times> 'o" where
  "mapper_create cast os nm sz st =
     (case os_shm_create os nm st of
        (Inl e, st1) \<Rightarrow> (Inl e, st1)
      | (Inr shm, st1) \<Rightarrow>
          (case os_ftruncate os shm sz st1 of
             (Inl e, st2) \<Rightarrow> (Inl e, os_close os shm (snd (os_shm_unlink os nm st2)))
           | (Inr _, st2) \<Rightarrow>
               (case map_and_init cast os shm st2 of
                  (Inr (ptr, msz), st3) \<Rightarrow>
                    (Inr \<lparr>mapper_name = nm, mapper_fd = shm, mapped_ptr = ptr, mapped_size = msz, created = True\<rparr>,
                     st3)
                | (Inl e, st3) \<Rightarrow> (Inl e, os_close os shm (snd (os_shm_unlink os nm st3))))))"

definition mapper_open :: "ptr_cast \<Rightarrow> 'o os \<Rightarrow> string \<Rightarrow> 'o \<Rightarrow> (errno + mapper) \<times> 'o" where
  "mapper_open cast os nm st =
     (case os_shm_open os nm st of
        (Inl e, st1) \<Rightarrow> (Inl e, st1)
      | (Inr shm, st1) \<Rightarrow>
          (case map_and_init cast os shm st1 of
             (Inl e, st2) \<Rightarrow> (Inl e, os_close os shm st2)
           | (Inr (ptr, msz), st2) \<Rightarrow>
               (Inr \<lparr>mapper_name = nm, mapper_fd = shm, mapped_ptr = ptr, mapped_size = msz, created = False\<rparr>,
                st2)))"

definition mapped_memory_size :: "mapper \<Rightarrow> usize" where
  "mapped_memory_size m = mapped_size m"

text \<open>\<open>Deref\<close>: the message is where the pointer says.\<close>

definition mapper_deref :: "mapper \<Rightarrow> message_ptr" where
  [simp]: "mapper_deref m = mapped_ptr m"

text \<open>\<open>Drop\<close>: unmap, unlink when created, and the drop of the descriptor.\<close>

definition mapper_drop :: "'o os \<Rightarrow> mapper \<Rightarrow> 'o \<Rightarrow> 'o" where
  "mapper_drop os m st =
     (let st1 = snd (os_munmap os (fst (mapped_ptr m)) (mapped_size m) st);
          st2 = (if created m then snd (os_shm_unlink os (mapper_name m) st1) else st1)
      in os_close os (mapper_fd m) st2)"

section \<open>What the operating system promises\<close>

text \<open>
  \<open>named\<close> is the set of names of shared memory objects and \<open>maps\<close> the set of live mappings of the
  process; \<open>mmap\<close> returns page-aligned addresses. Every call may fail. \<open>shm_unlink\<close> removes the name when
  it succeeds and leaves it when it is refused (\<open>EACCES\<close>, \<open>ENOENT\<close>), \<open>munmap\<close> removes the mapping when it
  succeeds and touches no other mapping either way.
\<close>

definition names_after :: "(errno + unit) \<Rightarrow> string \<Rightarrow> string set \<Rightarrow> string set" where
  "names_after r nm ns = (case r of Inr _ \<Rightarrow> ns - {nm} | Inl _ \<Rightarrow> ns)"

definition shm_laws :: "'o os \<Rightarrow> ('o \<Rightarrow> string set) \<Rightarrow> ('o \<Rightarrow> (u64 \<times> usize) set) \<Rightarrow> bool" where
  "shm_laws os named maps \<longleftrightarrow>
     (\<forall>nm st r st'. os_shm_create os nm st = (r, st') \<longrightarrow>
        maps st' = maps st \<and> named st' = (case r of Inl _ \<Rightarrow> named st | Inr _ \<Rightarrow> insert nm (named st))) \<and>
     (\<forall>nm st r st'. os_shm_open os nm st = (r, st') \<longrightarrow> maps st' = maps st \<and> named st' = named st) \<and>
     (\<forall>fd n st r st'. os_ftruncate os fd n st = (r, st') \<longrightarrow>
        maps st' = maps st \<and> named st' = named st \<and> (\<forall>u. r = Inr u \<longrightarrow> os_fstat_size os fd st' = Inr n)) \<and>
     (\<forall>n fd st r st'. os_mmap os n fd st = (r, st') \<longrightarrow>
        named st' = named st \<and>
        (case r of Inl _ \<Rightarrow> maps st' = maps st
         | Inr p \<Rightarrow> p \<noteq> 0 \<and> unat p mod 4096 = 0 \<and> maps st' = insert (p, n) (maps st))) \<and>
     (\<forall>p n st. maps (snd (os_madvise os p n st)) = maps st \<and> named (snd (os_madvise os p n st)) = named st) \<and>
     (\<forall>p n st. named (snd (os_munmap os p n st)) = named st) \<and>
     (\<forall>p n st. (p, n) \<in> maps st \<longrightarrow>
        (case os_munmap os p n st of
           (Inr _, st') \<Rightarrow> maps st' = maps st - {(p, n)}
         | (Inl _, st') \<Rightarrow> maps st' - {(p, n)} = maps st - {(p, n)})) \<and>
     (\<forall>nm st. maps (snd (os_shm_unlink os nm st)) = maps st \<and>
        named (snd (os_shm_unlink os nm st)) = names_after (fst (os_shm_unlink os nm st)) nm (named st)) \<and>
     (\<forall>fd st. maps (os_close os fd st) = maps st \<and> named (os_close os fd st) = named st)"

lemma shm_laws_simps:
  assumes "shm_laws os named maps"
  shows "maps (snd (os_madvise os p n st)) = maps st" "named (snd (os_madvise os p n st)) = named st"
    "named (snd (os_munmap os p n st)) = named st"
    "maps (snd (os_shm_unlink os nm st)) = maps st"
    "named (snd (os_shm_unlink os nm st)) = names_after (fst (os_shm_unlink os nm st)) nm (named st)"
    "maps (os_close os fd st) = maps st" "named (os_close os fd st) = named st"
  using assms by (simp_all add: shm_laws_def)

lemma law_munmap:
  assumes "shm_laws os named maps" "(p, n) \<in> maps st"
  shows "maps (snd (os_munmap os p n st)) - {(p, n)} = maps st - {(p, n)}"
    "fst (os_munmap os p n st) = Inr u \<Longrightarrow> maps (snd (os_munmap os p n st)) = maps st - {(p, n)}"
proof -
  obtain r st' where "os_munmap os p n st = (r, st')" by fastforce
  moreover from assms have "case os_munmap os p n st of
      (Inr _, st') \<Rightarrow> maps st' = maps st - {(p, n)} | (Inl _, st') \<Rightarrow> maps st' - {(p, n)} = maps st - {(p, n)}"
    by (simp add: shm_laws_def)
  ultimately show "maps (snd (os_munmap os p n st)) - {(p, n)} = maps st - {(p, n)}"
    "fst (os_munmap os p n st) = Inr u \<Longrightarrow> maps (snd (os_munmap os p n st)) = maps st - {(p, n)}"
    by (auto split: sum.splits)
qed

lemma law_create:
  "shm_laws os named maps \<Longrightarrow> os_shm_create os nm st = (r, st') \<Longrightarrow>
     maps st' = maps st \<and> named st' = (case r of Inl _ \<Rightarrow> named st | Inr _ \<Rightarrow> insert nm (named st))"
  by (simp add: shm_laws_def)

lemma law_open:
  "shm_laws os named maps \<Longrightarrow> os_shm_open os nm st = (r, st') \<Longrightarrow> maps st' = maps st \<and> named st' = named st"
  by (simp add: shm_laws_def)

lemma law_ftruncate:
  "shm_laws os named maps \<Longrightarrow> os_ftruncate os fd n st = (r, st') \<Longrightarrow>
     maps st' = maps st \<and> named st' = named st \<and> (\<forall>u. r = Inr u \<longrightarrow> os_fstat_size os fd st' = Inr n)"
  by (simp add: shm_laws_def)

lemma law_mmap:
  assumes "shm_laws os named maps" "os_mmap os n fd st = (r, st')"
  shows "named st' = named st \<and>
    (case r of Inl _ \<Rightarrow> maps st' = maps st
     | Inr p \<Rightarrow> p \<noteq> 0 \<and> unat p mod 4096 = 0 \<and> maps st' = insert (p, n) (maps st))"
proof -
  from assms(1) have "\<forall>n fd st r st'. os_mmap os n fd st = (r, st') \<longrightarrow> named st' = named st \<and>
      (case r of Inl _ \<Rightarrow> maps st' = maps st
       | Inr p \<Rightarrow> p \<noteq> 0 \<and> unat p mod 4096 = 0 \<and> maps st' = insert (p, n) (maps st))"
    unfolding shm_laws_def by (elim conjE)
  with assms(2) show ?thesis by simp
qed

section \<open>The contract of SlicePtrCast\<close>

text \<open>
  A cast may return a pointer only for an aligned region that holds the header and the payload it
  promises, and it keeps the address.
\<close>

locale slice_ptr_cast =
  fixes cast :: ptr_cast
    and alignment :: nat
    and header :: nat
  assumes cast_address: "cast ptr sz = Some (p, n) \<Longrightarrow> p = ptr"
    and cast_aligned: "cast ptr sz = Some (p, n) \<Longrightarrow> unat ptr mod alignment = 0"
    and cast_fits: "cast ptr sz = Some (p, n) \<Longrightarrow> header + unat n \<le> unat sz"
begin

lemma map_and_init_maps:
  assumes laws: "shm_laws os named maps" and "map_and_init cast os shm st = (r, st')"
  shows "named st' = named st \<and>
    (\<forall>e. r = Inl e \<longrightarrow> maps st' = maps st \<or>
       (\<exists>p msz. os_fstat_size os shm st = Inr msz \<and> unat p mod 4096 = 0 \<and> cast p msz = None \<and>
          maps st' = insert (p, msz) (maps st))) \<and>
    (\<forall>ptr msz. r = Inr (ptr, msz) \<longrightarrow>
       os_fstat_size os shm st = Inr msz \<and> maps st' = insert (fst ptr, msz) (maps st) \<and>
       unat (fst ptr) mod alignment = 0 \<and> header + unat (snd ptr) \<le> unat msz)"
proof (cases "os_fstat_size os shm st")
  case (Inl e)
  with assms(2) show ?thesis by (auto simp: map_and_init_def)
next
  case (Inr sz)
  obtain m st1 where m: "os_mmap os sz shm st = (m, st1)" by fastforce
  note mapped = law_mmap [OF laws m]
  show ?thesis
  proof (cases m)
    case (Inl e)
    with assms(2) Inr m mapped show ?thesis by (auto simp: map_and_init_def)
  next
    case (Inr p)
    show ?thesis
    proof (cases "cast p sz")
      case None
      with assms(2) \<open>os_fstat_size os shm st = Inr sz\<close> m Inr mapped
      have r: "r = Inl EINVAL" "named st' = named st" "maps st' = insert (p, sz) (maps st)" "unat p mod 4096 = 0"
        by (auto simp: map_and_init_def Let_def shm_laws_simps [OF laws])
      with None \<open>os_fstat_size os shm st = Inr sz\<close>
      have "\<exists>p msz. os_fstat_size os shm st = Inr msz \<and> unat p mod 4096 = 0 \<and> cast p msz = None \<and>
          maps st' = insert (p, msz) (maps st)"
        by (intro exI [of _ p] exI [of _ sz]) simp
      with r(1,2) show ?thesis by simp
    next
      case (Some ptr)
      obtain q n where ptr: "ptr = (q, n)" by fastforce
      with Some cast_address cast_aligned cast_fits
      have "q = p" "unat p mod alignment = 0" "header + unat n \<le> unat sz" by blast+
      with assms(2) \<open>os_fstat_size os shm st = Inr sz\<close> m Inr mapped Some ptr show ?thesis
        by (auto simp: map_and_init_def Let_def shm_laws_simps [OF laws])
    qed
  qed
qed

lemma create_maps:
  assumes laws: "shm_laws os named maps" and "mapper_create cast os nm sz st = (r, st')"
  shows "case r of
      Inl e \<Rightarrow> fst (os_shm_create os nm st) = Inl e \<and> named st' = named st \<and> maps st' = maps st \<or>
        (\<exists>fd st2. fst (os_shm_create os nm st) = Inr fd \<and> st' = os_close os fd (snd (os_shm_unlink os nm st2)) \<and>
           named st' = names_after (fst (os_shm_unlink os nm st2)) nm (insert nm (named st)) \<and>
           (maps st' = maps st \<or>
              (\<exists>p. unat p mod 4096 = 0 \<and> cast p sz = None \<and> maps st' = insert (p, sz) (maps st))))
    | Inr m \<Rightarrow> mapper_name m = nm \<and> created m \<and> mapped_size m = sz \<and> named st' = insert nm (named st) \<and>
        maps st' = insert (fst (mapped_ptr m), sz) (maps st) \<and>
        unat (fst (mapped_ptr m)) mod alignment = 0 \<and> header + unat (snd (mapped_ptr m)) \<le> unat sz"
proof -
  obtain c st1 where c: "os_shm_create os nm st = (c, st1)" by fastforce
  note n1 = law_create [OF laws c]
  show ?thesis
  proof (cases c)
    case (Inl e)
    with assms(2) c n1 show ?thesis by (auto simp: mapper_create_def)
  next
    case (Inr fd)
    obtain f st2 where f: "os_ftruncate os fd sz st1 = (f, st2)" by fastforce
    note n2 = law_ftruncate [OF laws f]
    show ?thesis
    proof (cases f)
      case (Inl e)
      with assms(2) c Inr f have r: "r = Inl e" "st' = os_close os fd (snd (os_shm_unlink os nm st2))"
        by (auto simp: mapper_create_def)
      with c Inr n1 n2 show ?thesis
        by (auto simp: shm_laws_simps [OF laws] intro!: exI [of _ st2])
    next
      case (Inr u)
      obtain i st3 where i: "map_and_init cast os fd st2 = (i, st3)" by fastforce
      note n3 = map_and_init_maps [OF laws i]
      show ?thesis
      proof (cases i)
        case (Inl e)
        with assms(2) c \<open>c = Inr fd\<close> f Inr i
        have r: "r = Inl e" "st' = os_close os fd (snd (os_shm_unlink os nm st3))"
          by (auto simp: mapper_create_def)
        from n1 n2 n3 Inl Inr \<open>c = Inr fd\<close> have "named st3 = insert nm (named st)"
          and "maps st3 = maps st \<or>
            (\<exists>p. unat p mod 4096 = 0 \<and> cast p sz = None \<and> maps st3 = insert (p, sz) (maps st))"
          by auto
        with r c \<open>c = Inr fd\<close> show ?thesis
          by (auto simp: shm_laws_simps [OF laws] intro!: exI [of _ st3])
      next
        case (Inr pm)
        with assms(2) c \<open>c = Inr fd\<close> f \<open>f = Inr u\<close> i n1 n2 n3 show ?thesis
          by (cases pm) (auto simp: mapper_create_def)
      qed
    qed
  qed
qed

lemma open_maps:
  assumes laws: "shm_laws os named maps" and "mapper_open cast os nm st = (r, st')"
  shows "named st' = named st \<and>
    (\<forall>m. r = Inr m \<longrightarrow> mapper_name m = nm \<and> \<not> created m \<and>
       maps st' = insert (fst (mapped_ptr m), mapped_size m) (maps st) \<and>
       unat (fst (mapped_ptr m)) mod alignment = 0 \<and>
       header + unat (snd (mapped_ptr m)) \<le> unat (mapped_size m))"
proof -
  obtain c st1 where c: "os_shm_open os nm st = (c, st1)" by fastforce
  note n1 = law_open [OF laws c]
  show ?thesis
  proof (cases c)
    case (Inl e)
    with assms(2) c n1 show ?thesis by (auto simp: mapper_open_def)
  next
    case (Inr fd)
    obtain i st2 where i: "map_and_init cast os fd st1 = (i, st2)" by fastforce
    from map_and_init_maps [OF laws i] assms(2) c Inr i n1 show ?thesis
      by (cases i) (auto simp: mapper_open_def shm_laws_simps [OF laws])
  qed
qed

end

lemma mapper_drop_maps:
  fixes os :: "'o os"
  defines "um \<equiv> \<lambda>m st. os_munmap os (fst (mapped_ptr m)) (mapped_size m) st"
  assumes laws: "shm_laws os named maps" and mapped: "(fst (mapped_ptr m), mapped_size m) \<in> maps st"
  shows "maps (mapper_drop os m st) - {(fst (mapped_ptr m), mapped_size m)} =
      maps st - {(fst (mapped_ptr m), mapped_size m)}"
    and "fst (um m st) = Inr () \<Longrightarrow>
      maps (mapper_drop os m st) = maps st - {(fst (mapped_ptr m), mapped_size m)}"
    and "named (mapper_drop os m st) =
      (if created m then names_after (fst (os_shm_unlink os (mapper_name m) (snd (um m st)))) (mapper_name m) (named st)
       else named st)"
  using law_munmap [OF laws mapped]
  by (simp_all add: mapper_drop_def um_def Let_def shm_laws_simps [OF laws])

interpretation smp: slice_ptr_cast cast_from_void_ptr align_of_fields "unat header_size"
proof unfold_locales
  show "p = ptr" if "cast_from_void_ptr ptr sz = Some (p, n)" for ptr sz p n
    using that by (auto simp: cast_from_void_ptr_def Let_def split: if_splits)
  show "unat ptr mod align_of_fields = 0" if "cast_from_void_ptr ptr sz = Some (p, n)" for ptr sz p n
    using that by (auto simp: cast_from_void_ptr_def split: if_splits)
  show "unat header_size + unat n \<le> unat sz" if "cast_from_void_ptr ptr sz = Some (p, n)" for ptr sz p n
  proof -
    from that have n: "n = saturating_sub sz header_size" "n \<noteq> 0"
      by (auto simp: cast_from_void_ptr_def Let_def split: if_splits)
    from n(2) have "unat n \<noteq> 0" by (simp add: unat_eq_zero)
    moreover from n(1) have "unat n = unat sz - unat header_size" by (simp add: saturating_sub_unat)
    ultimately show ?thesis by linarith
  qed
qed

section \<open>A concrete operating system\<close>

text \<open>
  For the witnesses: a descriptor is the number of an object, objects are never reused, and the
  \<open>k\<close>-th mapping is placed at page \<open>k + 1\<close>.
\<close>

record plain_state =
  dir :: "string \<rightharpoonup> nat"
  sizes :: "nat \<Rightarrow> u64"
  objects :: nat
  mappings :: "(u64 \<times> usize) list"
  pages :: nat

definition plain_create :: "string \<Rightarrow> plain_state \<Rightarrow> (errno + nat) \<times> plain_state" where
  "plain_create nm st =
     (case dir st nm of
        Some i \<Rightarrow> (Inr i, st\<lparr>sizes := (sizes st)(i := 0)\<rparr>)
      | None \<Rightarrow> (Inr (objects st), st\<lparr>dir := (dir st)(nm \<mapsto> objects st), sizes := (sizes st)(objects st := 0),
                                      objects := Suc (objects st)\<rparr>))"

definition plain_mmap :: "usize \<Rightarrow> nat \<Rightarrow> plain_state \<Rightarrow> (errno + u64) \<times> plain_state" where
  "plain_mmap n fd st =
     (if n = 0 \<or> pages st \<ge> 2 ^ 40 then (Inl EINVAL, st)
      else (let p = of_nat (4096 * Suc (pages st)) in
            (Inr p, st\<lparr>mappings := (p, n) # mappings st, pages := Suc (pages st)\<rparr>)))"

definition plain_os :: "plain_state os" where
  "plain_os =
     \<lparr>os_shm_create = plain_create,
      os_shm_open = (\<lambda>nm st. (case dir st nm of None \<Rightarrow> Inl (Errno 2) | Some i \<Rightarrow> Inr i, st)),
      os_ftruncate = (\<lambda>fd n st. (Inr (), st\<lparr>sizes := (sizes st)(fd := n)\<rparr>)),
      os_fstat_size = (\<lambda>fd st. Inr (sizes st fd)),
      os_mmap = plain_mmap,
      os_madvise = (\<lambda>p n st. (Inl EINVAL, st)),
      os_munmap = (\<lambda>p n st. (Inr (), st\<lparr>mappings := filter (\<lambda>x. x \<noteq> (p, n)) (mappings st)\<rparr>)),
      os_shm_unlink = (\<lambda>nm st. (Inr (), st\<lparr>dir := (dir st)(nm := None)\<rparr>)),
      os_close = (\<lambda>fd st. st)\<rparr>"

definition plain_start :: plain_state where
  "plain_start = \<lparr>dir = Map.empty, sizes = (\<lambda>_. 0), objects = 0, mappings = [], pages = 0\<rparr>"

abbreviation plain_named :: "plain_state \<Rightarrow> string set" where
  "plain_named st \<equiv> dom (dir st)"

abbreviation plain_maps :: "plain_state \<Rightarrow> (u64 \<times> usize) set" where
  "plain_maps st \<equiv> set (mappings st)"

lemma plain_page:
  assumes "k < 2 ^ 40"
  shows "(of_nat (4096 * Suc k) :: u64) \<noteq> 0 \<and> unat (of_nat (4096 * Suc k) :: u64) mod 4096 = 0"
proof -
  have "4096 * Suc k < 2 ^ 64" using assms by simp
  then have "unat (of_nat (4096 * Suc k) :: u64) = 4096 * Suc k"
    by (rule unat_of_nat_u64)
  then show ?thesis by (metis mod_mult_self1_is_0 mult_eq_0_iff nat.distinct(1) unat_0 zero_neq_numeral)
qed

lemma plain_mmap_law:
  assumes "plain_mmap n fd st = (r, st')"
  shows "plain_named st' = plain_named st \<and>
    (case r of Inl _ \<Rightarrow> plain_maps st' = plain_maps st
     | Inr p \<Rightarrow> p \<noteq> 0 \<and> unat p mod 4096 = 0 \<and> plain_maps st' = insert (p, n) (plain_maps st))"
proof (cases "n = 0 \<or> pages st \<ge> 2 ^ 40")
  case True
  with assms show ?thesis by (auto simp: plain_mmap_def)
next
  case False
  with plain_page [of "pages st"] assms show ?thesis
    by (auto simp: plain_mmap_def Let_def simp del: of_nat_mult of_nat_Suc)
qed

lemma plain_laws: "shm_laws plain_os plain_named plain_maps"
  unfolding shm_laws_def
proof (intro conjI allI impI)
  fix n fd st r st'
  assume "os_mmap plain_os n fd st = (r, st')"
  then have "plain_mmap n fd st = (r, st')" by (simp add: plain_os_def)
  from plain_mmap_law [OF this] show "plain_named st' = plain_named st"
    "case r of Inl _ \<Rightarrow> plain_maps st' = plain_maps st
     | Inr p \<Rightarrow> p \<noteq> 0 \<and> unat p mod 4096 = 0 \<and> plain_maps st' = insert (p, n) (plain_maps st)"
    by blast+
qed (auto simp: plain_os_def plain_create_def names_after_def split: option.splits)

section \<open>Properties\<close>

text \<open>
  The layout. The header occupies 256 bytes with alignment 8 and both compile-time assertions hold,
  but the payload starts at byte 252, four bytes before the end of the header, so it is not aligned
  to a cache line; the paddings do not fill the second block of 128 bytes.
\<close>

theorem payload_not_cache_aligned:
  "size_of_fields = Some 256 \<and> align_of_fields = 8 \<and> size_of_message 0 mod 64 = 0 \<and>
   size_of_message 8 mod 64 = 8 \<and> data_offset = 252 \<and> data_offset mod 64 = 60"
  by (simp add: layout_values size_of_fields_def size_of_message_def struct_size_def struct_align_def
      message_fields_def align_up_def)

lemma saturated_header: "saturating_sub sz 256 = 0 \<longleftrightarrow> unat sz \<le> 256"
proof -
  have "unat (saturating_sub sz 256) = unat sz - 256" using saturating_sub_unat [of sz 256] by simp
  then show ?thesis by (metis diff_is_0_eq unat_eq_zero)
qed

lemma cast_refused: "cast_from_void_ptr p sz = None \<longleftrightarrow> unat p mod 8 \<noteq> 0 \<or> unat sz \<le> 256"
  by (simp add: cast_from_void_ptr_def layout_values saturated_header Let_def)

lemma mod_8_of_page: "n mod 4096 = 0 \<Longrightarrow> n mod 8 = 0" for n :: nat
  using mod_mod_cancel [of 8 4096 n] by simp

text \<open>
  \<open>cast_from_void_ptr\<close> accepts exactly the 8-aligned regions of more than 256 bytes, and the payload
  it promises, all of the region but 256 bytes, ends inside the region.
\<close>

theorem cast_in_bounds:
  "case cast_from_void_ptr ptr sz of
     None \<Rightarrow> unat ptr mod 8 \<noteq> 0 \<or> unat sz \<le> 256
   | Some (p, n) \<Rightarrow> p = ptr \<and> unat ptr mod 8 = 0 \<and> unat sz = 256 + unat n \<and> 0 < unat n \<and>
       data_offset + unat n \<le> unat sz"
proof (cases "cast_from_void_ptr ptr sz")
  case None
  then show ?thesis
    by (auto simp: cast_from_void_ptr_def layout_values saturated_header Let_def split: if_splits)
next
  case (Some r)
  then obtain n where r: "r = (ptr, n)" and n: "n = saturating_sub sz 256" "n \<noteq> 0" "unat ptr mod 8 = 0"
    by (auto simp: cast_from_void_ptr_def layout_values Let_def split: if_splits)
  have "unat n = unat sz - 256" using saturating_sub_unat [of sz 256] n(1) by simp
  moreover from n(2) have "unat n \<noteq> 0" by (simp add: unat_eq_zero)
  ultimately have "unat sz = 256 + unat n" "0 < unat n" by linarith+
  with Some r n(3) show ?thesis by (simp add: layout_values)
qed

text \<open>
  C26: \<open>create\<close> on every branch, under fallible system calls. When it succeeds, the object has its name,
  the whole size asked for is mapped at an aligned address, and header and payload lie inside the
  mapping. When \<open>shm_open\<close> refuses, names and mappings are as before. When a later call fails, the last
  calls are \<open>shm_unlink\<close> of the name and the close of the descriptor: the name is gone exactly when that
  \<open>shm_unlink\<close>, whose error is ignored, succeeds, and no mapping is left unless the size asked for does
  not exceed the header.
\<close>

theorem create_succeeds_or_unlinks:
  assumes "shm_laws os named maps" "mapper_create cast_from_void_ptr os nm sz st = (r, st')"
  shows "case r of
      Inl e \<Rightarrow> fst (os_shm_create os nm st) = Inl e \<and> named st' = named st \<and> maps st' = maps st \<or>
        (\<exists>fd st2. fst (os_shm_create os nm st) = Inr fd \<and> st' = os_close os fd (snd (os_shm_unlink os nm st2)) \<and>
           named st' = names_after (fst (os_shm_unlink os nm st2)) nm (insert nm (named st)) \<and>
           (maps st' = maps st \<or> unat sz \<le> 256 \<and> (\<exists>p. maps st' = insert (p, sz) (maps st))))
    | Inr m \<Rightarrow> mapper_name m = nm \<and> created m \<and> mapped_memory_size m = sz \<and> named st' = insert nm (named st) \<and>
        maps st' = insert (fst (mapped_ptr m), sz) (maps st) \<and>
        unat (fst (mapped_ptr m)) mod 8 = 0 \<and> 256 + unat (snd (mapped_ptr m)) \<le> unat sz"
proof (cases r)
  case (Inl e)
  have "unat sz \<le> 256" if "unat p mod 4096 = 0" "cast_from_void_ptr p sz = None" for p
    using that cast_refused by (meson mod_8_of_page)
  with smp.create_maps [OF assms, unfolded Inl sum.case] show ?thesis unfolding Inl sum.case by metis
next
  case (Inr m)
  with smp.create_maps [OF assms] show ?thesis by (simp add: layout_values mapped_memory_size_def)
qed

definition plain_created :: "(errno + mapper) \<times> plain_state" where
  "plain_created = mapper_create cast_from_void_ptr plain_os ''msg'' 300 plain_start"

lemma plain_created_eq:
  "plain_created =
     (Inr \<lparr>mapper_name = ''msg'', mapper_fd = 0, mapped_ptr = (4096, 44), mapped_size = 300, created = True\<rparr>,
      \<lparr>dir = [''msg'' \<mapsto> 0], sizes = (\<lambda>_. 0)(0 := 300), objects = 1, mappings = [(4096, 300)], pages = 1\<rparr>)"
  by (simp add: plain_created_def mapper_create_def plain_os_def plain_create_def plain_start_def map_and_init_def
      plain_mmap_def cast_from_void_ptr_def layout_values saturating_sub_def)

theorem create_succeeds_or_unlinks_witness:
  "\<exists>m. fst plain_created = Inr m \<and> mapper_name m = ''msg'' \<and> mapped_memory_size m = 300 \<and>
     plain_named (snd plain_created) = insert ''msg'' (plain_named plain_start)"
  using create_succeeds_or_unlinks [OF plain_laws, of "''msg''" 300 plain_start "fst plain_created" "snd plain_created"]
    plain_created_eq
  by (simp add: plain_created_def)

text \<open>
  C27: Dropping a mapper undoes what \<open>create\<close> and \<open>open\<close> did, as far as the system calls succeed. The drop
  unmaps exactly the region that was mapped, and every other mapping stays whatever \<open>munmap\<close> returns; when
  \<open>munmap\<close> succeeds the mappings are those from before. Dropping the mapper that \<open>create\<close> returned then
  unlinks the name, and the name is gone exactly when that call succeeds; dropping one that \<open>open\<close>
  returned keeps the name for the process that created it.
\<close>

theorem drop_undoes_create_and_open:
  fixes os :: "'o os" and m :: mapper and st' :: 'o
  defines "region \<equiv> (fst (mapped_ptr m), mapped_size m)"
    and "unmap \<equiv> os_munmap os (fst (mapped_ptr m)) (mapped_size m) st'"
  assumes "shm_laws os named maps" "region \<notin> maps st"
  shows "(mapper_create cast_from_void_ptr os nm sz st = (Inr m, st') \<longrightarrow>
      mapped_size m = sz \<and> maps (mapper_drop os m st') - {region} = maps st \<and>
      (fst unmap = Inr () \<longrightarrow> maps (mapper_drop os m st') = maps st) \<and>
      named (mapper_drop os m st') = names_after (fst (os_shm_unlink os nm (snd unmap))) nm (insert nm (named st))) \<and>
    (mapper_open cast_from_void_ptr os nm st = (Inr m, st') \<longrightarrow>
      maps (mapper_drop os m st') - {region} = maps st \<and>
      (fst unmap = Inr () \<longrightarrow> maps (mapper_drop os m st') = maps st) \<and>
      named (mapper_drop os m st') = named st)"
proof (intro conjI impI)
  assume c: "mapper_create cast_from_void_ptr os nm sz st = (Inr m, st')"
  with smp.create_maps [OF assms(3), of nm sz st "Inr m" st']
  have made: "mapper_name m = nm" "created m" "mapped_size m = sz" "named st' = insert nm (named st)"
    "maps st' = insert region (maps st)"
    by (simp_all add: region_def)
  then have "(fst (mapped_ptr m), mapped_size m) \<in> maps st'" by (simp add: region_def)
  note dropped = mapper_drop_maps [OF assms(3) this]
  from dropped made assms(4) show "mapped_size m = sz" "maps (mapper_drop os m st') - {region} = maps st"
    "fst unmap = Inr () \<Longrightarrow> maps (mapper_drop os m st') = maps st"
    "named (mapper_drop os m st') = names_after (fst (os_shm_unlink os nm (snd unmap))) nm (insert nm (named st))"
    by (simp_all add: region_def unmap_def)
next
  assume o: "mapper_open cast_from_void_ptr os nm st = (Inr m, st')"
  with smp.open_maps [OF assms(3), of nm st "Inr m" st']
  have made: "\<not> created m" "named st' = named st" "maps st' = insert region (maps st)"
    by (simp_all add: region_def)
  then have "(fst (mapped_ptr m), mapped_size m) \<in> maps st'" by (simp add: region_def)
  note dropped = mapper_drop_maps [OF assms(3) this]
  from dropped made assms(4) show "maps (mapper_drop os m st') - {region} = maps st"
    "fst unmap = Inr () \<Longrightarrow> maps (mapper_drop os m st') = maps st" "named (mapper_drop os m st') = named st"
    by (simp_all add: region_def unmap_def)
qed

theorem drop_undoes_create_and_open_witness:
  "\<exists>m. fst plain_created = Inr m \<and> plain_named (mapper_drop plain_os m (snd plain_created)) = {} \<and>
     plain_maps (mapper_drop plain_os m (snd plain_created)) = {}"
proof -
  obtain m st' where m: "plain_created = (Inr m, st')" using plain_created_eq by simp
  then have c: "mapper_create cast_from_void_ptr plain_os ''msg'' 300 plain_start = (Inr m, st')"
    by (simp add: plain_created_def)
  have "(fst (mapped_ptr m), mapped_size m) \<notin> plain_maps plain_start" by (simp add: plain_start_def)
  note dropped = drop_undoes_create_and_open [OF plain_laws this, of "''msg''" 300 st']
  from dropped c have "plain_named (mapper_drop plain_os m st') = {}" "plain_maps (mapper_drop plain_os m st') = {}"
    by (simp_all add: plain_start_def plain_os_def names_after_def)
  moreover have "fst plain_created = Inr m" "snd plain_created = st'" unfolding m by (rule fst_conv, rule snd_conv)
  ultimately show ?thesis by metis
qed

text \<open>
  An ignored error leaves a name behind. \<open>create\<close> ignores the result of the \<open>shm_unlink\<close> it makes after a
  failure: an operating system that refuses the call keeps the laws, and the object of a failed
  \<open>create\<close> stays under its name.
\<close>

definition refusing_os :: "plain_state os" where
  "refusing_os = plain_os\<lparr>os_shm_unlink := \<lambda>nm st. (Inl (Errno 13), st)\<rparr>"

theorem failed_create_leaves_name:
  "shm_laws refusing_os plain_named plain_maps \<and>
   fst (mapper_create cast_from_void_ptr refusing_os ''msg'' 100 plain_start) = Inl EINVAL \<and>
   plain_named (snd (mapper_create cast_from_void_ptr refusing_os ''msg'' 100 plain_start)) = {''msg''}"
proof (intro conjI)
  show "shm_laws refusing_os plain_named plain_maps"
    using plain_laws by (simp add: shm_laws_def refusing_os_def names_after_def)
  show "fst (mapper_create cast_from_void_ptr refusing_os ''msg'' 100 plain_start) = Inl EINVAL"
    "plain_named (snd (mapper_create cast_from_void_ptr refusing_os ''msg'' 100 plain_start)) = {''msg''}"
    by (simp_all add: refusing_os_def mapper_create_def plain_os_def plain_create_def plain_start_def map_and_init_def
        plain_mmap_def cast_from_void_ptr_def layout_values saturating_sub_def)
qed

text \<open>
  A failed \<open>open\<close> leaks its mapping. When the object found under the name is not larger than the
  header, \<open>open\<close> reports an error after it has mapped the object, and the mapping stays.
\<close>

theorem failed_open_leaks_mapping:
  assumes "shm_laws os named maps" "os_shm_open os nm st = (Inr shm, st1)"
    and "os_fstat_size os shm st1 = Inr sz" "unat sz \<le> 256" "os_mmap os sz shm st1 = (Inr p, st2)"
  shows "fst (mapper_open cast_from_void_ptr os nm st) = Inl EINVAL \<and>
    maps (snd (mapper_open cast_from_void_ptr os nm st)) = insert (p, sz) (maps st)"
proof -
  have "cast_from_void_ptr p sz = None"
    using assms(4) by (simp add: cast_from_void_ptr_def layout_values saturated_header)
  moreover have "p \<noteq> 0 \<and> maps st2 = insert (p, sz) (maps st)"
    using law_mmap [OF assms(1,5)] law_open [OF assms(1,2)] by simp
  ultimately show ?thesis
    using assms by (simp add: mapper_open_def map_and_init_def Let_def shm_laws_simps)
qed

definition plain_small :: plain_state where
  "plain_small = plain_start\<lparr>dir := [''msg'' \<mapsto> 0], sizes := (\<lambda>_. 0)(0 := 100), objects := 1\<rparr>"

theorem failed_open_leaks_mapping_witness:
  "fst (mapper_open cast_from_void_ptr plain_os ''msg'' plain_small) = Inl EINVAL \<and>
   plain_maps (snd (mapper_open cast_from_void_ptr plain_os ''msg'' plain_small)) = {(4096, 100)}"
proof -
  have "os_shm_open plain_os ''msg'' plain_small = (Inr 0, plain_small)"
    "os_fstat_size plain_os 0 plain_small = Inr 100"
    "os_mmap plain_os 100 0 plain_small = (Inr 4096, plain_small\<lparr>mappings := [(4096, 100)], pages := 1\<rparr>)"
    by (simp_all add: plain_os_def plain_small_def plain_start_def plain_mmap_def)
  from failed_open_leaks_mapping [OF plain_laws this(1,2) _ this(3)] show ?thesis
    by (simp add: plain_small_def plain_start_def)
qed

end
