(* ===== verification/Python_Types.thy ===== *)
theory Python_Types
  imports Memory_Mapper
begin

text \<open>
  The small types of the Python bindings (\<open>src/python/operation_mode.rs\<close>,
  \<open>src/python/reader_wait_policy.rs\<close>, \<open>src/python/bytes.rs\<close>, \<open>src/python/queue_data.rs\<close>), the
  outcomes of a Python method, and the channels of the standard library (\<open>std::sync::mpsc\<close>) that the
  asynchronous modes use.
\<close>

section \<open>OperationMode and ReaderWaitPolicy\<close>

datatype OperationMode = CreateOnly | ReadSync | ReadAsync | WriteSync | WriteAsync

fun can_read :: "OperationMode \<Rightarrow> bool" where
  "can_read ReadSync = True"
| "can_read ReadAsync = True"
| "can_read _ = False"

fun can_write :: "OperationMode \<Rightarrow> bool" where
  "can_write WriteSync = True"
| "can_write WriteAsync = True"
| "can_write _ = False"

datatype ReaderWaitPolicy = All | Count u16

fun to_count :: "ReaderWaitPolicy \<Rightarrow> u16" where
  "to_count All = 65535"
| "to_count (Count count) = count"

section \<open>Outcomes of a method\<close>

datatype py_error =
    Name_empty
  | Nul_in_name
  | Mode_cannot_be_create
  | Message_too_large nat nat
  | Guard_released
  | Guard_already_published
  | Data_too_large usize nat nat
  | Queue_stopped

datatype py_panic =
    Opened_write_only
  | Opened_read_only
  | No_receiver
  | Callback_raised
  | Core_panic panic

text \<open>
  A value, a \<open>ValueError\<close>, an error of the argument's own conversion, an \<open>OverflowError\<close>, a \<open>BufferError\<close>,
  an \<open>OSError\<close>, a panic, or a call that never returns.
\<close>

datatype 'a py_result =
    Py_ok 'a
  | Py_value_error py_error
  | Py_type_error
  | Py_overflow_error
  | Py_buffer_error
  | Py_os_error errno
  | Py_panic py_panic
  | Py_blocks

definition check_read_permission :: "OperationMode \<Rightarrow> py_panic option" where
  "check_read_permission mode = (if \<not> can_read mode then Some Opened_write_only else None)"

definition check_write_permission :: "OperationMode \<Rightarrow> py_panic option" where
  "check_write_permission mode = (if \<not> can_write mode then Some Opened_read_only else None)"

section \<open>Payloads\<close>

text \<open>\<open>RustPyBytes\<close> owns a copy of the payload; \<open>SenderQueueData\<close> keeps the bytes object alive.\<close>

type_synonym RustPyBytes = bytes
type_synonym SenderQueueData = bytes

record ReceiverQueueData =
  rq_sequence :: u64
  rq_data :: RustPyBytes

definition RustPyBytes_len :: "RustPyBytes \<Rightarrow> nat" where
  "RustPyBytes_len b = length b"

definition RustPyBytes_to_bytes :: "RustPyBytes \<Rightarrow> bytes" where
  "RustPyBytes_to_bytes b = b"

section \<open>The buffer protocol\<close>

text \<open>
  What an object exports to a consumer such as \<open>memoryview\<close>: the number of bytes and whether they may
  only be read. \<open>PyBuffer_FillInfo\<close> of the interpreter is a parameter, a function of the view it is asked
  to fill and the consumer's flags that returns \<open>None\<close> when it raises \<open>BufferError\<close>; a view that it does
  fill is the one it was asked for.
\<close>

record buffer_view =
  bv_len :: nat
  bv_readonly :: bool

type_synonym fill_info = "buffer_view \<Rightarrow> nat \<Rightarrow> buffer_view option"

definition fill_laws :: "fill_info \<Rightarrow> bool" where
  "fill_laws fill \<longleftrightarrow> (\<forall>v flags v'. fill v flags = Some v' \<longrightarrow> v' = v)"

text \<open>The common end of the three \<open>__getbuffer__\<close>: \<open>len().try_into()\<close> to a signed size, then the fill.\<close>

definition fill_buffer :: "fill_info \<Rightarrow> nat \<Rightarrow> nat \<Rightarrow> bool \<Rightarrow> buffer_view py_result" where
  "fill_buffer fill flags len readonly =
     (if len \<ge> 2 ^ 63 then Py_overflow_error
      else case fill \<lparr>bv_len = len, bv_readonly = readonly\<rparr> flags of
        None \<Rightarrow> Py_buffer_error
      | Some v \<Rightarrow> Py_ok v)"

definition RustPyBytes_getbuffer :: "fill_info \<Rightarrow> nat \<Rightarrow> RustPyBytes \<Rightarrow> buffer_view py_result" where
  "RustPyBytes_getbuffer fill flags b = fill_buffer fill flags (length b) True"

text \<open>\<open>__releasebuffer__\<close> does nothing.\<close>

definition RustPyBytes_releasebuffer :: "buffer_view \<Rightarrow> RustPyBytes \<Rightarrow> RustPyBytes" where
  "RustPyBytes_releasebuffer v b = b"

lemma fill_buffer_ok:
  "fill_laws fill \<Longrightarrow> fill_buffer fill flags len ro = Py_ok v \<Longrightarrow> v = \<lparr>bv_len = len, bv_readonly = ro\<rparr>"
  by (auto simp: fill_laws_def fill_buffer_def split: if_splits option.splits)

section \<open>Channels\<close>

text \<open>An unbounded queue with one sender and one receiver, either of which may have been dropped.\<close>

record 'a chan =
  items :: "'a list"
  tx_alive :: bool
  rx_alive :: bool

definition new_chan :: "'a chan" where
  "new_chan = \<lparr>items = [], tx_alive = True, rx_alive = True\<rparr>"

definition chan_send :: "'a \<Rightarrow> 'a chan \<Rightarrow> 'a chan option" where
  "chan_send x c = (if rx_alive c then Some (c\<lparr>items := items c @ [x]\<rparr>) else None)"

datatype 'a received = Got 'a | Disconnected | Empty

definition chan_recv :: "'a chan \<Rightarrow> 'a received \<times> 'a chan" where
  "chan_recv c =
     (case items c of
        x # xs \<Rightarrow> (Got x, c\<lparr>items := xs\<rparr>)
      | [] \<Rightarrow> (if tx_alive c then Empty else Disconnected, c))"

lemma chan_fifo:
  assumes "rx_alive c" "chan_send x c = Some c'"
  shows "items c' = items c @ [x] \<and> rx_alive c' \<and> tx_alive c' = tx_alive c"
  using assms by (auto simp: chan_send_def)

end
