(* ===== verification/Python_Guards.thy ===== *)
theory Python_Guards
  imports Python_Types Message_Behaviour
begin

text \<open>
  The guards of the Python bindings (\<open>src/python/guards.rs\<close>): file-like objects over the payload of a
  shared message, with a cursor. A guard is a record of its own; the memory of the message is passed
  along. The last section models the object graph behind a guard: the reference to the Python message
  object and the mapping that the object owns.
\<close>

section \<open>PythonReadGuard\<close>

record PythonReadGuard =
  rg_inner :: "message_read_guard option"
  rg_cursor :: usize

definition PythonReadGuard_new :: "message_read_guard \<Rightarrow> PythonReadGuard" where
  "PythonReadGuard_new g = \<lparr>rg_inner = Some g, rg_cursor = 0\<rparr>"

text \<open>\<open>__exit__\<close>, \<open>__clear__\<close>: drop the guard, if it is still there.\<close>

definition rg_exit :: "PythonReadGuard \<Rightarrow> shared_message \<Rightarrow> PythonReadGuard \<times> shared_message" where
  "rg_exit g m =
     (case rg_inner g of
        None \<Rightarrow> (g, m)
      | Some _ \<Rightarrow> (g\<lparr>rg_inner := None\<rparr>, release_active_reader m))"

text \<open>\<open>__enter__\<close>, and what \<open>__traverse__\<close> shows to the garbage collector: the message object \<open>obj\<close>.\<close>

definition rg_enter :: "PythonReadGuard \<Rightarrow> PythonReadGuard" where
  "rg_enter g = g"

definition rg_traverse :: "'o \<Rightarrow> PythonReadGuard \<Rightarrow> 'o list" where
  "rg_traverse obj g = (case rg_inner g of None \<Rightarrow> [] | Some _ \<Rightarrow> [obj])"

definition rg_writable :: bool where "rg_writable = False"
definition rg_seekable :: bool where "rg_seekable = True"
definition rg_readable :: bool where "rg_readable = True"

text \<open>The access to \<open>guard.data()\<close> behind most methods.\<close>

definition rg_data :: "PythonReadGuard \<Rightarrow> shared_message \<Rightarrow> bytes py_result" where
  "rg_data g m =
     (case rg_inner g of
        None \<Rightarrow> Py_value_error Guard_released
      | Some mg \<Rightarrow> (case read_guard_data mg m of Inl p \<Rightarrow> Py_panic (Core_panic p) | Inr d \<Rightarrow> Py_ok d))"

definition rg_len :: "PythonReadGuard \<Rightarrow> shared_message \<Rightarrow> nat py_result" where
  "rg_len g m =
     (case rg_inner g of
        None \<Rightarrow> Py_ok 0
      | Some mg \<Rightarrow> (case read_guard_data mg m of Inl p \<Rightarrow> Py_panic (Core_panic p) | Inr d \<Rightarrow> Py_ok (length d)))"

definition rg_sequence :: "PythonReadGuard \<Rightarrow> u64 py_result" where
  "rg_sequence g =
     (case rg_inner g of None \<Rightarrow> Py_value_error Guard_released | Some mg \<Rightarrow> Py_ok (guard_sequence mg))"

text \<open>\<open>size\<close> is a signed integer: a negative one, like \<open>None\<close>, asks for everything.\<close>

definition rg_read :: "64 word option \<Rightarrow> PythonReadGuard \<Rightarrow> shared_message \<Rightarrow> bytes py_result \<times> PythonReadGuard" where
  "rg_read sz g m =
     (case rg_data g m of
        Py_ok d \<Rightarrow>
          (let current_pos = unat (rg_cursor g) in
           if current_pos \<ge> length d then (Py_ok [], g)
           else (let available = length d - current_pos;
                     to_read = (case sz of
                                  Some n \<Rightarrow> if sint n \<ge> 0 then min (unat n) available else available
                                | None \<Rightarrow> available)
                 in (Py_ok (take to_read (drop current_pos d)),
                     g\<lparr>rg_cursor := rg_cursor g + of_nat to_read\<rparr>)))
      | Py_panic p \<Rightarrow> (Py_panic p, g)
      | r \<Rightarrow> (Py_value_error Guard_released, g))"

definition rg_tell :: "PythonReadGuard \<Rightarrow> usize" where
  "rg_tell g = rg_cursor g"

definition rg_seek :: "usize \<Rightarrow> PythonReadGuard \<Rightarrow> usize \<times> PythonReadGuard" where
  "rg_seek pos g = (pos, g\<lparr>rg_cursor := pos\<rparr>)"

definition rg_to_bytes :: "PythonReadGuard \<Rightarrow> shared_message \<Rightarrow> bytes py_result" where
  "rg_to_bytes g m = rg_data g m"

section \<open>PythonWriteGuard\<close>

text \<open>\<open>wg_active\<close>: the field \<open>inner\<close> still holds the \<open>MessageWriteGuard\<close>.\<close>

record PythonWriteGuard =
  wg_active :: bool
  wg_cursor :: usize

definition PythonWriteGuard_new :: PythonWriteGuard where
  "PythonWriteGuard_new = \<lparr>wg_active = True, wg_cursor = 0\<rparr>"

definition wg_exit :: "PythonWriteGuard \<Rightarrow> shared_message \<Rightarrow> PythonWriteGuard \<times> shared_message" where
  "wg_exit g m = (if wg_active g then (g\<lparr>wg_active := False\<rparr>, guard_drop m) else (g, m))"

definition wg_enter :: "PythonWriteGuard \<Rightarrow> PythonWriteGuard" where
  "wg_enter g = g"

definition wg_traverse :: "'o \<Rightarrow> PythonWriteGuard \<Rightarrow> 'o list" where
  "wg_traverse obj g = (if wg_active g then [obj] else [])"

definition wg_writable :: bool where "wg_writable = True"
definition wg_seekable :: bool where "wg_seekable = True"
definition wg_readable :: bool where "wg_readable = False"

definition wg_len :: "PythonWriteGuard \<Rightarrow> shared_message \<Rightarrow> nat py_result" where
  "wg_len g m = (if wg_active g then Py_ok (capacity m) else Py_value_error Guard_released)"

text \<open>The argument of \<open>write\<close> is any object; \<open>None\<close> stands for one that has no buffer of bytes.\<close>

definition wg_write :: "bytes option \<Rightarrow> PythonWriteGuard \<Rightarrow> shared_message \<Rightarrow>
    nat py_result \<times> PythonWriteGuard \<times> shared_message" where
  "wg_write buf g m =
     (if \<not> wg_active g then (Py_value_error Guard_released, g, m)
      else case buf of
        None \<Rightarrow> (Py_type_error, g, m)
      | Some src \<Rightarrow>
          (let write_len = (of_nat (length src) :: usize);
               endpos = wg_cursor g + write_len in
           if unat endpos > length (data m)
           then (Py_value_error (Data_too_large (wg_cursor g) (length src) (length (data m))), g, m)
           else if wg_cursor g > endpos then (Py_panic (Core_panic Slice_out_of_range), g, m)
           else (Py_ok (length src), g\<lparr>wg_cursor := endpos\<rparr>,
                 m\<lparr>data := take (unat (wg_cursor g)) (data m) @ src @ drop (unat endpos) (data m)\<rparr>)))"

definition wg_tell :: "PythonWriteGuard \<Rightarrow> usize" where
  "wg_tell g = wg_cursor g"

definition wg_seek :: "usize \<Rightarrow> PythonWriteGuard \<Rightarrow> usize \<times> PythonWriteGuard" where
  "wg_seek pos g = (pos, g\<lparr>wg_cursor := pos\<rparr>)"

text \<open>\<open>publish\<close> also stores the new number in \<open>last_written_sequence\<close> of the message object, the last component.\<close>

definition wg_publish :: "usize option \<Rightarrow> PythonWriteGuard \<Rightarrow> shared_message \<Rightarrow> u64 \<Rightarrow>
    u64 option py_result \<times> PythonWriteGuard \<times> shared_message \<times> u64" where
  "wg_publish sz g m last_written =
     (if \<not> wg_active g then (Py_value_error Guard_already_published, g, m, last_written)
      else (let final_size = (case sz of Some n \<Rightarrow> n | None \<Rightarrow> wg_cursor g) in
            case guard_publish final_size m of
              (r, m1) \<Rightarrow> (Py_ok r, g\<lparr>wg_active := False\<rparr>, m1,
                          (case r of Some q \<Rightarrow> q | None \<Rightarrow> last_written))))"

section \<open>Exported buffers\<close>

text \<open>Both guards export the address of the payload; \<open>__releasebuffer__\<close> does nothing, and nothing counts the views.\<close>

definition rg_getbuffer :: "fill_info \<Rightarrow> nat \<Rightarrow> PythonReadGuard \<Rightarrow> shared_message \<Rightarrow> buffer_view py_result" where
  "rg_getbuffer fill flags g m =
     (case rg_inner g of
        None \<Rightarrow> Py_value_error Guard_released
      | Some _ \<Rightarrow>
          (case data_ref m of
             Inl p \<Rightarrow> Py_panic (Core_panic p)
           | Inr d \<Rightarrow> fill_buffer fill flags (length d) True))"

definition wg_getbuffer :: "fill_info \<Rightarrow> nat \<Rightarrow> PythonWriteGuard \<Rightarrow> shared_message \<Rightarrow> buffer_view py_result" where
  "wg_getbuffer fill flags g m =
     (if \<not> wg_active g then Py_value_error Guard_released
      else fill_buffer fill flags (length (data m)) False)"

definition rg_releasebuffer :: "buffer_view \<Rightarrow> PythonReadGuard \<Rightarrow> PythonReadGuard" where
  "rg_releasebuffer v g = g"

definition wg_releasebuffer :: "buffer_view \<Rightarrow> PythonWriteGuard \<Rightarrow> PythonWriteGuard" where
  "wg_releasebuffer v g = g"

section \<open>Reading in pieces\<close>

text \<open>Reads of the given sizes, one after the other.\<close>

fun rg_reads :: "64 word option list \<Rightarrow> PythonReadGuard \<Rightarrow> shared_message \<Rightarrow> bytes py_result list \<times> PythonReadGuard" where
  "rg_reads [] g m = ([], g)"
| "rg_reads (sz # szs) g m =
     (case rg_read sz g m of (r, g1) \<Rightarrow> (case rg_reads szs g1 m of (rs, g2) \<Rightarrow> (r # rs, g2)))"

fun ok_bytes :: "bytes py_result list \<Rightarrow> bytes" where
  "ok_bytes [] = []"
| "ok_bytes (Py_ok b # rs) = b @ ok_bytes rs"
| "ok_bytes (_ # rs) = ok_bytes rs"

text \<open>How many bytes a read delivers from what is left.\<close>

definition asked :: "64 word option \<Rightarrow> nat \<Rightarrow> nat" where
  "asked sz available =
     (case sz of Some n \<Rightarrow> if sint n \<ge> 0 then min (unat n) available else available | None \<Rightarrow> available)"

lemma asked_le: "asked sz n \<le> n"
  by (simp add: asked_def split: option.splits)

lemma rg_read_open:
  assumes "rg_inner g = Some mg" "data_ref m = Inr d" "length d < 2 ^ 64"
  shows "rg_read sz g m =
    (let n = asked sz (length d - unat (rg_cursor g)) in
     (Py_ok (take n (drop (unat (rg_cursor g)) d)), g\<lparr>rg_cursor := rg_cursor g + of_nat n\<rparr>))"
proof (cases "unat (rg_cursor g) \<ge> length d")
  case True
  then have "asked sz (length d - unat (rg_cursor g)) = 0" using asked_le [of sz 0] by simp
  with assms True show ?thesis by (simp add: rg_read_def rg_data_def)
next
  case False
  with assms show ?thesis by (simp add: rg_read_def rg_data_def Let_def asked_def)
qed

lemma cursor_advances:
  assumes "n \<le> length d - unat c" "length d < 2 ^ 64" "unat c \<le> length d"
  shows "unat (c + of_nat n :: usize) = unat c + n"
proof -
  have n: "unat (of_nat n :: usize) = n" using assms by (intro unat_of_nat_u64) simp
  have "unat c + n < 2 ^ 64" using assms by linarith
  then show ?thesis by (simp add: unat_word_ariths(1) n)
qed

lemma rg_reads_open:
  assumes "rg_inner g = Some mg" "data_ref m = Inr d" "length d < 2 ^ 64" "unat (rg_cursor g) \<le> length d"
    and "rg_reads szs g m = (rs, g')"
  shows "ok_bytes rs = take (unat (rg_cursor g') - unat (rg_cursor g)) (drop (unat (rg_cursor g)) d) \<and>
    unat (rg_cursor g) \<le> unat (rg_cursor g') \<and> unat (rg_cursor g') \<le> length d \<and> rg_inner g' = Some mg \<and>
    (None \<in> set szs \<longrightarrow> unat (rg_cursor g') = length d)"
  using assms(1,4,5)
proof (induction szs arbitrary: g rs)
  case (Cons sz szs)
  let ?c = "unat (rg_cursor g)" and ?n = "asked sz (length d - unat (rg_cursor g))"
  let ?g1 = "g\<lparr>rg_cursor := rg_cursor g + of_nat ?n\<rparr>"
  have c1: "unat (rg_cursor ?g1) = ?c + ?n" using cursor_advances [of ?n d "rg_cursor g"] asked_le assms(3) Cons.prems(2) by simp
  obtain rs1 where rs: "rg_reads szs ?g1 m = (rs1, g')" "rs = Py_ok (take ?n (drop ?c d)) # rs1"
    using Cons.prems(3) rg_read_open [OF Cons.prems(1) assms(2,3), of sz] by (auto simp: Let_def split: prod.splits)
  have "?c + ?n \<le> length d" using asked_le [of sz "length d - ?c"] Cons.prems(2) by linarith
  with Cons.IH [OF _ _ rs(1)] Cons.prems(1) c1
  have ih: "ok_bytes rs1 = take (unat (rg_cursor g') - (?c + ?n)) (drop (?c + ?n) d)"
    "?c + ?n \<le> unat (rg_cursor g')" "unat (rg_cursor g') \<le> length d" "rg_inner g' = Some mg"
    "None \<in> set szs \<longrightarrow> unat (rg_cursor g') = length d"
    by simp_all
  have "sz = None \<Longrightarrow> ?c + ?n = length d" using Cons.prems(2) by (simp add: asked_def)
  with ih have all: "None \<in> set (sz # szs) \<longrightarrow> unat (rg_cursor g') = length d" by auto
  have "unat (rg_cursor g') - ?c = ?n + (unat (rg_cursor g') - (?c + ?n))" using ih(2) by linarith
  then have "take (unat (rg_cursor g') - ?c) (drop ?c d) = take ?n (drop ?c d) @ ok_bytes rs1"
    using ih(1) by (simp add: take_add add.commute)
  with ih all rs(2) show ?case by simp
qed simp

section \<open>Writing in pieces\<close>

fun wg_writes :: "bytes list \<Rightarrow> PythonWriteGuard \<Rightarrow> shared_message \<Rightarrow> PythonWriteGuard \<times> shared_message" where
  "wg_writes [] g m = (g, m)"
| "wg_writes (b # bs) g m = (case wg_write (Some b) g m of (r, g1, m1) \<Rightarrow> wg_writes bs g1 m1)"

lemma wg_write_fits:
  assumes "wg_active g" "length (data m) < 2 ^ 64" "unat (wg_cursor g) + length b \<le> length (data m)"
  shows "wg_write (Some b) g m =
    (Py_ok (length b), g\<lparr>wg_cursor := wg_cursor g + of_nat (length b)\<rparr>,
     m\<lparr>data := take (unat (wg_cursor g)) (data m) @ b @ drop (unat (wg_cursor g) + length b) (data m)\<rparr>)"
proof -
  have e: "unat (wg_cursor g + of_nat (length b) :: usize) = unat (wg_cursor g) + length b"
    using cursor_advances [of "length b" "data m" "wg_cursor g"] assms by simp
  with assms show ?thesis by (simp add: wg_write_def Let_def word_less_nat_alt)
qed

lemma wg_writes_fit:
  assumes "wg_active g" "length (data m) < 2 ^ 64" "unat (wg_cursor g) + length (concat bs) \<le> length (data m)"
  shows "\<exists>g' d'. wg_writes bs g m = (g', m\<lparr>data := d'\<rparr>) \<and> wg_active g' \<and> length d' = length (data m) \<and>
    unat (wg_cursor g') = unat (wg_cursor g) + length (concat bs) \<and>
    take (unat (wg_cursor g')) d' = take (unat (wg_cursor g)) (data m) @ concat bs \<and>
    drop (unat (wg_cursor g')) d' = drop (unat (wg_cursor g')) (data m)"
  using assms
proof (induction bs arbitrary: g m)
  case Nil
  then show ?case by (intro exI [of _ g] exI [of _ "data m"]) simp
next
  case (Cons b bs)
  let ?c = "unat (wg_cursor g)"
  let ?g1 = "g\<lparr>wg_cursor := wg_cursor g + of_nat (length b)\<rparr>"
  let ?d1 = "take ?c (data m) @ b @ drop (?c + length b) (data m)"
  have c1: "unat (wg_cursor ?g1) = ?c + length b"
    using cursor_advances [of "length b" "data m" "wg_cursor g"] Cons.prems by simp
  have len: "length ?d1 = length (data m)" using Cons.prems(3) by simp
  from Cons.IH [of ?g1 "m\<lparr>data := ?d1\<rparr>"] Cons.prems c1 len obtain g' d' where
    rest: "wg_writes bs ?g1 (m\<lparr>data := ?d1\<rparr>) = (g', m\<lparr>data := d'\<rparr>)" "wg_active g'"
      "length d' = length (data m)" "unat (wg_cursor g') = ?c + length b + length (concat bs)"
      "take (unat (wg_cursor g')) d' = take (?c + length b) ?d1 @ concat bs"
      "drop (unat (wg_cursor g')) d' = drop (unat (wg_cursor g')) ?d1"
    by auto
  have "take (?c + length b) ?d1 = take ?c (data m) @ b" using Cons.prems(3) by (cases b) (auto simp: min_def)
  moreover have "drop n ?d1 = drop n (data m)" if "?c + length b \<le> n" for n using that Cons.prems(3) by simp
  ultimately show ?case
    using rest wg_write_fits [of g m b] Cons.prems
    by (intro exI [of _ g'] exI [of _ d']) (simp add: ac_simps)
qed

section \<open>The objects behind a guard\<close>








section \<open>Consuming a message\<close>

definition consume :: "shared_message \<Rightarrow> shared_message" where
  "consume m = release_active_reader (snd (update_reader_state Register_reader m))"

lemma release_keeps: "quiescent m \<Longrightarrow> quiescent (release_active_reader m)"
  by (auto simp: release_active_reader_def update_reader_state_eq quiescent_def wf_message_def
      notify_reader_done_condvar_def)

lemma consume_effect:
  "abs_channel (consume m) = (abs_channel m)\<lparr>ch_readers :=
     (get_reader_state m)\<lparr>data_consumed := data_consumed (get_reader_state m) + 1\<rparr>\<rparr>"
  "quiescent m \<Longrightarrow> quiescent (consume m)"
proof -
  have reg: "abs_channel (snd (update_reader_state Register_reader m)) = (abs_channel m)\<lparr>ch_readers :=
      (get_reader_state m)\<lparr>active_readers := active_readers (get_reader_state m) + 1\<rparr>\<rparr>"
    by (simp add: update_reader_state_eq abs_channel_readers)
  then show "abs_channel (consume m) = (abs_channel m)\<lparr>ch_readers :=
     (get_reader_state m)\<lparr>data_consumed := data_consumed (get_reader_state m) + 1\<rparr>\<rparr>"
    by (simp add: consume_def release_refines ch_release_def)
  show "quiescent m \<Longrightarrow> quiescent (consume m)"
    unfolding consume_def by (intro release_keeps update_reader_state_keeps)
qed

section \<open>Properties\<close>

text \<open>
  C31: A read guard is a file over the message. Reads of any sizes on a fresh guard deliver the payload
  from its start without gaps or overlaps, up to the position \<open>tell\<close> reports; one read without a size
  delivers all of the rest.
\<close>

theorem read_guard_is_a_file:
  assumes "data_ref m = Inr d" "length d < 2 ^ 64" "rg_reads szs (PythonReadGuard_new mg) m = (rs, g)"
  shows "ok_bytes rs = take (unat (rg_tell g)) d \<and> unat (rg_tell g) \<le> length d \<and>
    (None \<in> set szs \<longrightarrow> ok_bytes rs = d)"
  using rg_reads_open [OF _ assms(1,2) _ assms(3)] by (simp add: PythonReadGuard_new_def rg_tell_def)

lemma sample_data: "data_ref sample_message = Inr [1, 2]"
  using data_ref_wf [of sample_message] sample_message_facts by (simp add: quiescent_def)

definition sample_reads :: "bytes py_result list \<times> PythonReadGuard" where
  "sample_reads = rg_reads [Some 1, None] (PythonReadGuard_new \<lparr>guard_sequence = 1\<rparr>) sample_message"

theorem read_guard_is_a_file_witness:
  "data_ref sample_message = Inr [1, 2] \<and> ok_bytes (fst sample_reads) = [1, 2]"
proof -
  have "rg_reads [Some 1, None] (PythonReadGuard_new \<lparr>guard_sequence = 1\<rparr>) sample_message =
      (fst sample_reads, snd sample_reads)"
    by (simp only: sample_reads_def prod.collapse)
  from read_guard_is_a_file [OF sample_data _ this]
  have "None \<in> set [Some (1 :: 64 word), None] \<longrightarrow> ok_bytes (fst sample_reads) = [1, 2]" by fastforce
  then have "ok_bytes (fst sample_reads) = [1, 2]" by simp
  with sample_data show ?thesis by (rule conjI)
qed

text \<open>
  A guard as a context manager. \<open>__enter__\<close> hands out the guard itself; \<open>__exit__\<close> releases the reader, or
  gives up the write, exactly once, whatever comes after. Until then the garbage collector is shown the
  message object; afterwards it is shown nothing, the length of a read guard is 0 and every other access
  raises \<open>ValueError\<close>.
\<close>

theorem released_guards_are_inert:
  assumes "rg_exit (rg_enter (PythonReadGuard_new mg)) m = (g, m1)" "wg_exit (wg_enter PythonWriteGuard_new) m = (w, m2)"
  shows "m1 = release_active_reader m \<and> rg_exit g m' = (g, m') \<and> rg_len g m' = Py_ok 0 \<and>
     rg_sequence g = Py_value_error Guard_released \<and> rg_to_bytes g m' = Py_value_error Guard_released \<and>
     rg_read sz g m' = (Py_value_error Guard_released, g) \<and>
     rg_traverse ob (PythonReadGuard_new mg) = [ob] \<and> rg_traverse ob g = [] \<and>
     m2 = guard_drop m \<and> wg_exit w m' = (w, m') \<and> wg_len w m' = Py_value_error Guard_released \<and>
     wg_write buf w m' = (Py_value_error Guard_released, w, m') \<and>
     wg_publish sz' w m' n = (Py_value_error Guard_already_published, w, m', n) \<and>
     wg_traverse ob PythonWriteGuard_new = [ob] \<and> wg_traverse ob w = []"
  using assms
  by (auto simp: rg_exit_def PythonReadGuard_new_def rg_len_def rg_sequence_def rg_to_bytes_def rg_data_def
      rg_read_def rg_enter_def rg_traverse_def wg_exit_def PythonWriteGuard_new_def wg_enter_def wg_len_def
      wg_write_def wg_publish_def wg_traverse_def)

theorem released_guards_are_inert_witness:
  "rg_len (fst (rg_exit (rg_enter (PythonReadGuard_new \<lparr>guard_sequence = 1\<rparr>)) sample_message)) sample_message = Py_ok 0"
  using released_guards_are_inert [OF prod.collapse [symmetric] prod.collapse [symmetric], where ob = "()"] by blast

lemma start_write_data: "start_write [] m0 = (Returns True, m, es) \<Longrightarrow> data m = data m0"
  by (auto simp: start_write_alone Let_def split: if_splits)

lemma publish_write_effect:
  assumes "publish_write sz m = (r, m')"
  shows "r = Some (next_sequence (current_sequence m))" "current_sequence m' = next_sequence (current_sequence m)"
    "data m' = data m" "data_size m' = sz" "writer_mutex m' = UNLOCKED"
    "\<not> writing_in_progress (get_sequence_state m')"
proof -
  have m': "m' = snd (publish_write sz m)" "r = fst (publish_write sz m)" using assms by simp_all
  show "r = Some (next_sequence (current_sequence m))" "data m' = data m" "data_size m' = sz"
    "writer_mutex m' = UNLOCKED"
    by (simp_all add: m' publish_write_eq current_sequence_def)
  have "get_sequence_state m' = \<lparr>sequence = next_sequence (sequence (get_sequence_state m)),
      stopped = is_stopped m, writing_in_progress = False\<rparr>"
    by (simp add: m' publish_write_eq get_sequence_state_def SequenceState_from_to_packed next_sequence_masked)
  then show "current_sequence m' = next_sequence (current_sequence m)"
    "\<not> writing_in_progress (get_sequence_state m')"
    by (simp_all add: current_sequence_def)
qed

text \<open>
  C32: A write guard is a file over the buffer. Writing byte strings one after the other through a fresh
  guard of a quiescent message that \<open>write\<close> admitted, as \<open>pickle.dump\<close> does, and publishing without a
  size makes their concatenation the next message: \<open>publish\<close> returns its sequence number and stores it
  in \<open>last_written_sequence\<close>, readers see exactly the concatenation, and the mutex is free again.
\<close>

theorem write_guard_is_a_file:
  assumes "SharedMessage_write [] m0 = (Returns True, m, [])" "wf_message m0"
    and "length (concat bs) \<le> capacity m"
  shows "\<exists>g m1 m2 q. wg_writes bs PythonWriteGuard_new m = (g, m1) \<and>
    wg_publish None g m1 last_written = (Py_ok (Some q), g\<lparr>wg_active := False\<rparr>, m2, q) \<and>
    q = next_sequence (current_sequence m) \<and> current_sequence m2 = q \<and>
    data_ref m2 = Inr (concat bs) \<and> writer_mutex m2 = UNLOCKED \<and>
    \<not> writing_in_progress (get_sequence_state m2)"
proof -
  have data: "data m = data m0" using start_write_data [of m0 m "[]"] assms(1) by (simp add: SharedMessage_write_def)
  with assms(2,3) have len: "length (data m) < 2 ^ 64" "length (concat bs) \<le> length (data m)"
    by (simp_all add: wf_message_def capacity_def)
  obtain g d where w: "wg_writes bs PythonWriteGuard_new m = (g, m\<lparr>data := d\<rparr>)" "wg_active g"
      "length d = length (data m)" "unat (wg_cursor g) = length (concat bs)"
      "take (unat (wg_cursor g)) d = concat bs"
    using wg_writes_fit [of PythonWriteGuard_new m bs] len by (auto simp: PythonWriteGuard_new_def)
  obtain q m2 where p: "publish_write (wg_cursor g) (m\<lparr>data := d\<rparr>) = (Some q, m2)"
    by (simp add: publish_write_def Let_def)
  have fits: "\<not> unat (wg_cursor g) > capacity (m\<lparr>data := d\<rparr>)" using w len by (simp add: capacity_def)
  have eff: "q = next_sequence (current_sequence m)" "current_sequence m2 = q" "data m2 = d"
     "data_size m2 = wg_cursor g" "writer_mutex m2 = UNLOCKED" "\<not> writing_in_progress (get_sequence_state m2)"
    using publish_write_effect [OF p] by (simp_all add: current_sequence_def get_sequence_state_def)
  have "data_ref m2 = Inr (concat bs)" using eff w len by (simp add: data_ref_def)
  moreover have "wg_publish None g (m\<lparr>data := d\<rparr>) last_written = (Py_ok (Some q), g\<lparr>wg_active := False\<rparr>, m2, q)"
    using w(2) fits p by (simp add: wg_publish_def guard_publish_def)
  ultimately show ?thesis using w(1) eff by blast
qed

definition admitted_message :: shared_message where
  "admitted_message = fst (snd (SharedMessage_write [] (fresh_message 8)))"

lemma admitted_message_facts:
  "SharedMessage_write [] (fresh_message 8) = (Returns True, admitted_message, [])"
  "wf_message (fresh_message 8)" "capacity admitted_message = 8"
proof -
  show a: "SharedMessage_write [] (fresh_message 8) = (Returns True, admitted_message, [])"
    using fresh_message_writable [of "[]" 8]
    by (simp add: admitted_message_def SharedMessage_write_def start_write_alone writable_def Let_def)
      (simp add: fresh_message_def UNLOCKED_def)
  show "wf_message (fresh_message 8)" by (simp add: wf_message_def fresh_message_def)
  show "capacity admitted_message = 8"
    using start_write_data [of "fresh_message 8" admitted_message "[]"] a
    by (simp add: SharedMessage_write_def capacity_def fresh_message_def)
qed

theorem write_guard_is_a_file_witness:
  "\<exists>g m1 m2 q. wg_writes [[1, 2], [3]] PythonWriteGuard_new admitted_message = (g, m1) \<and>
     wg_publish None g m1 0 = (Py_ok (Some q), g\<lparr>wg_active := False\<rparr>, m2, q) \<and> data_ref m2 = Inr [1, 2, 3]"
proof -
  have "length (concat [[1, 2], [3 :: u8]]) \<le> capacity admitted_message"
    by (simp add: admitted_message_facts)
  from write_guard_is_a_file [OF admitted_message_facts(1,2) this, of 0] show ?thesis by fastforce
qed

text \<open>
  C33: Bounds of \<open>WriteGuard.write\<close>. A write that does not fit raises \<open>ValueError\<close> and changes nothing, as
  long as the end position does not exceed the range of \<open>usize\<close>; past it the sum wraps around and the
  method panics instead, also without changing anything.
\<close>

theorem write_guard_bounds:
  assumes "wg_active g" "length src < 2 ^ 64" "length (data m) < unat (wg_cursor g) + length src"
  shows "wg_write (Some src) g m =
    (if unat (wg_cursor g) + length src < 2 ^ 64
     then (Py_value_error (Data_too_large (wg_cursor g) (length src) (length (data m))), g, m)
     else if length (data m) < unat (wg_cursor g) + length src - 2 ^ 64
     then (Py_value_error (Data_too_large (wg_cursor g) (length src) (length (data m))), g, m)
     else (Py_panic (Core_panic Slice_out_of_range), g, m))"
proof -
  have n: "unat (of_nat (length src) :: usize) = length src" using assms(2) by (rule unat_of_nat_u64)
  have e: "unat (wg_cursor g + of_nat (length src)) = (unat (wg_cursor g) + length src) mod 2 ^ 64"
    by (simp add: unat_word_ariths(1) n)
  show ?thesis
  proof (cases "unat (wg_cursor g) + length src < 2 ^ 64")
    case True
    with e have "unat (wg_cursor g + of_nat (length src)) = unat (wg_cursor g) + length src" by simp
    with assms True show ?thesis by (simp add: wg_write_def Let_def)
  next
    case False
    have c: "unat (wg_cursor g) < 2 ^ 64" using unsigned_less [of "wg_cursor g"] by simp
    with assms(2) False e
    have e': "unat (wg_cursor g + of_nat (length src)) = unat (wg_cursor g) + length src - 2 ^ 64"
      by (simp add: mod_if)
    with assms(2) False have "wg_cursor g + of_nat (length src) < wg_cursor g"
      by (simp add: word_less_nat_alt)
    with e' assms(1) False show ?thesis by (simp add: wg_write_def Let_def)
  qed
qed

theorem write_guard_bounds_witness:
  "wg_write (Some [7]) (snd (wg_seek (2 ^ 64 - 1) PythonWriteGuard_new)) (fresh_message 8) =
     (Py_panic (Core_panic Slice_out_of_range), snd (wg_seek (2 ^ 64 - 1) PythonWriteGuard_new), fresh_message 8)"
  using write_guard_bounds [of "snd (wg_seek (2 ^ 64 - 1) PythonWriteGuard_new)" "[7]" "fresh_message 8"]
  by (simp add: wg_seek_def PythonWriteGuard_new_def fresh_message_def)



text \<open>
  What a live guard exports. The view of a read guard covers exactly the bytes that \<open>to_bytes\<close> returns and
  is read-only, the view of a write guard covers the whole capacity and is writable, and a guard that
  was released exports nothing.
\<close>

theorem guard_buffers:
  assumes "fill_laws fill"
  shows "rg_getbuffer fill flags g m = Py_ok v \<Longrightarrow>
      \<exists>d. rg_to_bytes g m = Py_ok d \<and> v = \<lparr>bv_len = length d, bv_readonly = True\<rparr>"
    and "wg_getbuffer fill flags w m = Py_ok v \<Longrightarrow> wg_active w \<and> v = \<lparr>bv_len = length (data m), bv_readonly = False\<rparr>"
    and "rg_exit g m = (g1, m1) \<Longrightarrow> rg_getbuffer fill flags g1 m2 = Py_value_error Guard_released"
  using fill_buffer_ok [OF assms]
  by (auto simp: rg_getbuffer_def wg_getbuffer_def rg_to_bytes_def rg_data_def rg_exit_def
      split: option.splits sum.splits if_splits)

end
