(* ===== verification/Python_Message.thy ===== *)
theory Python_Message
  imports Python_Guards
begin

text \<open>
  The message object of the Python bindings (\<open>src/python/message.rs\<close>) and the module's functions
  \<open>read_all\<close> and \<open>read_all_map\<close> (\<open>src/python/mod.rs\<close>). A handle is a record; the memory it maps is
  passed along, because other handles, in this process or another, map the same memory. The writer
  thread of the asynchronous writing mode and the reader thread of the asynchronous reading mode are
  step functions, one iteration of their loop per step.
\<close>

section \<open>Handles\<close>

record reader_thread =
  rt_chan :: "ReceiverQueueData chan"
  rt_last :: u64

text \<open>
  \<open>pm_writers\<close>: the channel of every writer thread started so far; the thread runs while it has the
  receiving end. \<open>pm_sender\<close> selects the one behind the field \<open>sender\<close>.
\<close>

record PythonSharedMessage =
  pm_name :: string
  pm_mode :: OperationMode
  last_written_sequence :: u64
  last_read_sequence :: u64
  pm_sender :: "nat option"
  pm_writers :: "SenderQueueData chan list"
  pm_receiver :: "reader_thread option"

definition PythonSharedMessage_new :: "string \<Rightarrow> OperationMode \<Rightarrow> shared_message \<Rightarrow>
    PythonSharedMessage py_result \<times> shared_message" where
  "PythonSharedMessage_new nm mode m =
     (let handle = \<lparr>pm_name = nm, pm_mode = mode, last_written_sequence = 0, last_read_sequence = 0,
                    pm_sender = None, pm_writers = [],
                    pm_receiver = (if mode = ReadAsync then Some \<lparr>rt_chan = new_chan, rt_last = 0\<rparr> else None)\<rparr>
      in if can_read mode
         then (case add_reader m of
                 (Returns _, m1) \<Rightarrow> (Py_ok handle, m1)
               | (Panics p, m1) \<Rightarrow> (Py_panic (Core_panic p), m1)
               | (Blocks, m1) \<Rightarrow> (Py_blocks, m1))
         else (Py_ok handle, m))"

definition DEFAULT_MAX_CAPACITY_BYTES :: usize where
  "DEFAULT_MAX_CAPACITY_BYTES = 1024 * 1024 * 1024"

definition set_max_capacity :: "usize \<Rightarrow> usize" where
  "set_max_capacity capacity_mb = capacity_mb * 1024 * 1024"

definition nul_in :: "string \<Rightarrow> bool" where
  "nul_in nm \<longleftrightarrow> CHR 0x00 \<in> set nm"

text \<open>A new object is zero-filled, so its message is the fresh one.\<close>

definition py_create :: "'o os \<Rightarrow> usize \<Rightarrow> string \<Rightarrow> OperationMode \<Rightarrow> ReaderWaitPolicy \<Rightarrow> 'o \<Rightarrow>
    (PythonSharedMessage \<times> mapper \<times> shared_message) py_result \<times> 'o" where
  "py_create os max_capacity nm mode policy st =
     (if nm = [] then (Py_value_error Name_empty, st)
      else if nul_in nm then (Py_value_error Nul_in_name, st)
      else case mapper_create cast_from_void_ptr os nm (header_size + max_capacity) st of
        (Inl e, st1) \<Rightarrow> (Py_os_error e, st1)
      | (Inr mp, st1) \<Rightarrow>
          (let m = fresh_message (unat (snd (mapper_deref mp)));
               m1 = fst (snd (set_target_read_count (to_count policy) [] m))
           in case PythonSharedMessage_new nm mode m1 of
                (Py_ok handle, m2) \<Rightarrow> (Py_ok (handle, mp, m2), st1)
              | (Py_panic p, m2) \<Rightarrow> (Py_panic p, mapper_drop os mp st1)
              | _ \<Rightarrow> (Py_blocks, st1)))"

text \<open>\<open>contents\<close> is the message that the object of the given name holds.\<close>

definition py_open :: "'o os \<Rightarrow> (string \<Rightarrow> shared_message) \<Rightarrow> string \<Rightarrow> OperationMode \<Rightarrow> 'o \<Rightarrow>
    (PythonSharedMessage \<times> mapper \<times> shared_message) py_result \<times> 'o" where
  "py_open os contents nm mode st =
     (if nm = [] then (Py_value_error Name_empty, st)
      else if mode = CreateOnly then (Py_value_error Mode_cannot_be_create, st)
      else if nul_in nm then (Py_value_error Nul_in_name, st)
      else case mapper_open cast_from_void_ptr os nm st of
        (Inl e, st1) \<Rightarrow> (Py_os_error e, st1)
      | (Inr mp, st1) \<Rightarrow>
          (case PythonSharedMessage_new nm mode (contents nm) of
             (Py_ok handle, m2) \<Rightarrow> (Py_ok (handle, mp, m2), st1)
           | (Py_panic p, m2) \<Rightarrow> (Py_panic p, mapper_drop os mp st1)
           | _ \<Rightarrow> (Py_blocks, st1)))"

text \<open>The methods \<open>name\<close>, \<open>capacity\<close> and \<open>is_stopped\<close>.\<close>

definition py_name :: "PythonSharedMessage \<Rightarrow> string" where
  "py_name h = pm_name h"

definition py_capacity :: "shared_message \<Rightarrow> nat" where
  [simp]: "py_capacity m = capacity m"

definition py_is_stopped :: "shared_message \<Rightarrow> bool" where
  "py_is_stopped m = is_stopped m"

section \<open>Writing\<close>

definition write_sync :: "bytes \<Rightarrow> env \<Rightarrow> PythonSharedMessage \<Rightarrow> shared_message \<Rightarrow>
    u64 option py_result \<times> PythonSharedMessage \<times> shared_message \<times> env" where
  "write_sync d env h m =
     (case write_slice d env m of
        (Returns (Some q), m1, env1) \<Rightarrow> (Py_ok (Some q), h\<lparr>last_written_sequence := q\<rparr>, m1, env1)
      | (Returns None, m1, env1) \<Rightarrow> (Py_ok None, h, m1, env1)
      | (Panics p, m1, env1) \<Rightarrow> (Py_panic (Core_panic p), h, m1, env1)
      | (Blocks, m1, env1) \<Rightarrow> (Py_blocks, h, m1, env1))"

text \<open>The first call, and the first after \<open>stop\<close>, opens a channel and starts a writer thread.\<close>

definition write_async :: "bytes \<Rightarrow> PythonSharedMessage \<Rightarrow> unit py_result \<times> PythonSharedMessage" where
  "write_async d h =
     (let (i, h1) = (case pm_sender h of
            Some i \<Rightarrow> (i, h)
          | None \<Rightarrow> (length (pm_writers h),
                     h\<lparr>pm_sender := Some (length (pm_writers h)), pm_writers := pm_writers h @ [new_chan]\<rparr>))
      in case chan_send d (pm_writers h1 ! i) of
           None \<Rightarrow> (Py_value_error Queue_stopped, h1)
         | Some c \<Rightarrow> (Py_ok (), h1\<lparr>pm_writers := (pm_writers h1)[i := c]\<rparr>))"

definition py_write :: "bytes \<Rightarrow> env \<Rightarrow> PythonSharedMessage \<Rightarrow> shared_message \<Rightarrow>
    u64 option py_result \<times> PythonSharedMessage \<times> shared_message \<times> env" where
  "py_write d env h m =
     (case check_write_permission (pm_mode h) of
        Some p \<Rightarrow> (Py_panic p, h, m, env)
      | None \<Rightarrow>
          if length d > py_capacity m then (Py_value_error (Message_too_large (py_capacity m) (length d)), h, m, env)
          else if pm_mode h = WriteAsync then
            (case write_async d h of
               (Py_ok _, h1) \<Rightarrow> (Py_ok None, h1, m, env)
             | (_, h1) \<Rightarrow> (Py_value_error Queue_stopped, h1, m, env))
          else write_sync d env h m)"

definition close_receiver :: "'a chan \<Rightarrow> 'a chan" where
  "close_receiver c = c\<lparr>items := [], rx_alive := False\<rparr>"

text \<open>One iteration of the writer thread of channel \<open>i\<close>; \<open>None\<close> when it has ended or waits.\<close>

definition writer_thread_step :: "nat \<Rightarrow> env \<Rightarrow> PythonSharedMessage \<Rightarrow> shared_message \<Rightarrow>
    (PythonSharedMessage \<times> shared_message \<times> env) option" where
  "writer_thread_step i env h m =
     (if \<not> (i < length (pm_writers h) \<and> rx_alive (pm_writers h ! i)) then None
      else case chan_recv (pm_writers h ! i) of
        (Empty, c) \<Rightarrow> None
      | (Disconnected, c) \<Rightarrow> Some (h\<lparr>pm_writers := (pm_writers h)[i := close_receiver c]\<rparr>, m, env)
      | (Got d, c) \<Rightarrow>
          (case write_slice d env m of
             (Returns (Some q), m1, env1) \<Rightarrow>
               Some (h\<lparr>pm_writers := (pm_writers h)[i := c], last_written_sequence := q\<rparr>, m1, env1)
           | (Returns None, m1, env1) \<Rightarrow>
               Some (h\<lparr>pm_writers := (pm_writers h)[i := close_receiver c]\<rparr>, m1, env1)
           | (Panics p, m1, env1) \<Rightarrow>
               Some (h\<lparr>pm_writers := (pm_writers h)[i := close_receiver c]\<rparr>, m1, env1)
           | (Blocks, m1, env1) \<Rightarrow> None))"

definition py_write_guard :: "env \<Rightarrow> PythonSharedMessage \<Rightarrow> shared_message \<Rightarrow>
    PythonWriteGuard option py_result \<times> shared_message \<times> env" where
  "py_write_guard env h m =
     (case check_write_permission (pm_mode h) of
        Some p \<Rightarrow> (Py_panic p, m, env)
      | None \<Rightarrow>
          (case SharedMessage_write env m of
             (Returns True, m1, env1) \<Rightarrow> (Py_ok (Some PythonWriteGuard_new), m1, env1)
           | (Returns False, m1, env1) \<Rightarrow> (Py_ok None, m1, env1)
           | (Panics p, m1, env1) \<Rightarrow> (Py_panic (Core_panic p), m1, env1)
           | (Blocks, m1, env1) \<Rightarrow> (Py_blocks, m1, env1)))"

section \<open>Reading\<close>

text \<open>The payload is copied while the guard is held; the guard is released on return.\<close>

definition read_sync :: "bool \<Rightarrow> env \<Rightarrow> PythonSharedMessage \<Rightarrow> shared_message \<Rightarrow>
    RustPyBytes option py_result \<times> PythonSharedMessage \<times> shared_message \<times> env" where
  "read_sync block env h m =
     (case read (last_read_sequence h) block env m of
        (Returns None, m1, env1) \<Rightarrow> (Py_ok None, h, m1, env1)
      | (Returns (Some g), m1, env1) \<Rightarrow>
          (let h1 = h\<lparr>last_read_sequence := guard_sequence g\<rparr> in
           case read_guard_data g m1 of
             Inr d \<Rightarrow> (Py_ok (Some d), h1, release_active_reader m1, env1)
           | Inl p \<Rightarrow> (Py_panic (Core_panic p), h1, release_active_reader m1, env1))
      | (Panics p, m1, env1) \<Rightarrow> (Py_panic (Core_panic p), h, m1, env1)
      | (Blocks, m1, env1) \<Rightarrow> (Py_blocks, h, m1, env1))"

definition read_async :: "bool \<Rightarrow> PythonSharedMessage \<Rightarrow> RustPyBytes option py_result \<times> PythonSharedMessage" where
  "read_async block h =
     (case pm_receiver h of
        None \<Rightarrow> (Py_panic No_receiver, h)
      | Some rt \<Rightarrow>
          (case chan_recv (rt_chan rt) of
             (Got x, c) \<Rightarrow> (Py_ok (Some (rq_data x)),
                h\<lparr>pm_receiver := Some (rt\<lparr>rt_chan := c\<rparr>), last_read_sequence := rq_sequence x\<rparr>)
           | (Disconnected, c) \<Rightarrow> (Py_ok None, h)
           | (Empty, c) \<Rightarrow> (if block then Py_blocks else Py_ok None, h)))"

text \<open>The method \<open>read\<close> that the Rust code calls, without a check of the mode.\<close>

definition py_read :: "bool \<Rightarrow> env \<Rightarrow> PythonSharedMessage \<Rightarrow> shared_message \<Rightarrow>
    RustPyBytes option py_result \<times> PythonSharedMessage \<times> shared_message \<times> env" where
  "py_read block env h m =
     (if pm_mode h = ReadAsync then (case read_async block h of (r, h1) \<Rightarrow> (r, h1, m, env))
      else read_sync block env h m)"

text \<open>The method that Python calls.\<close>

definition read_py :: "bool \<Rightarrow> env \<Rightarrow> PythonSharedMessage \<Rightarrow> shared_message \<Rightarrow>
    RustPyBytes option py_result \<times> PythonSharedMessage \<times> shared_message \<times> env" where
  "read_py block env h m =
     (case check_read_permission (pm_mode h) of
        Some p \<Rightarrow> (Py_panic p, h, m, env)
      | None \<Rightarrow> py_read block env h m)"

definition py_read_guard :: "bool \<Rightarrow> env \<Rightarrow> PythonSharedMessage \<Rightarrow> shared_message \<Rightarrow>
    PythonReadGuard option py_result \<times> PythonSharedMessage \<times> shared_message \<times> env" where
  "py_read_guard block env h m =
     (case check_read_permission (pm_mode h) of
        Some p \<Rightarrow> (Py_panic p, h, m, env)
      | None \<Rightarrow>
          (case read (last_read_sequence h) block env m of
             (Returns None, m1, env1) \<Rightarrow> (Py_ok None, h, m1, env1)
           | (Returns (Some g), m1, env1) \<Rightarrow>
               (Py_ok (Some (PythonReadGuard_new g)), h\<lparr>last_read_sequence := guard_sequence g\<rparr>, m1, env1)
           | (Panics p, m1, env1) \<Rightarrow> (Py_panic (Core_panic p), h, m1, env1)
           | (Blocks, m1, env1) \<Rightarrow> (Py_blocks, h, m1, env1)))"

text \<open>One iteration of the reader thread; \<open>None\<close> when it has ended or waits.\<close>

definition reader_thread_step :: "env \<Rightarrow> PythonSharedMessage \<Rightarrow> shared_message \<Rightarrow>
    (PythonSharedMessage \<times> shared_message \<times> env) option" where
  "reader_thread_step env h m =
     (case pm_receiver h of
        None \<Rightarrow> None
      | Some rt \<Rightarrow>
          if \<not> tx_alive (rt_chan rt) then None
          else if is_stopped m then
            Some (h\<lparr>pm_receiver := Some (rt\<lparr>rt_chan := (rt_chan rt)\<lparr>tx_alive := False\<rparr>\<rparr>)\<rparr>, m, env)
          else (case read (rt_last rt) True env m of
             (Returns None, m1, env1) \<Rightarrow> Some (h, m1, env1)
           | (Returns (Some g), m1, env1) \<Rightarrow>
               (case read_guard_data g m1 of
                  Inr d \<Rightarrow>
                    (let m2 = release_active_reader m1;
                         queue_data = \<lparr>rq_sequence = guard_sequence g, rq_data = d\<rparr>
                     in case chan_send queue_data (rt_chan rt) of
                          Some c \<Rightarrow> Some (h\<lparr>pm_receiver := Some \<lparr>rt_chan = c, rt_last = guard_sequence g\<rparr>\<rparr>, m2, env1)
                        | None \<Rightarrow> Some (h\<lparr>pm_receiver := Some \<lparr>rt_chan = (rt_chan rt)\<lparr>tx_alive := False\<rparr>,
                                                               rt_last = guard_sequence g\<rparr>\<rparr>, m2, env1))
                | Inl p \<Rightarrow> Some (h\<lparr>pm_receiver := Some (rt\<lparr>rt_chan := (rt_chan rt)\<lparr>tx_alive := False\<rparr>\<rparr>)\<rparr>,
                                release_active_reader m1, env1))
           | (Panics p, m1, env1) \<Rightarrow>
               Some (h\<lparr>pm_receiver := Some (rt\<lparr>rt_chan := (rt_chan rt)\<lparr>tx_alive := False\<rparr>\<rparr>)\<rparr>, m1, env1)
           | (Blocks, m1, env1) \<Rightarrow> None))"

definition is_new_version_available :: "PythonSharedMessage \<Rightarrow> shared_message \<Rightarrow> bool py_result" where
  "is_new_version_available h m =
     (case check_read_permission (pm_mode h) of
        Some p \<Rightarrow> Py_panic p
      | None \<Rightarrow> Py_ok (has_new_data (last_read_sequence h) m))"

definition last_written_version :: "PythonSharedMessage \<Rightarrow> u64" where
  "last_written_version h = last_written_sequence h"

definition last_read_version :: "PythonSharedMessage \<Rightarrow> u64" where
  "last_read_version h = last_read_sequence h"

section \<open>Stopping and dropping\<close>

definition close_sender :: "PythonSharedMessage \<Rightarrow> PythonSharedMessage" where
  "close_sender h =
     (case pm_sender h of
        None \<Rightarrow> h
      | Some i \<Rightarrow> h\<lparr>pm_sender := None, pm_writers := (pm_writers h)[i := (pm_writers h ! i)\<lparr>tx_alive := False\<rparr>]\<rparr>)"

definition py_stop :: "PythonSharedMessage \<Rightarrow> shared_message \<Rightarrow> PythonSharedMessage \<times> shared_message" where
  "py_stop h m = (close_sender h, stop m)"

text \<open>\<open>Drop\<close>, and then the drop of the fields: the queue ends the object owns.\<close>

definition py_drop :: "PythonSharedMessage \<Rightarrow> shared_message \<Rightarrow> PythonSharedMessage py_result \<times> shared_message" where
  "py_drop h m =
     (let h1 = (close_sender h)\<lparr>pm_receiver :=
            map_option (\<lambda>rt. rt\<lparr>rt_chan := close_receiver (rt_chan rt)\<rparr>) (pm_receiver h)\<rparr>
      in if can_read (pm_mode h)
         then (case remove_reader m of
                 (Returns _, m1) \<Rightarrow> (Py_ok h1, m1)
               | (Panics p, m1) \<Rightarrow> (Py_panic (Core_panic p), m1)
               | (Blocks, m1) \<Rightarrow> (Py_blocks, m1))
         else (Py_ok h1, m))"

section \<open>read\_all and read\_all\_map\<close>

text \<open>
  The readers are independent, each with the memory it maps, and the results come in the order of the
  readers. A reader that panics makes the whole call panic, one that waits makes it wait.
\<close>

fun collect :: "'a py_result list \<Rightarrow> 'a list py_result" where
  "collect [] = Py_ok []"
| "collect (Py_ok x # rs) = (case collect rs of Py_ok xs \<Rightarrow> Py_ok (x # xs) | r \<Rightarrow> r)"
| "collect (Py_value_error e # rs) = Py_value_error e"
| "collect (Py_type_error # rs) = Py_type_error"
| "collect (Py_overflow_error # rs) = Py_overflow_error"
| "collect (Py_buffer_error # rs) = Py_buffer_error"
| "collect (Py_os_error e # rs) = Py_os_error e"
| "collect (Py_panic p # rs) = Py_panic p"
| "collect (Py_blocks # rs) = Py_blocks"

type_synonym reader = "PythonSharedMessage \<times> shared_message"

definition read_one :: "reader \<Rightarrow> RustPyBytes option py_result \<times> reader" where
  "read_one reader = (case py_read False [] (fst reader) (snd reader) of (r, h1, m1, _) \<Rightarrow> (r, h1, m1))"

definition read_all :: "reader list \<Rightarrow> RustPyBytes option list py_result \<times> reader list" where
  "read_all readers =
     (collect (map (\<lambda>r. fst (read_one r)) readers), map (\<lambda>r. snd (read_one r)) readers)"

text \<open>\<open>map_operation\<close> is a Python function; \<open>None\<close> stands for a call that raised, which is unwrapped.\<close>

fun map_bytes :: "(RustPyBytes \<Rightarrow> 'a option) \<Rightarrow> RustPyBytes option py_result \<Rightarrow> 'a option py_result" where
  "map_bytes f (Py_ok None) = Py_ok None"
| "map_bytes f (Py_ok (Some b)) = (case f b of None \<Rightarrow> Py_panic Callback_raised | Some x \<Rightarrow> Py_ok (Some x))"
| "map_bytes f (Py_value_error e) = Py_value_error e"
| "map_bytes f Py_type_error = Py_type_error"
| "map_bytes f Py_overflow_error = Py_overflow_error"
| "map_bytes f Py_buffer_error = Py_buffer_error"
| "map_bytes f (Py_os_error e) = Py_os_error e"
| "map_bytes f (Py_panic p) = Py_panic p"
| "map_bytes f Py_blocks = Py_blocks"

definition read_all_map :: "(RustPyBytes \<Rightarrow> 'a option) \<Rightarrow> reader list \<Rightarrow> 'a option list py_result \<times> reader list" where
  "read_all_map map_operation readers =
     (collect (map (\<lambda>r. map_bytes map_operation (fst (read_one r))) readers),
      map (\<lambda>r. snd (read_one r)) readers)"

section \<open>The module\<close>

text \<open>The names that the module exports: its classes and its functions.\<close>

definition rs_ipc :: "string list" where
  "rs_ipc = [''OperationMode'', ''ReaderWaitPolicy'', ''RustPyBytes'', ''SharedMessage'', ''read_all'', ''read_all_map'']"

end
