(* ===== verification/Python_Behaviour.thy ===== *)
theory Python_Behaviour
  imports Python_Message
begin

text \<open>
  The properties of the Python message object: checks and errors of every method, the synchronous round
  trip, the two background threads, stopping, registration of readers, and the batch functions.
\<close>

section \<open>Reading\<close>

lemma read_sync_available:
  assumes "quiescent m" "last_read_sequence h \<noteq> current_sequence m"
    and "\<not> writing_in_progress (get_sequence_state m)"
  shows "read_sync block [] h m =
    (Py_ok (Some (ch_payload (abs_channel m))), h\<lparr>last_read_sequence := current_sequence m\<rparr>, consume m, [])"
proof -
  let ?m1 = "snd (update_reader_state Register_reader m)"
  have "quiescent ?m1" using assms(1) by (rule update_reader_state_keeps)
  then have "data_ref ?m1 = Inr (ch_payload (abs_channel ?m1))" by (simp add: quiescent_def data_ref_wf)
  moreover have "ch_payload (abs_channel ?m1) = ch_payload (abs_channel m)"
    by (simp add: update_reader_state_eq abs_channel_readers)
  ultimately show ?thesis
    using assms(2,3) by (simp add: read_sync_def read_alone consume_def current_sequence_def)
qed

lemma read_sync_seen:
  "last_read_sequence h = current_sequence m \<Longrightarrow> read_sync False [] h m = (Py_ok None, h, m, [])"
  by (simp add: read_sync_def read_alone current_sequence_def)

section \<open>The writer thread\<close>

text \<open>A message whose writers wait for nobody.\<close>

definition fire_and_forget :: "shared_message \<Rightarrow> bool" where
  "fire_and_forget m \<longleftrightarrow> quiescent m \<and> \<not> is_stopped m \<and> target_read (get_reader_state m) = 0 \<and>
     active_readers (get_reader_state m) = 0"

lemma fire_and_forget_write:
  assumes "fire_and_forget m" "length d \<le> capacity m"
  obtains m1 where "write_slice d [] m = (Returns (Some (next_sequence (current_sequence m))), m1, [])"
    "fire_and_forget m1" "capacity m1 = capacity m" "data_ref m1 = Inr d"
    "current_sequence m1 = next_sequence (current_sequence m)"
proof -
  have "\<not> unread m" using assms(1)
    by (auto simp: fire_and_forget_def unread_iff get_target_consumed_def min_def word_less_nat_alt)
  with assms have "quiescent m" "writable d m" by (simp_all add: fire_and_forget_def writable_def)
  then obtain m1 where w: "write_slice d [] m = (Returns (Some (next_sequence (current_sequence m))), m1, [])"
    "quiescent m1"
    and abs1: "abs_channel m1 = (abs_channel m)\<lparr>ch_sequence := next_sequence (current_sequence m), ch_writing := False,
       ch_payload := d, ch_readers := (get_reader_state m)\<lparr>data_consumed := 0\<rparr>\<rparr>"
    by (rule write_slice_writable)
  note m1 = abs_eqD [OF abs1]
  have "data_ref m1 = Inr d" using w(2) abs1 by (simp add: quiescent_def data_ref_wf)
  with w m1 assms(1) that show ?thesis
    by (simp add: fire_and_forget_def capacity_def abs_channel_sel)
qed

fun writer_run :: "nat \<Rightarrow> nat \<Rightarrow> PythonSharedMessage \<Rightarrow> shared_message \<Rightarrow> (PythonSharedMessage \<times> shared_message) option" where
  "writer_run 0 i h m = Some (h, m)"
| "writer_run (Suc n) i h m =
     (case writer_thread_step i [] h m of None \<Rightarrow> None | Some (h1, m1, _) \<Rightarrow> writer_run n i h1 m1)"

lemma writer_thread_writes:
  assumes "i < length (pm_writers h)" "rx_alive (pm_writers h ! i)" "items (pm_writers h ! i) = d # ds"
    and "fire_and_forget m" "length d \<le> capacity m"
  obtains m1 where "writer_thread_step i [] h m =
      Some (h\<lparr>pm_writers := (pm_writers h)[i := (pm_writers h ! i)\<lparr>items := ds\<rparr>],
              last_written_sequence := next_sequence (current_sequence m)\<rparr>, m1, [])"
    "fire_and_forget m1" "capacity m1 = capacity m" "data_ref m1 = Inr d"
    "current_sequence m1 = next_sequence (current_sequence m)"
proof -
  obtain m1 where "write_slice d [] m = (Returns (Some (next_sequence (current_sequence m))), m1, [])"
    "fire_and_forget m1" "capacity m1 = capacity m" "data_ref m1 = Inr d"
    "current_sequence m1 = next_sequence (current_sequence m)"
    using fire_and_forget_write [OF assms(4,5)] by blast
  with assms(1-3) that show ?thesis by (simp add: writer_thread_step_def chan_recv_def)
qed

lemma writer_run_prefix:
  assumes "i < length (pm_writers h)" "rx_alive (pm_writers h ! i)" "items (pm_writers h ! i) = ds"
    and "fire_and_forget m" "\<forall>d \<in> set ds. length d \<le> capacity m" "k < length ds"
  shows "\<exists>h' m'. writer_run (Suc k) i h m = Some (h', m') \<and> items (pm_writers h' ! i) = drop (Suc k) ds \<and>
    current_sequence m' = (next_sequence ^^ Suc k) (current_sequence m) \<and>
    data_ref m' = Inr (ds ! k) \<and> last_written_sequence h' = current_sequence m'"
  using assms
proof (induction k arbitrary: ds h m)
  case (0 ds h m)
  then obtain d ds' where ds: "ds = d # ds'" by (cases ds) auto
  from 0(5) ds have "length d \<le> capacity m" by simp
  from writer_thread_writes [OF 0(1,2) 0(3) [unfolded ds] 0(4) this] obtain m1 where
    "writer_thread_step i [] h m =
      Some (h\<lparr>pm_writers := (pm_writers h)[i := (pm_writers h ! i)\<lparr>items := ds'\<rparr>],
              last_written_sequence := next_sequence (current_sequence m)\<rparr>, m1, [])"
    "data_ref m1 = Inr d" "current_sequence m1 = next_sequence (current_sequence m)"
    by blast
  with 0(1) ds show ?case by simp
next
  case (Suc k ds h m)
  then obtain d ds' where ds: "ds = d # ds'" by (cases ds) auto
  obtain m1 where step: "writer_thread_step i [] h m =
      Some (h\<lparr>pm_writers := (pm_writers h)[i := (pm_writers h ! i)\<lparr>items := ds'\<rparr>],
              last_written_sequence := next_sequence (current_sequence m)\<rparr>, m1, [])" (is "_ = Some (?h1, m1, [])")
    and m1: "fire_and_forget m1" "capacity m1 = capacity m" "data_ref m1 = Inr d"
      "current_sequence m1 = next_sequence (current_sequence m)"
    using writer_thread_writes [OF Suc.prems(1-3) [unfolded ds] Suc.prems(4)] Suc.prems(5) ds by auto
  have "i < length (pm_writers ?h1)" "rx_alive (pm_writers ?h1 ! i)" "items (pm_writers ?h1 ! i) = ds'"
    using Suc.prems(1,2) by simp_all
  from Suc.IH [OF this m1(1)] Suc.prems(5,6) m1(2) ds obtain h' m' where
    rest: "writer_run (Suc k) i ?h1 m1 = Some (h', m')" "items (pm_writers h' ! i) = drop (Suc k) ds'"
      "current_sequence m' = (next_sequence ^^ Suc k) (current_sequence m1)"
      "data_ref m' = Inr (ds' ! k)" "last_written_sequence h' = current_sequence m'"
    by auto
  have "(next_sequence ^^ Suc k) (next_sequence (current_sequence m)) =
      (next_sequence ^^ Suc (Suc k)) (current_sequence m)"
    by (simp only: funpow_Suc_right o_def)
  with rest step m1(4) ds show ?case by (simp only: writer_run.simps) auto
qed

text \<open>Calls of \<open>write_async\<close> one after the other.\<close>

fun write_asyncs :: "bytes list \<Rightarrow> PythonSharedMessage \<Rightarrow> unit py_result list \<times> PythonSharedMessage" where
  "write_asyncs [] h = ([], h)"
| "write_asyncs (d # ds) h =
     (case write_async d h of (r, h1) \<Rightarrow> (case write_asyncs ds h1 of (rs, h2) \<Rightarrow> (r # rs, h2)))"

lemma write_asyncs_open:
  assumes "pm_sender h = Some i" "i < length (pm_writers h)" "rx_alive (pm_writers h ! i)"
  shows "write_asyncs ds h = (map (\<lambda>_. Py_ok ()) ds,
    h\<lparr>pm_writers := (pm_writers h)[i := (pm_writers h ! i)\<lparr>items := items (pm_writers h ! i) @ ds\<rparr>]\<rparr>)"
  using assms
proof (induction ds arbitrary: h)
  case (Cons d ds)
  let ?c = "(pm_writers h ! i)\<lparr>items := items (pm_writers h ! i) @ [d]\<rparr>"
  let ?h1 = "h\<lparr>pm_writers := (pm_writers h)[i := ?c]\<rparr>"
  have "write_async d h = (Py_ok (), ?h1)"
    using Cons.prems by (simp add: write_async_def chan_send_def)
  with Cons.IH [of ?h1] Cons.prems show ?case by simp
qed simp

lemma write_asyncs_fresh:
  assumes "pm_sender h = None" "ds \<noteq> []"
  shows "write_asyncs ds h = (map (\<lambda>_. Py_ok ()) ds,
    h\<lparr>pm_sender := Some (length (pm_writers h)), pm_writers := pm_writers h @ [new_chan\<lparr>items := ds\<rparr>]\<rparr>)"
proof -
  obtain d ds' where ds: "ds = d # ds'" using assms(2) by (cases ds) auto
  let ?h1 = "h\<lparr>pm_sender := Some (length (pm_writers h)), pm_writers := pm_writers h @ [new_chan\<lparr>items := [d]\<rparr>]\<rparr>"
  have "write_async d h = (Py_ok (), ?h1)"
    using assms(1) by (simp add: write_async_def chan_send_def new_chan_def)
  moreover have "write_asyncs ds' ?h1 = (map (\<lambda>_. Py_ok ()) ds',
      h\<lparr>pm_sender := Some (length (pm_writers h)), pm_writers := pm_writers h @ [new_chan\<lparr>items := d # ds'\<rparr>]\<rparr>)"
    using write_asyncs_open [of ?h1 "length (pm_writers h)" ds'] by (simp add: new_chan_def)
  ultimately show ?thesis using ds by simp
qed

section \<open>Properties\<close>

text \<open>
  The synchronous round trip of the Python interface. \<open>write\<close> on a writing handle returns the next
  sequence number and remembers it; \<open>read\<close> on a reading handle that has not seen it returns exactly the
  bytes written, remembers the number, and leaves no reader active and one consumption counted; a
  second non-blocking \<open>read\<close> returns \<open>None\<close> and changes nothing.
\<close>

theorem python_write_then_read:
  assumes "quiescent m" "writable d m" "pm_mode hw = WriteSync" "pm_mode hr = ReadSync"
    and "last_read_sequence hr \<noteq> next_sequence (current_sequence m)"
  shows "\<exists>q m1 m2. q = next_sequence (current_sequence m) \<and>
    py_write d [] hw m = (Py_ok (Some q), hw\<lparr>last_written_sequence := q\<rparr>, m1, []) \<and>
    read_py block [] hr m1 = (Py_ok (Some d), hr\<lparr>last_read_sequence := q\<rparr>, m2, []) \<and>
    active_readers (get_reader_state m2) = 0 \<and> data_consumed (get_reader_state m2) = 1 \<and>
    read_py False [] (hr\<lparr>last_read_sequence := q\<rparr>) m2 = (Py_ok None, hr\<lparr>last_read_sequence := q\<rparr>, m2, [])"
proof -
  let ?q = "next_sequence (current_sequence m)"
  obtain m1 where w: "write_slice d [] m = (Returns (Some ?q), m1, [])" "quiescent m1"
    and abs1: "abs_channel m1 = (abs_channel m)\<lparr>ch_sequence := ?q, ch_writing := False,
       ch_payload := d, ch_readers := (get_reader_state m)\<lparr>data_consumed := 0\<rparr>\<rparr>"
    using write_slice_writable [OF assms(1,2)] by blast
  note m1 = abs_eqD [OF abs1]
  have wr: "py_write d [] hw m = (Py_ok (Some ?q), hw\<lparr>last_written_sequence := ?q\<rparr>, m1, [])"
    using w(1) assms(2,3) by (simp add: py_write_def write_sync_def check_write_permission_def writable_def)
  have "read_py block [] hr m1 = (Py_ok (Some d), hr\<lparr>last_read_sequence := ?q\<rparr>, consume m1, [])"
    using read_sync_available [OF w(2), of hr block] assms(4,5) m1 abs1
    by (simp add: read_py_def py_read_def check_read_permission_def)
  moreover note m2 = abs_eqD [OF consume_effect(1) [of m1]]
  have "active_readers (get_reader_state (consume m1)) = 0" "data_consumed (get_reader_state (consume m1)) = 1"
    using m2(4) m1(4) assms(2) by (simp_all add: writable_def)
  moreover have "read_py False [] (hr\<lparr>last_read_sequence := ?q\<rparr>) (consume m1) =
      (Py_ok None, hr\<lparr>last_read_sequence := ?q\<rparr>, consume m1, [])"
    using read_sync_seen [of "hr\<lparr>last_read_sequence := ?q\<rparr>" "consume m1"] m2(1) m1(1) abs1 assms(4)
    by (simp add: read_py_def py_read_def check_read_permission_def)
  ultimately show ?thesis using wr by blast
qed

definition sample_handle :: "OperationMode \<Rightarrow> PythonSharedMessage" where
  "sample_handle mode =
     \<lparr>pm_name = ''msg'', pm_mode = mode, last_written_sequence = 0, last_read_sequence = 0, pm_sender = None,
      pm_writers = [], pm_receiver = (if mode = ReadAsync then Some \<lparr>rt_chan = new_chan, rt_last = 0\<rparr> else None)\<rparr>"

lemma fresh_fire_and_forget: "fire_and_forget (fresh_message 8)"
  by (simp add: fire_and_forget_def fresh_message_quiescent fresh_message_state is_stopped_def)

lemma fresh_current: "current_sequence (fresh_message n) = 0"
  by (simp add: current_sequence_def fresh_message_state)

theorem python_write_then_read_witness:
  "\<exists>m1 m2. py_write [7, 9] [] (sample_handle WriteSync) (fresh_message 8) =
      (Py_ok (Some 1), (sample_handle WriteSync)\<lparr>last_written_sequence := 1\<rparr>, m1, []) \<and>
    read_py True [] (sample_handle ReadSync) m1 =
      (Py_ok (Some [7, 9]), (sample_handle ReadSync)\<lparr>last_read_sequence := 1\<rparr>, m2, [])"
proof -
  have "quiescent (fresh_message 8)" "writable [7, 9] (fresh_message 8)"
    by (simp_all add: fresh_message_quiescent fresh_message_writable)
  from python_write_then_read [OF this, of "sample_handle WriteSync" "sample_handle ReadSync" True]
  show ?thesis by (auto simp: sample_handle_def fresh_current next_sequence_0)
qed

text \<open>
  The checks of \<open>write\<close>. A handle that is not a writer panics, a message larger than the capacity
  raises \<open>ValueError\<close>, both before anything is changed; and no other call of \<open>write\<close> on an undisturbed
  message panics, because the size was checked before \<open>write_slice\<close> sees it.
\<close>

theorem python_write_checks:
  "if \<not> can_write (pm_mode h) then py_write d env h m = (Py_panic Opened_read_only, h, m, env)
   else if length d > capacity m
   then py_write d env h m = (Py_value_error (Message_too_large (capacity m) (length d)), h, m, env)
   else fst (py_write d [] h m) \<notin> range Py_panic"
proof -
  have "fst (write_sync d [] h m) \<notin> range Py_panic" if "length d \<le> capacity m"
    using that
    by (auto simp: write_sync_def write_slice_def start_write_alone publish_write_eq capacity_def Let_def
        split: if_splits)
  then show ?thesis
    by (auto simp: py_write_def check_write_permission_def split: prod.splits py_result.splits)
qed

text \<open>
  C29: Asynchronous writes arrive one by one, in the order of the calls. Queueing any messages with
  \<open>write_async\<close> on a handle without a writer thread succeeds. Where nobody has to be waited for (the target
  is 0, the message is not stopped, no reader is active and the mutex is free) and the thread is not
  interfered with, each of its iterations publishes the next message of the list: after the iteration
  for message \<open>k\<close> the memory shows exactly that message under the number \<open>k + 1\<close> places after the old
  one, which is also in \<open>last_written_version\<close>, and the queue holds the messages after it.
\<close>

theorem async_writes_arrive_in_order:
  assumes "pm_sender h = None" "ds \<noteq> []" "fire_and_forget m" "\<forall>d \<in> set ds. length d \<le> capacity m"
  shows "\<exists>h1. write_asyncs ds h = (map (\<lambda>_. Py_ok ()) ds, h1) \<and>
    (\<forall>k < length ds. \<exists>h2 m2. writer_run (Suc k) (length (pm_writers h)) h1 m = Some (h2, m2) \<and>
       items (pm_writers h2 ! length (pm_writers h)) = drop (Suc k) ds \<and>
       current_sequence m2 = (next_sequence ^^ Suc k) (current_sequence m) \<and>
       data_ref m2 = Inr (ds ! k) \<and> last_written_version h2 = current_sequence m2)"
proof -
  let ?i = "length (pm_writers h)"
  let ?h1 = "h\<lparr>pm_sender := Some ?i, pm_writers := pm_writers h @ [new_chan\<lparr>items := ds\<rparr>]\<rparr>"
  have "?i < length (pm_writers ?h1)" "rx_alive (pm_writers ?h1 ! ?i)" "items (pm_writers ?h1 ! ?i) = ds"
    by (simp_all add: new_chan_def)
  from writer_run_prefix [OF this assms(3,4)] show ?thesis
    unfolding last_written_version_def by (intro exI [of _ ?h1]) (simp add: write_asyncs_fresh [OF assms(1,2)])
qed

theorem async_writes_arrive_in_order_witness:
  "\<exists>h1. write_asyncs [[1], [2], [3]] (sample_handle WriteAsync) = ([Py_ok (), Py_ok (), Py_ok ()], h1) \<and>
     (\<exists>h2 m2. writer_run 2 0 h1 (fresh_message 8) = Some (h2, m2) \<and> data_ref m2 = Inr [2] \<and>
       items (pm_writers h2 ! 0) = [[3]])"
proof -
  let ?ds = "[[1], [2], [3]] :: bytes list"
  have "\<forall>d \<in> set ?ds. length d \<le> capacity (fresh_message 8)" by (simp add: capacity_def fresh_message_def)
  moreover have h: "pm_sender (sample_handle WriteAsync) = None" "?ds \<noteq> []"
    "length (pm_writers (sample_handle WriteAsync)) = 0"
    by (simp_all add: sample_handle_def)
  ultimately obtain h1 where h1: "write_asyncs ?ds (sample_handle WriteAsync) = (map (\<lambda>_. Py_ok ()) ?ds, h1)"
    and run: "\<forall>k < length ?ds. \<exists>h2 m2. writer_run (Suc k) 0 h1 (fresh_message 8) = Some (h2, m2) \<and>
       items (pm_writers h2 ! 0) = drop (Suc k) ?ds \<and>
       current_sequence m2 = (next_sequence ^^ Suc k) (current_sequence (fresh_message 8)) \<and>
       data_ref m2 = Inr (?ds ! k) \<and> last_written_version h2 = current_sequence m2"
    using async_writes_arrive_in_order [OF h(1,2) fresh_fire_and_forget] unfolding h(3) by blast
  from run [rule_format, of 1] have "\<exists>h2 m2. writer_run 2 0 h1 (fresh_message 8) = Some (h2, m2) \<and>
      data_ref m2 = Inr [2] \<and> items (pm_writers h2 ! 0) = [[3]]"
    by (auto simp: numeral_2_eq_2)
  with h1 show ?thesis by simp
qed

lemma write_slice_stopped: "is_stopped m \<Longrightarrow> write_slice d env m = (Returns None, m, env)"
  by (simp add: write_slice_def start_write_def)

lemma is_stopped_stop: "is_stopped (stop m)"
  using stop_refines [of m] abs_channel_sel(1) [of "stop m"] by simp

lemma write_async_when_stopped:
  assumes "pm_mode h = WriteAsync" "pm_sender h = None" "is_stopped m" "length d \<le> capacity m"
  obtains h1 h2 where "py_write d [] h m = (Py_ok None, h1, m, [])"
    "writer_thread_step (length (pm_writers h)) [] h1 m = Some (h2, m, [])"
    "last_written_sequence h2 = last_written_sequence h"
    "fst (py_write d [] h2 m) = Py_value_error Queue_stopped"
proof
  let ?n = "length (pm_writers h)"
  let ?h1 = "h\<lparr>pm_sender := Some ?n, pm_writers := pm_writers h @ [new_chan\<lparr>items := [d]\<rparr>]\<rparr>"
  let ?h2 = "h\<lparr>pm_sender := Some ?n, pm_writers := pm_writers h @ [close_receiver new_chan]\<rparr>"
  show "py_write d [] h m = (Py_ok None, ?h1, m, [])"
    using assms by (simp add: py_write_def check_write_permission_def write_async_def chan_send_def new_chan_def)
  show "writer_thread_step ?n [] ?h1 m = Some (?h2, m, [])"
    using write_slice_stopped [OF assms(3)]
    by (simp add: writer_thread_step_def chan_recv_def new_chan_def close_receiver_def)
  show "last_written_sequence ?h2 = last_written_sequence h" by simp
  show "fst (py_write d [] ?h2 m) = Py_value_error Queue_stopped"
    using assms by (simp add: py_write_def check_write_permission_def write_async_def chan_send_def close_receiver_def)
qed

text \<open>
  C30: What \<open>stop\<close> does to the asynchronous writer. Messages still queued are discarded: the thread ends at
  the first of them without touching the memory. A later \<open>write\<close> reports success, because it opens a
  new queue; the thread of that queue ends without writing, and only the write after that raises.
\<close>

theorem stop_and_the_writer_queue:
  assumes "pm_mode h = WriteAsync" "pm_sender h = Some i" "i < length (pm_writers h)"
    and "rx_alive (pm_writers h ! i)" "items (pm_writers h ! i) = d # ds" "length d' \<le> capacity m"
  shows "\<exists>h1 h2 h3 h4. py_stop h m = (h1, stop m) \<and>
    writer_thread_step i [] h1 (stop m) = Some (h2, stop m, []) \<and> \<not> rx_alive (pm_writers h2 ! i) \<and>
    py_write d' [] h2 (stop m) = (Py_ok None, h3, stop m, []) \<and>
    writer_thread_step (length (pm_writers h)) [] h3 (stop m) = Some (h4, stop m, []) \<and>
    last_written_version h4 = last_written_version h \<and>
    fst (py_write d' [] h4 (stop m)) = Py_value_error Queue_stopped"
proof -
  let ?c = "(pm_writers h ! i)\<lparr>tx_alive := False\<rparr>"
  let ?h1 = "h\<lparr>pm_sender := None, pm_writers := (pm_writers h)[i := ?c]\<rparr>"
  let ?h2 = "h\<lparr>pm_sender := None, pm_writers := (pm_writers h)[i := close_receiver (?c\<lparr>items := ds\<rparr>)]\<rparr>"
  have cap: "capacity (stop m) = capacity m"
    by (simp add: capacity_def stop_def notify_reader_done_condvar_def notify_writer_condvar_def)
  have "py_stop h m = (?h1, stop m)" using assms(2) by (simp add: py_stop_def close_sender_def)
  moreover have "writer_thread_step i [] ?h1 (stop m) = Some (?h2, stop m, [])"
    using assms(3-5) write_slice_stopped [OF is_stopped_stop]
    by (simp add: writer_thread_step_def chan_recv_def)
  moreover have "\<not> rx_alive (pm_writers ?h2 ! i)" using assms(3) by (simp add: close_receiver_def)
  moreover obtain h3 h4 where "py_write d' [] ?h2 (stop m) = (Py_ok None, h3, stop m, [])"
    "writer_thread_step (length (pm_writers h)) [] h3 (stop m) = Some (h4, stop m, [])"
    "last_written_version h4 = last_written_version h"
    "fst (py_write d' [] h4 (stop m)) = Py_value_error Queue_stopped"
    using write_async_when_stopped [of ?h2 "stop m" d'] assms(1,6) cap is_stopped_stop
    by (auto simp: last_written_version_def)
  ultimately show ?thesis by blast
qed

definition queued_handle :: PythonSharedMessage where
  "queued_handle = snd (write_asyncs [[1], [2]] (sample_handle WriteAsync))"

lemma queued_handle_eq:
  "queued_handle = (sample_handle WriteAsync)\<lparr>pm_sender := Some 0, pm_writers := [new_chan\<lparr>items := [[1], [2]]\<rparr>]\<rparr>"
  using write_asyncs_fresh [of "sample_handle WriteAsync" "[[1], [2]]"]
  by (simp add: queued_handle_def sample_handle_def)

theorem stop_and_the_writer_queue_witness:
  "\<exists>h1 h2 h3. py_stop queued_handle (fresh_message 8) = (h1, stop (fresh_message 8)) \<and>
     writer_thread_step 0 [] h1 (stop (fresh_message 8)) = Some (h2, stop (fresh_message 8), []) \<and>
     py_write [3] [] h2 (stop (fresh_message 8)) = (Py_ok None, h3, stop (fresh_message 8), [])"
proof -
  have "length [3 :: u8] \<le> capacity (fresh_message 8)" by (simp add: capacity_def fresh_message_def)
  from stop_and_the_writer_queue [of queued_handle 0 "[1]" "[[2]]" "[3]" "fresh_message 8", OF _ _ _ _ _ this]
  show ?thesis by (simp add: queued_handle_eq sample_handle_def new_chan_def) blast
qed

lemma reader_thread_reads:
  assumes "pm_receiver h = Some rt" "tx_alive (rt_chan rt)" "rx_alive (rt_chan rt)" "\<not> is_stopped m"
    and "quiescent m" "\<not> writing_in_progress (get_sequence_state m)" "rt_last rt \<noteq> current_sequence m"
  shows "reader_thread_step [] h m =
    Some (h\<lparr>pm_receiver := Some \<lparr>rt_chan = (rt_chan rt)\<lparr>items := items (rt_chan rt) @
              [\<lparr>rq_sequence = current_sequence m, rq_data = ch_payload (abs_channel m)\<rparr>]\<rparr>,
            rt_last = current_sequence m\<rparr>\<rparr>, consume m, [])"
proof -
  let ?m1 = "snd (update_reader_state Register_reader m)"
  have "quiescent ?m1" using assms(5) by (rule update_reader_state_keeps)
  then have "data_ref ?m1 = Inr (ch_payload (abs_channel m))"
    by (simp add: quiescent_def data_ref_wf) (simp add: update_reader_state_eq abs_channel_readers)
  with assms show ?thesis
    by (simp add: reader_thread_step_def read_alone chan_send_def consume_def current_sequence_def Let_def)
qed

lemma reader_thread_waits:
  assumes "pm_receiver h = Some rt" "\<not> is_stopped m" "rt_last rt = current_sequence m"
  shows "reader_thread_step [] h m = None"
  using assms
  by (simp add: reader_thread_step_def read_alone current_sequence_def is_stopped_def)

text \<open>
  The background reader delivers each message once. When a message is available that the thread of a
  \<open>ReadAsync\<close> handle has not seen, its next iteration queues exactly this message with its number and
  counts one consumption; without another message it then waits; \<open>read\<close> returns the payload, records
  the number, and finds the queue empty after that.
\<close>

theorem background_reader_delivers_once:
  assumes "pm_mode h = ReadAsync" "pm_receiver h = Some rt" "tx_alive (rt_chan rt)" "rx_alive (rt_chan rt)"
    and "items (rt_chan rt) = []" "quiescent m" "\<not> is_stopped m"
    and "\<not> writing_in_progress (get_sequence_state m)" "rt_last rt \<noteq> current_sequence m"
  shows "\<exists>h1 m1 h2. reader_thread_step [] h m = Some (h1, m1, []) \<and>
    data_consumed (get_reader_state m1) = data_consumed (get_reader_state m) + 1 \<and>
    active_readers (get_reader_state m1) = active_readers (get_reader_state m) \<and>
    reader_thread_step [] h1 m1 = None \<and>
    read_py block [] h1 m1 = (Py_ok (Some (ch_payload (abs_channel m))), h2, m1, []) \<and>
    last_read_version h2 = current_sequence m \<and> read_py False [] h2 m1 = (Py_ok None, h2, m1, [])"
proof -
  let ?x = "\<lparr>rq_sequence = current_sequence m, rq_data = ch_payload (abs_channel m)\<rparr>"
  let ?rt = "\<lparr>rt_chan = (rt_chan rt)\<lparr>items := [?x]\<rparr>, rt_last = current_sequence m\<rparr>"
  let ?h1 = "h\<lparr>pm_receiver := Some ?rt\<rparr>"
  let ?h2 = "h\<lparr>pm_receiver := Some (?rt\<lparr>rt_chan := (rt_chan rt)\<lparr>items := []\<rparr>\<rparr>), last_read_sequence := current_sequence m\<rparr>"
  note m1 = abs_eqD [OF consume_effect(1) [of m]]
  have "reader_thread_step [] h m = Some (?h1, consume m, [])"
    using reader_thread_reads [OF assms(2-4,7,6,8,9)] assms(5) by simp
  moreover have "reader_thread_step [] ?h1 (consume m) = None"
    using reader_thread_waits [of ?h1 ?rt "consume m"] m1 assms(7)
    by (simp add: abs_channel_sel current_sequence_def)
  moreover have "read_py block [] ?h1 (consume m) = (Py_ok (Some (ch_payload (abs_channel m))), ?h2, consume m, [])"
    using assms(1) by (simp add: read_py_def py_read_def check_read_permission_def read_async_def chan_recv_def)
  moreover have "read_py False [] ?h2 (consume m) = (Py_ok None, ?h2, consume m, [])"
    using assms(1,3) by (simp add: read_py_def py_read_def check_read_permission_def read_async_def chan_recv_def)
  ultimately show ?thesis using m1(4) by (auto simp: last_read_version_def)
qed

lemma sample_message_state_facts:
  "\<not> is_stopped sample_message" "current_sequence sample_message = 1"
  "\<not> writing_in_progress (get_sequence_state sample_message)" "ch_payload (abs_channel sample_message) = [1, 2]"
  using abs_eqD [OF sample_message_facts(2)] sample_message_facts(2) by simp_all

theorem background_reader_delivers_once_witness:
  "\<exists>h1 m1 h2. reader_thread_step [] (sample_handle ReadAsync) sample_message = Some (h1, m1, []) \<and>
     read_py True [] h1 m1 = (Py_ok (Some [1, 2]), h2, m1, []) \<and> last_read_version h2 = 1"
  using background_reader_delivers_once [of "sample_handle ReadAsync" "\<lparr>rt_chan = new_chan, rt_last = 0\<rparr>"
      sample_message True] sample_message_facts(1) sample_message_state_facts
  by (simp add: sample_handle_def new_chan_def) blast

text \<open>
  Registration is balanced. A new reading handle registers one consumer, also when the memory was
  left by others, unless 65535 are registered, in which case the constructor panics; dropping the handle
  restores the memory. Writing handles and \<open>CreateOnly\<close> handles touch nothing.
\<close>

theorem reader_handles_balance:
  "case PythonSharedMessage_new nm mode m of
     (Py_ok h, m1) \<Rightarrow> pm_mode h = mode \<and> snd (py_drop h m1) = m \<and>
       consumers (get_reader_state m1) = consumers (get_reader_state m) + (if can_read mode then 1 else 0) \<and>
       (\<exists>h'. fst (py_drop h m1) = Py_ok h')
   | (r, m1) \<Rightarrow> r = Py_panic (Core_panic Too_many_readers) \<and> m1 = m \<and> can_read mode \<and>
       consumers (get_reader_state m) = 65535"
proof (cases "can_read mode \<and> consumers (get_reader_state m) \<noteq> 65535")
  case False
  then show ?thesis
    by (auto simp: PythonSharedMessage_new_def py_drop_def add_reader_def reader_registration_def
        update_reader_state_eq Let_def)
next
  case True
  let ?r = "get_reader_state m"
  let ?m1 = "m\<lparr>readers_state := ReadersStateCount_to_packed (?r\<lparr>consumers := consumers ?r + 1\<rparr>)\<rparr>"
  have add: "add_reader m = (Returns (), ?m1)"
    using True by (simp add: add_reader_def reader_registration_def update_reader_state_eq)
  have r1: "get_reader_state ?m1 = ?r\<lparr>consumers := consumers ?r + 1\<rparr>"
    by (simp add: get_reader_state_def packed_simps)
  have nz: "consumers ?r + 1 \<noteq> 0"
  proof
    assume "consumers ?r + 1 = 0"
    then have "consumers ?r = - 1" by (simp add: eq_neg_iff_add_eq_0)
    with True show False by simp
  qed
  have "remove_reader ?m1 = (Returns (), m\<lparr>readers_state := ReadersStateCount_to_packed ?r\<rparr>)"
    using nz by (simp add: remove_reader_def reader_registration_def update_reader_state_eq r1)
  moreover have "m\<lparr>readers_state := ReadersStateCount_to_packed ?r\<rparr> = m"
    by (simp add: get_reader_state_def packed_simps)
  ultimately show ?thesis
    using True add r1 by (simp add: PythonSharedMessage_new_def py_drop_def Let_def)
qed

text \<open>
  A non-blocking \<open>read\<close> can block. When a new message is announced while a write is in progress, \<open>read\<close>
  and \<open>read_guard\<close> wait for the writer although the caller asked not to.
\<close>

theorem nonblocking_read_can_block:
  assumes "pm_mode h = ReadSync" "has_new_data (last_read_sequence h) m"
    and "writing_in_progress (get_sequence_state m)"
  shows "fst (read_py False [] h m) = Py_blocks \<and> fst (py_read_guard False [] h m) = Py_blocks"
  using assms
  by (simp add: read_py_def py_read_def py_read_guard_def check_read_permission_def read_sync_def read_alone
      has_new_data_def)

theorem nonblocking_read_can_block_witness:
  "fst (read_py False [] (sample_handle ReadSync)
     (sample_message\<lparr>sequence_and_flags := sequence_and_flags sample_message OR WRITING_IN_PROGRESS_MASK\<rparr>)) = Py_blocks"
  (is "fst (read_py False [] _ ?m) = _")
proof -
  have st: "get_sequence_state ?m = (get_sequence_state sample_message)\<lparr>writing_in_progress := True\<rparr>"
    by (simp add: get_sequence_state_def SequenceState_from_set_writing)
  with sample_message_state_facts(2) have "has_new_data 0 ?m"
    by (simp add: has_new_data_def current_sequence_def)
  with nonblocking_read_can_block [of "sample_handle ReadSync" ?m] st show ?thesis
    by (simp add: sample_handle_def)
qed

text \<open>
  \<open>read_all\<close> does not check the mode. Given a handle that was opened for writing, it returns the
  message and counts a consumption for it, where \<open>read\<close> on the same handle panics.
\<close>

theorem read_all_skips_the_mode:
  assumes "pm_mode h = WriteSync" "quiescent m" "last_read_sequence h \<noteq> current_sequence m"
    and "\<not> writing_in_progress (get_sequence_state m)"
  shows "read_py False [] h m = (Py_panic Opened_write_only, h, m, []) \<and>
    read_all [(h, m)] = (Py_ok [Some (ch_payload (abs_channel m))],
      [(h\<lparr>last_read_sequence := current_sequence m\<rparr>, consume m)]) \<and>
    data_consumed (get_reader_state (consume m)) = data_consumed (get_reader_state m) + 1"
  using assms read_sync_available [OF assms(2-4), of False] abs_eqD(4) [OF consume_effect(1) [of m]]
  by (simp add: read_py_def check_read_permission_def read_all_def read_one_def py_read_def)

theorem read_all_skips_the_mode_witness:
  "fst (read_all [(sample_handle WriteSync, sample_message)]) = Py_ok [Some [1, 2]]"
  using read_all_skips_the_mode [of "sample_handle WriteSync" sample_message] sample_message_facts(1)
    sample_message_state_facts
  by (simp add: sample_handle_def)

lemma mapper_create_cast:
  "mapper_create cast os nm sz st = (Inr mp, st') \<Longrightarrow> \<exists>p. cast p (mapped_size mp) = Some (mapped_ptr mp)"
  by (auto simp: mapper_create_def map_and_init_def Let_def split: prod.splits sum.splits if_splits option.splits)

text \<open>The memory \<open>create\<close> hands to the constructor: fresh, with the policy's target.\<close>

lemma configured_memory:
  fixes c :: u16
  assumes "n < 2 ^ 64"
  defines "m \<equiv> fst (snd (set_target_read_count c [] (fresh_message n)))"
  shows "quiescent m" "length (data m) = n" "current_sequence m = 0" "\<not> is_stopped m"
    "get_reader_state m = \<lparr>target_read = c, consumers = 0, active_readers = 0, data_consumed = 0\<rparr>"
proof -
  obtain r es where run: "set_target_read_count c [] (fresh_message n) = (r, m, es)"
    unfolding m_def by (metis prod.collapse)
  have q: "quiescent (fresh_message n)" using assms(1) by (rule fresh_message_quiescent)
  then have free: "writer_mutex (fresh_message n) = UNLOCKED" by (simp add: quiescent_def)
  from set_target_refines [OF free run] have r: "r = Returns ()"
    and abs: "abs_channel m = (abs_channel (fresh_message n))\<lparr>ch_readers :=
      (ch_readers (abs_channel (fresh_message n)))\<lparr>target_read := c\<rparr>\<rparr>" by simp_all
  show "quiescent m" using perform_keeps [OF q, of "Call_set_target c" "Unit_result r" m] run r by simp
  show "length (data m) = n" "current_sequence m = 0" "\<not> is_stopped m"
    "get_reader_state m = \<lparr>target_read = c, consumers = 0, active_readers = 0, data_consumed = 0\<rparr>"
    using abs_eqD [OF abs] by (simp_all add: abs_fresh)
qed

text \<open>
  C28: A successful \<open>create\<close> hands out a message ready for use: named and mapped in full, with exactly the
  configured capacity, the waiting policy's count as target, the handle registered if it reads, nothing
  published, not stopped and the mutex free.
\<close>

theorem python_create_configures:
  assumes "shm_laws os named maps" "unat max_capacity + 256 < 2 ^ 64"
    and "py_create os max_capacity nm mode policy st = (Py_ok (h, mp, m), st')"
  shows "mapper_name mp = nm \<and> created mp \<and> nm \<in> named st' \<and> py_name h = nm \<and> py_capacity m = unat max_capacity \<and>
    get_reader_state m = \<lparr>target_read = to_count policy, consumers = (if can_read mode then 1 else 0),
      active_readers = 0, data_consumed = 0\<rparr> \<and>
    quiescent m \<and> current_sequence m = 0 \<and> \<not> py_is_stopped m \<and> pm_mode h = mode \<and> last_read_version h = 0"
proof -
  let ?sz = "header_size + max_capacity"
  obtain st1 where mk: "mapper_create cast_from_void_ptr os nm ?sz st = (Inr mp, st1)"
    and new: "PythonSharedMessage_new nm mode
      (fst (snd (set_target_read_count (to_count policy) [] (fresh_message (unat (snd (mapped_ptr mp))))))) =
      (Py_ok h, m)" (is "PythonSharedMessage_new nm mode ?m0 = _") and st: "st' = st1"
    using assms(3)
    by (auto simp: py_create_def Let_def split: if_splits prod.splits sum.splits py_result.splits)
  note maps = smp.create_maps [OF assms(1) mk, simplified]
  obtain p where "cast_from_void_ptr p ?sz = Some (mapped_ptr mp)"
    using mapper_create_cast [OF mk] maps by auto
  then have "snd (mapped_ptr mp) = saturating_sub ?sz header_size"
    by (cases "mapped_ptr mp") (auto simp: cast_from_void_ptr_def Let_def split: if_splits)
  moreover have "unat ?sz = 256 + unat max_capacity"
    using assms(2) by (simp add: layout_values unat_word_ariths(1))
  ultimately have n: "unat (snd (mapped_ptr mp)) = unat max_capacity"
    by (simp add: saturating_sub_unat layout_values)
  have "unat max_capacity < 2 ^ 64" using assms(2) by simp
  note m0 = configured_memory [OF this, of "to_count policy", folded n]
  have m: "m = (if can_read mode then snd (add_reader ?m0) else ?m0)" "pm_mode h = mode" "last_read_sequence h = 0" "pm_name h = nm"
    using new by (auto simp: PythonSharedMessage_new_def Let_def split: if_splits prod.splits outcome.splits)
  have "quiescent m" using m0(1) m(1)
    by (auto simp: add_reader_def reader_registration_def update_reader_state_eq quiescent_def wf_message_def)
  moreover have "capacity m = unat max_capacity" "current_sequence m = 0" "\<not> is_stopped m"
    "get_reader_state m = \<lparr>target_read = to_count policy, consumers = (if can_read mode then 1 else 0),
      active_readers = 0, data_consumed = 0\<rparr>"
    using m(1) m0(2-5) n
    by (auto simp: add_reader_def reader_registration_def update_reader_state_eq capacity_def
        current_sequence_def is_stopped_def get_sequence_state_def get_reader_state_def packed_simps)
  ultimately show ?thesis using maps m(2-4) st by (simp add: last_read_version_def py_name_def py_is_stopped_def)
qed

definition created_message ::
    "(PythonSharedMessage \<times> mapper \<times> shared_message) py_result \<times> plain_state" where
  "created_message = py_create plain_os 64 ''msg'' ReadSync All plain_start"

lemma created_message_ok: "\<exists>h mp m st'. created_message = (Py_ok (h, mp, m), st')"
proof -
  have "\<exists>mp st1. mapper_create cast_from_void_ptr plain_os ''msg'' 320 plain_start = (Inr mp, st1) \<and>
      snd (mapped_ptr mp) = 64"
    by (simp add: mapper_create_def plain_os_def plain_create_def plain_start_def map_and_init_def
        plain_mmap_def cast_from_void_ptr_def layout_values saturating_sub_def)
  then obtain mp st1 where mk: "mapper_create cast_from_void_ptr plain_os ''msg'' 320 plain_start = (Inr mp, st1)"
    "snd (mapped_ptr mp) = 64" by blast
  have "consumers (get_reader_state (fst (snd (set_target_read_count 65535 [] (fresh_message 64))))) = 0"
    using configured_memory(5) [of 64 65535] by simp
  then have "\<exists>h m. PythonSharedMessage_new ''msg'' ReadSync
      (fst (snd (set_target_read_count 65535 [] (fresh_message 64)))) = (Py_ok h, m)"
    by (simp add: PythonSharedMessage_new_def add_reader_def reader_registration_def update_reader_state_eq)
  with mk show ?thesis
    by (auto simp: created_message_def py_create_def nul_in_def layout_values Let_def)
qed

theorem python_create_configures_witness:
  "\<exists>h mp m st'. created_message = (Py_ok (h, mp, m), st') \<and> capacity m = 64 \<and>
     target_read (get_reader_state m) = 65535 \<and> consumers (get_reader_state m) = 1"
proof -
  obtain h mp m st' where c: "created_message = (Py_ok (h, mp, m), st')" using created_message_ok by blast
  have "unat (64 :: usize) + 256 < 2 ^ 64" by simp
  from python_create_configures [OF plain_laws this c [unfolded created_message_def]]
  have "capacity m = 64" "target_read (get_reader_state m) = 65535" "consumers (get_reader_state m) = 1"
    by simp_all
  with c show ?thesis by blast
qed

text \<open>
  The checks of \<open>create\<close> and \<open>open\<close>. An empty name, a name with a NUL character and, for \<open>open\<close>, the
  mode \<open>CreateOnly\<close> raise \<open>ValueError\<close> before the operating system is asked for anything; every error of
  the operating system is passed on.
\<close>

theorem python_constructor_checks:
  "(if nm = [] then py_create os cap nm mode policy st = (Py_value_error Name_empty, st)
    else if nul_in nm then py_create os cap nm mode policy st = (Py_value_error Nul_in_name, st)
    else case mapper_create cast_from_void_ptr os nm (header_size + cap) st of
      (Inl e, st1) \<Rightarrow> py_create os cap nm mode policy st = (Py_os_error e, st1)
    | (Inr mp, st1) \<Rightarrow> snd (py_create os cap nm mode policy st) \<in> {st1, mapper_drop os mp st1}) \<and>
   (if nm = [] then py_open os contents nm mode st = (Py_value_error Name_empty, st)
    else if mode = CreateOnly then py_open os contents nm mode st = (Py_value_error Mode_cannot_be_create, st)
    else if nul_in nm then py_open os contents nm mode st = (Py_value_error Nul_in_name, st)
    else case mapper_open cast_from_void_ptr os nm st of
      (Inl e, st1) \<Rightarrow> py_open os contents nm mode st = (Py_os_error e, st1)
    | (Inr mp, st1) \<Rightarrow>
        (if can_read mode \<and> consumers (get_reader_state (contents nm)) = 65535
         then py_open os contents nm mode st = (Py_panic (Core_panic Too_many_readers), mapper_drop os mp st1)
         else \<exists>h m. py_open os contents nm mode st = (Py_ok (h, mp, m), st1)))"
  by (auto simp: py_create_def py_open_def PythonSharedMessage_new_def add_reader_def reader_registration_def
      update_reader_state_eq Let_def split: prod.splits sum.splits py_result.splits outcome.splits)

text \<open>
  The configured capacity is in megabytes. Below \<open>2 ^ 44\<close> of them \<open>set_max_capacity\<close> stores the number of
  bytes; from there on the product wraps around, and \<open>2 ^ 44\<close> megabytes make the capacity of every message
  created afterwards zero.
\<close>

theorem set_max_capacity_bytes:
  "if unat mb < 2 ^ 44 then unat (set_max_capacity mb) = unat mb * 2 ^ 20 else unat (set_max_capacity mb) < unat mb * 2 ^ 20"
proof -
  have eq: "set_max_capacity mb = mb * 1048576" by (simp add: set_max_capacity_def)
  have mod: "unat (set_max_capacity mb) = unat mb * 2 ^ 20 mod 2 ^ 64"
    unfolding eq by (simp add: unat_word_ariths(2))
  show ?thesis
  proof (cases "unat mb < 2 ^ 44")
    case True
    then have "unat mb * 2 ^ 20 < 2 ^ 64" by simp
    with mod True show ?thesis by simp
  next
    case False
    then have "2 ^ 64 \<le> unat mb * 2 ^ 20" by simp
    moreover have "unat mb * 2 ^ 20 mod 2 ^ 64 < 2 ^ 64" by simp
    ultimately show ?thesis using mod False by (metis less_le_trans)
  qed
qed

lemma set_max_capacity_zero: "set_max_capacity (2 ^ 44) = 0"
  by (simp add: set_max_capacity_def)

end
