(* ===== verification/Python_System.thy ===== *)
theory Python_System
  imports Python_Behaviour
begin

text \<open>
  Several Python handles on one message, in any number of processes: handles are opened, used, stopped
  and dropped, and their background threads run, in any order. A step is one method call, one \<open>with\<close> block
  on a guard, or one iteration of a background thread, and it runs without another step in between: calls
  that overlap are the subject of the interleaved model (\<open>Message_Steps\<close> and the theories after it). A
  call that would wait is made when it no longer has to. Left out are \<open>with\<close> blocks that do not publish
  or that are interrupted by another call, and read guards on handles with a reader thread.

  The state carries histories: what was published, what every handle took from the memory and what its
  reads returned. The second half classifies the steps by what they do: a handle is opened or dropped, a
  message is published, a message is taken, or nothing of the kind happens (\<open>sys_step_cases\<close>).
\<close>

section \<open>Handles in use\<close>

text \<open>
  \<open>cl_since\<close>: how many messages had been published when the handle was opened; \<open>cl_taken\<close>: the messages it
  took from the memory, in a call or in its reader thread; \<open>cl_got\<close>: what its reads returned.
\<close>

record client =
  cl_handle :: PythonSharedMessage
  cl_open :: bool
  cl_since :: nat
  cl_taken :: "(u64 \<times> bytes) list"
  cl_got :: "bytes list"

record system =
  sys_mem :: shared_message
  sys_clients :: "client list"
  sys_log :: "(u64 \<times> bytes) list"

text \<open>The last number taken, by the reader thread of a \<open>ReadAsync\<close> handle and by \<open>read\<close> otherwise.\<close>

definition last_taken :: "PythonSharedMessage \<Rightarrow> u64" where
  "last_taken h = (case pm_receiver h of None \<Rightarrow> last_read_sequence h | Some rt \<Rightarrow> rt_last rt)"

text \<open>What the reader thread has queued and \<open>read\<close> has not fetched.\<close>

definition pending :: "PythonSharedMessage \<Rightarrow> bytes list" where
  "pending h = (case pm_receiver h of None \<Rightarrow> [] | Some rt \<Rightarrow> map rq_data (items (rt_chan rt)))"

definition payload :: "shared_message \<Rightarrow> bytes" where
  "payload m = (case data_ref m of Inl _ \<Rightarrow> [] | Inr d \<Rightarrow> d)"

section \<open>Steps\<close>

text \<open>
  \<open>write\<close>; a \<open>with\<close> block on a write guard that writes some pieces and publishes; \<open>read\<close>; a \<open>with\<close> block on a
  read guard that copies the message; \<open>read_all\<close> with the handle in its list; \<open>stop\<close>; an iteration of a
  background thread.
\<close>

datatype action =
    Act_write bytes
  | Act_write_guard "bytes list"
  | Act_read bool
  | Act_read_guard bool
  | Act_read_all
  | Act_stop
  | Act_writer_thread nat
  | Act_reader_thread

text \<open>
  The uses of guards that the histories contain: the pieces written through a write guard fit into the
  capacity, so that the block publishes, and a read guard is not taken from a handle whose reader thread
  reads the same messages.
\<close>

fun regular :: "action \<Rightarrow> PythonSharedMessage \<Rightarrow> shared_message \<Rightarrow> bool" where
  "regular (Act_write_guard pieces) h m \<longleftrightarrow> length (concat pieces) \<le> capacity m"
| "regular (Act_read_guard block) h m \<longleftrightarrow> pm_mode h \<noteq> ReadAsync"
| "regular _ h m \<longleftrightarrow> True"

fun by_thread :: "action \<Rightarrow> bool" where
  "by_thread (Act_writer_thread j) = True"
| "by_thread Act_reader_thread = True"
| "by_thread _ = False"

text \<open>A call, a block or an iteration of a thread: the new handle and memory, and what was read.\<close>

fun act :: "action \<Rightarrow> PythonSharedMessage \<Rightarrow> shared_message \<Rightarrow>
    (PythonSharedMessage \<times> shared_message \<times> bytes list) option" where
  "act (Act_write d) h m =
     (case py_write d [] h m of
        (Py_blocks, _) \<Rightarrow> None
      | (_, h1, m1, _) \<Rightarrow> Some (h1, m1, []))"
| "act (Act_write_guard pieces) h m =
     (case py_write_guard [] h m of
        (Py_blocks, _) \<Rightarrow> None
      | (Py_ok (Some g), m1, _) \<Rightarrow>
          (case wg_writes pieces (wg_enter g) m1 of
             (g1, m2) \<Rightarrow>
               (case wg_publish None g1 m2 (last_written_sequence h) of
                  (_, g2, m3, q) \<Rightarrow> Some (h\<lparr>last_written_sequence := q\<rparr>, snd (wg_exit g2 m3), [])))
      | (_, m1, _) \<Rightarrow> Some (h, m1, []))"
| "act (Act_read_guard block) h m =
     (case py_read_guard block [] h m of
        (Py_blocks, _) \<Rightarrow> None
      | (Py_ok (Some g), h1, m1, _) \<Rightarrow>
          Some (h1, snd (rg_exit g m1), (case rg_to_bytes (rg_enter g) m1 of Py_ok d \<Rightarrow> [d] | _ \<Rightarrow> []))
      | (_, h1, m1, _) \<Rightarrow> Some (h1, m1, []))"
| "act Act_read_all h m =
     (case read_one (h, m) of
        (Py_blocks, _) \<Rightarrow> None
      | (Py_ok (Some d), h1, m1) \<Rightarrow> Some (h1, m1, [d])
      | (_, h1, m1) \<Rightarrow> Some (h1, m1, []))"
| "act (Act_read block) h m =
     (case read_py block [] h m of
        (Py_blocks, _) \<Rightarrow> None
      | (Py_ok (Some d), h1, m1, _) \<Rightarrow> Some (h1, m1, [d])
      | (_, h1, m1, _) \<Rightarrow> Some (h1, m1, []))"
| "act Act_stop h m = (case py_stop h m of (h1, m1) \<Rightarrow> Some (h1, m1, []))"
| "act (Act_writer_thread j) h m =
     (case writer_thread_step j [] h m of None \<Rightarrow> None | Some (h1, m1, _) \<Rightarrow> Some (h1, m1, []))"
| "act Act_reader_thread h m =
     (case reader_thread_step [] h m of None \<Rightarrow> None | Some (h1, m1, _) \<Rightarrow> Some (h1, m1, []))"

definition note_client :: "shared_message \<Rightarrow> PythonSharedMessage \<Rightarrow> bytes list \<Rightarrow> client \<Rightarrow> client" where
  "note_client m h1 got c =
     c\<lparr>cl_handle := h1,
       cl_taken := cl_taken c @ (if last_taken h1 = last_taken (cl_handle c) then [] else [(last_taken h1, payload m)]),
       cl_got := cl_got c @ got\<rparr>"

definition note_log :: "shared_message \<Rightarrow> shared_message \<Rightarrow> (u64 \<times> bytes) list \<Rightarrow> (u64 \<times> bytes) list" where
  "note_log m m1 l = l @ (if current_sequence m1 = current_sequence m then [] else [(current_sequence m1, payload m1)])"

definition after_act :: "nat \<Rightarrow> PythonSharedMessage \<Rightarrow> shared_message \<Rightarrow> bytes list \<Rightarrow> system \<Rightarrow> system" where
  "after_act i h1 m1 got s =
     s\<lparr>sys_mem := m1,
       sys_clients := (sys_clients s)[i := note_client (sys_mem s) h1 got (sys_clients s ! i)],
       sys_log := note_log (sys_mem s) m1 (sys_log s)\<rparr>"

definition new_client :: "nat \<Rightarrow> PythonSharedMessage \<Rightarrow> client" where
  "new_client n h = \<lparr>cl_handle = h, cl_open = True, cl_since = n, cl_taken = [], cl_got = []\<rparr>"

inductive sys_step :: "system \<Rightarrow> system \<Rightarrow> bool" where
  sys_open: "PythonSharedMessage_new nm mode (sys_mem s) = (Py_ok h, m1) \<Longrightarrow>
     sys_step s (s\<lparr>sys_mem := m1, sys_clients := sys_clients s @ [new_client (length (sys_log s)) h]\<rparr>)"
| sys_act: "i < length (sys_clients s) \<Longrightarrow> cl_open (sys_clients s ! i) \<or> by_thread a \<Longrightarrow>
     regular a (cl_handle (sys_clients s ! i)) (sys_mem s) \<Longrightarrow>
     act a (cl_handle (sys_clients s ! i)) (sys_mem s) = Some (h1, m1, got) \<Longrightarrow>
     sys_step s (after_act i h1 m1 got s)"
| sys_drop: "i < length (sys_clients s) \<Longrightarrow> cl_open (sys_clients s ! i) \<Longrightarrow>
     py_drop (cl_handle (sys_clients s ! i)) (sys_mem s) = (Py_ok h1, m1) \<Longrightarrow>
     sys_step s (s\<lparr>sys_mem := m1,
       sys_clients := (sys_clients s)[i := (sys_clients s ! i)\<lparr>cl_handle := h1, cl_open := False\<rparr>]\<rparr>)"

text \<open>The memory that \<open>create\<close> has set up, and no handle yet.\<close>

definition sys_initial :: "ReaderWaitPolicy \<Rightarrow> system \<Rightarrow> bool" where
  "sys_initial policy s \<longleftrightarrow> sys_clients s = [] \<and> sys_log s = [] \<and>
     (\<exists>n < 2 ^ 64. sys_mem s = fst (snd (set_target_read_count (to_count policy) [] (fresh_message n))))"

inductive sys_reach :: "ReaderWaitPolicy \<Rightarrow> system \<Rightarrow> bool" for policy where
  sys_reach_initial: "sys_initial policy s \<Longrightarrow> sys_reach policy s"
| sys_reach_step: "sys_reach policy s \<Longrightarrow> sys_step s s' \<Longrightarrow> sys_reach policy s'"

interpretation sr: reachability "sys_initial policy" sys_step "sys_reach policy" for policy
proof
  show "sys_reach policy s" if "sys_initial policy s" for s
    using that by (rule sys_reach_initial)
  show "sys_reach policy s'" if "sys_reach policy s" "sys_step s s'" for s s'
    using that by (rule sys_reach_step)
  show "P s" if "sys_reach policy s" "\<And>s. sys_initial policy s \<Longrightarrow> P s"
      "\<And>s s'. sys_reach policy s \<Longrightarrow> P s \<Longrightarrow> sys_step s s' \<Longrightarrow> P s'" for s P
    using that(1) by (induction rule: sys_reach.induct) (blast intro: that(2,3))+
qed

inductive_cases sys_stepE: "sys_step s s'"

section \<open>What one action does\<close>

text \<open>A memory between two calls.\<close>

definition at_peace :: "shared_message \<Rightarrow> bool" where
  "at_peace m \<longleftrightarrow> quiescent m \<and> \<not> writing_in_progress (get_sequence_state m) \<and>
     active_readers (get_reader_state m) = 0"

lemma at_peace_payload: "at_peace m \<Longrightarrow> payload m = ch_payload (abs_channel m)"
  by (simp add: at_peace_def quiescent_def payload_def data_ref_wf)

text \<open>A handle whose queues hold only messages that fit, with a reader thread exactly in the mode \<open>ReadAsync\<close>.\<close>

definition handle_ok :: "nat \<Rightarrow> PythonSharedMessage \<Rightarrow> bool" where
  "handle_ok cap h \<longleftrightarrow>
     (\<forall>c \<in> set (pm_writers h). \<forall>d \<in> set (items c). length d \<le> cap) \<and>
     (\<forall>i. pm_sender h = Some i \<longrightarrow> i < length (pm_writers h)) \<and>
     (pm_receiver h \<noteq> None \<longleftrightarrow> pm_mode h = ReadAsync)"

definition rx_open :: "PythonSharedMessage \<Rightarrow> bool" where
  "rx_open h \<longleftrightarrow> (\<forall>rt. pm_receiver h = Some rt \<longrightarrow> rx_alive (rt_chan rt))"

text \<open>The three things that an action can do to a handle and the memory.\<close>

definition publishes_to :: "PythonSharedMessage \<Rightarrow> shared_message \<Rightarrow> PythonSharedMessage \<Rightarrow> shared_message \<Rightarrow> bytes list \<Rightarrow> bool" where
  "publishes_to h m h1 m1 got \<longleftrightarrow>
     \<not> is_stopped m \<and> \<not> unread m \<and> at_peace m1 \<and> capacity m1 = capacity m \<and>
     current_sequence m1 = next_sequence (current_sequence m) \<and>
     get_reader_state m1 = (get_reader_state m)\<lparr>data_consumed := 0\<rparr> \<and>
     pm_receiver h1 = pm_receiver h \<and> last_taken h1 = last_taken h \<and> got = []"

definition takes_from :: "PythonSharedMessage \<Rightarrow> shared_message \<Rightarrow> PythonSharedMessage \<Rightarrow> shared_message \<Rightarrow> bytes list \<Rightarrow> bool" where
  "takes_from h m h1 m1 got \<longleftrightarrow>
     m1 = consume m \<and> last_taken h \<noteq> current_sequence m \<and>
     last_taken h1 = current_sequence m \<and> rx_open h1 = rx_open h \<and>
     (rx_open h \<longrightarrow> got @ pending h1 = pending h @ [payload m])"

definition leaves :: "PythonSharedMessage \<Rightarrow> shared_message \<Rightarrow> PythonSharedMessage \<Rightarrow> shared_message \<Rightarrow> bytes list \<Rightarrow> bool" where
  "leaves h m h1 m1 got \<longleftrightarrow>
     (m1 = m \<or> m1 = stop m) \<and> last_taken h1 = last_taken h \<and> rx_open h1 = rx_open h \<and>
     got @ pending h1 = pending h"

lemma write_slice_at_peace:
  assumes "at_peace m" "length d \<le> capacity m" "write_slice d [] m = (r, m1, es)" "r \<noteq> Blocks"
  shows "r = Returns None \<and> m1 = m \<or>
    r = Returns (Some (next_sequence (current_sequence m))) \<and>
      (\<forall>h h1. pm_receiver h1 = pm_receiver h \<longrightarrow> last_taken h1 = last_taken h \<longrightarrow> publishes_to h m h1 m1 [])"
proof (cases "is_stopped m \<or> unread m")
  case True
  with assms show ?thesis
    by (auto simp: write_slice_def start_write_alone at_peace_def quiescent_def split: if_splits)
next
  case False
  with assms(1,2) have "quiescent m" "writable d m" by (simp_all add: at_peace_def writable_def)
  then obtain m2 where w: "write_slice d [] m = (Returns (Some (next_sequence (current_sequence m))), m2, [])"
    "quiescent m2"
    and abs2: "abs_channel m2 = (abs_channel m)\<lparr>ch_sequence := next_sequence (current_sequence m), ch_writing := False,
       ch_payload := d, ch_readers := (get_reader_state m)\<lparr>data_consumed := 0\<rparr>\<rparr>"
    by (rule write_slice_writable)
  with assms(3) abs_eqD [OF abs2] False assms(1) show ?thesis
    by (auto simp: publishes_to_def at_peace_def capacity_def abs_channel_sel)
qed

abbreviation does_something :: "PythonSharedMessage \<Rightarrow> shared_message \<Rightarrow> PythonSharedMessage \<Rightarrow> shared_message \<Rightarrow> bytes list \<Rightarrow> bool" where
  "does_something h m h1 m1 got \<equiv>
     pm_mode h1 = pm_mode h \<and> handle_ok (capacity m) h1 \<and>
     (publishes_to h m h1 m1 got \<or> takes_from h m h1 m1 got \<or> leaves h m h1 m1 got)"

lemma leaves_same: "pm_receiver h1 = pm_receiver h \<Longrightarrow> last_taken h1 = last_taken h \<Longrightarrow> leaves h m h1 m []"
  by (simp add: leaves_def rx_open_def pending_def)

lemma write_sync_effect:
  assumes "at_peace m" "handle_ok (capacity m) h" "length d \<le> capacity m"
    and "write_sync d [] h m = (r, h1, m1, es)" "r \<noteq> Py_blocks"
  shows "does_something h m h1 m1 []"
proof -
  obtain r0 m0 es0 where w: "write_slice d [] m = (r0, m0, es0)" by (metis prod.exhaust)
  with assms(4,5) have m1: "r0 \<noteq> Blocks" "m1 = m0" by (auto simp: write_sync_def split: outcome.splits option.splits)
  have h1: "h1 = h \<or> (\<exists>q. h1 = h\<lparr>last_written_sequence := q\<rparr>)"
    using assms(4) w by (auto simp: write_sync_def split: outcome.splits option.splits)
  then have "pm_mode h1 = pm_mode h" "handle_ok (capacity m) h1" "pm_receiver h1 = pm_receiver h"
    "last_taken h1 = last_taken h"
    using assms(2) by (auto simp: handle_ok_def last_taken_def)
  with write_slice_at_peace [OF assms(1,3) w m1(1)] m1(2) leaves_same show ?thesis by metis
qed

lemma write_async_effect:
  assumes "handle_ok cap h" "length d \<le> cap" "write_async d h = (r, h1)"
  shows "pm_mode h1 = pm_mode h \<and> handle_ok cap h1 \<and> pm_receiver h1 = pm_receiver h \<and> last_taken h1 = last_taken h"
proof -
  define i where "i = (case pm_sender h of None \<Rightarrow> length (pm_writers h) | Some i \<Rightarrow> i)"
  define h0 where "h0 = (case pm_sender h of
      None \<Rightarrow> h\<lparr>pm_sender := Some (length (pm_writers h)), pm_writers := pm_writers h @ [new_chan]\<rparr> | Some _ \<Rightarrow> h)"
  have h0: "handle_ok cap h0" "i < length (pm_writers h0)" "pm_mode h0 = pm_mode h" "pm_receiver h0 = pm_receiver h"
    "last_read_sequence h0 = last_read_sequence h"
    using assms(1) by (auto simp: handle_ok_def h0_def i_def new_chan_def split: option.splits)
  have h1: "h1 = (case chan_send d (pm_writers h0 ! i) of
      None \<Rightarrow> h0 | Some c \<Rightarrow> h0\<lparr>pm_writers := (pm_writers h0)[i := c]\<rparr>)"
    using assms(3) by (auto simp: write_async_def h0_def i_def Let_def split: option.splits)
  have "\<forall>e \<in> set (items (pm_writers h0 ! i)). length e \<le> cap"
    using h0(1,2) nth_mem unfolding handle_ok_def by blast
  then have "\<forall>e \<in> set (items c). length e \<le> cap" if "chan_send d (pm_writers h0 ! i) = Some c" for c
    using that assms(2) by (auto simp: chan_send_def split: if_splits)
  then have "handle_ok cap h1" using h0(1) h1
    by (auto simp: handle_ok_def split: option.splits dest!: in_set_updateD)
  with h0 h1 show ?thesis by (auto simp: last_taken_def split: option.splits)
qed

text \<open>A block that writes pieces through a guard and publishes is one \<open>write_slice\<close> of their concatenation.\<close>

lemma guard_block:
  assumes "start_write [] m = (Returns True, m1, es)" "length (data m1) < 2 ^ 64" "length (concat bs) \<le> length (data m1)"
  obtains g m2 g' m3 q where "wg_writes bs PythonWriteGuard_new m1 = (g, m2)"
    "wg_publish None g m2 lw = (Py_ok (Some q), g', m3, q)" "\<not> wg_active g'"
    "write_slice (concat bs) [] m = (Returns (Some q), m3, es)"
proof -
  obtain g d where w: "wg_writes bs PythonWriteGuard_new m1 = (g, m1\<lparr>data := d\<rparr>)" "wg_active g"
      "length d = length (data m1)" "unat (wg_cursor g) = length (concat bs)"
      "take (unat (wg_cursor g)) d = concat bs" "drop (unat (wg_cursor g)) d = drop (unat (wg_cursor g)) (data m1)"
    using wg_writes_fit [of PythonWriteGuard_new m1 bs] assms(2,3) by (auto simp: PythonWriteGuard_new_def)
  have "d = overwrite_prefix (concat bs) (data m1)"
    using w(4-6) append_take_drop_id [of "unat (wg_cursor g)" d] by (simp add: overwrite_prefix_def)
  moreover have "wg_cursor g = of_nat (length (concat bs))" using w(4) by (metis of_nat_unat ucast_id)
  moreover obtain q m3 where "publish_write (wg_cursor g) (m1\<lparr>data := d\<rparr>) = (Some q, m3)"
    by (simp add: publish_write_def Let_def)
  ultimately show ?thesis
    using that [OF w(1), of q "g\<lparr>wg_active := False\<rparr>" m3] w(2-4) assms
    by (simp add: wg_publish_def guard_publish_def capacity_def write_slice_def)
qed

lemma write_guard_effect:
  assumes "at_peace m" "handle_ok (capacity m) h" "length (concat bs) \<le> capacity m"
    and "act (Act_write_guard bs) h m = Some (h1, m1, got)"
  shows "does_something h m h1 m1 got"
proof (cases "can_write (pm_mode h)")
  case False
  with assms(2,4) show ?thesis by (auto simp: py_write_guard_def check_write_permission_def intro: leaves_same)
next
  case True
  obtain r m0 es where sw: "start_write [] m = (r, m0, es)" by (metis prod.exhaust)
  show ?thesis
  proof (cases "r = Returns True")
    case granted: True
    have "data m0 = data m" using start_write_data [of m m0 es] sw granted by simp
    with assms(1,3) have fits: "length (data m0) < 2 ^ 64" "length (concat bs) \<le> length (data m0)"
      by (simp_all add: at_peace_def quiescent_def wf_message_def capacity_def)
    from guard_block [OF sw [unfolded granted] fits, of "last_written_sequence h"] obtain g m2 g' m3 q where
      b: "wg_writes bs PythonWriteGuard_new m0 = (g, m2)"
        "wg_publish None g m2 (last_written_sequence h) = (Py_ok (Some q), g', m3, q)" "\<not> wg_active g'"
        "write_slice (concat bs) [] m = (Returns (Some q), m3, es)" by metis
    with assms(4) True sw granted have res: "h1 = h\<lparr>last_written_sequence := q\<rparr>" "m1 = m3" "got = []"
      by (auto simp: py_write_guard_def check_write_permission_def SharedMessage_write_def wg_enter_def wg_exit_def)
    then have "write_sync (concat bs) [] h m = (Py_ok (Some q), h1, m1, es)" using b(4) by (simp add: write_sync_def)
    from write_sync_effect [OF assms(1-3) this] res(3) show ?thesis by simp
  next
    case False
    with sw assms(1) have "r = Blocks \<or> m0 = m \<and> r = Returns False"
      by (auto simp: start_write_alone at_peace_def quiescent_def mutex_unlock_def split: if_splits)
    with assms(2,4) True sw False show ?thesis
      by (auto simp: py_write_guard_def check_write_permission_def SharedMessage_write_def intro: leaves_same)
  qed
qed

lemma py_write_effect:
  assumes "at_peace m" "handle_ok (capacity m) h"
    and "py_write d [] h m = (r, h1, m1, es)" "r \<noteq> Py_blocks"
  shows "does_something h m h1 m1 []"
proof -
  have same: "does_something h m h m []" using assms(2) by (simp add: leaves_def)
  show ?thesis
  proof (cases "can_write (pm_mode h) \<and> length d \<le> capacity m")
    case False
    with assms(3) same show ?thesis by (auto simp: py_write_def check_write_permission_def split: if_splits)
  next
    case fits: True
    show ?thesis
    proof (cases "pm_mode h = WriteAsync")
      case True
      obtain r0 h0 where async: "write_async d h = (r0, h0)" by (metis prod.exhaust)
      with True assms(3) fits have "m1 = m" "h1 = h0"
        by (auto simp: py_write_def check_write_permission_def split: py_result.splits)
      with write_async_effect [OF assms(2) _ async] fits leaves_same show ?thesis by blast
    next
      case False
      with assms(3) fits have "write_sync d [] h m = (r, h1, m1, es)"
        by (simp add: py_write_def check_write_permission_def)
      with write_sync_effect [OF assms(1,2)] fits assms(4) show ?thesis by blast
    qed
  qed
qed

lemma handle_ok_close:
  assumes "handle_ok cap h" "items c = [] \<or> (i < length (pm_writers h) \<and> set (items c) \<subseteq> set (items (pm_writers h ! i)))"
  shows "handle_ok cap (h\<lparr>pm_writers := (pm_writers h)[i := c]\<rparr>)"
proof -
  have "\<forall>d \<in> set (items c). length d \<le> cap"
    using assms nth_mem [of i "pm_writers h"] unfolding handle_ok_def by fastforce
  with assms(1) show ?thesis
    by (auto simp: handle_ok_def dest!: in_set_updateD)
qed

lemma writer_thread_effect:
  assumes "at_peace m" "handle_ok (capacity m) h" "writer_thread_step j [] h m = Some (h1, m1, es)"
  shows "does_something h m h1 m1 []"
proof -
  let ?c = "pm_writers h ! j"
  have j: "j < length (pm_writers h)" using assms(3) by (auto simp: writer_thread_step_def split: if_splits)
  have frame: "pm_mode h1 = pm_mode h" "pm_receiver h1 = pm_receiver h" "last_taken h1 = last_taken h"
    using assms(3)
    by (auto simp: writer_thread_step_def last_taken_def split: if_splits prod.splits received.splits outcome.splits option.splits)
  have leaves: "leaves h m h1 m []" using frame by (simp add: leaves_same)
  have close: "handle_ok (capacity m) (h\<lparr>pm_writers := (pm_writers h)[j := close_receiver c]\<rparr>)" for c
    using assms(2) by (rule handle_ok_close) (simp add: close_receiver_def)
  show ?thesis
  proof (cases "items ?c")
    case Nil
    with assms(3) leaves frame close show ?thesis
      by (auto simp: writer_thread_step_def chan_recv_def split: if_splits)
  next
    case (Cons d ds)
    from assms(2) nth_mem [OF j] have "\<forall>e \<in> set (items ?c). length e \<le> capacity m"
      unfolding handle_ok_def by blast
    with Cons have d: "length d \<le> capacity m" by simp
    have rest: "handle_ok (capacity m) (h\<lparr>pm_writers := (pm_writers h)[j := ?c\<lparr>items := ds\<rparr>]\<rparr>)"
      using assms(2) by (rule handle_ok_close) (use j Cons in auto)
    then have rest': "handle_ok (capacity m) (h\<lparr>pm_writers := (pm_writers h)[j := ?c\<lparr>items := ds\<rparr>], last_written_sequence := q\<rparr>)" for q
      by (simp add: handle_ok_def)
    obtain r0 m0 es0 where w: "write_slice d [] m = (r0, m0, es0)" by (metis prod.exhaust)
    with assms(3) Cons have m1: "r0 \<noteq> Blocks" "m1 = m0"
      by (auto simp: writer_thread_step_def chan_recv_def split: if_splits outcome.splits option.splits)
    have "handle_ok (capacity m) h1"
      using assms(3) w Cons close rest'
      by (auto simp: writer_thread_step_def chan_recv_def split: if_splits outcome.splits option.splits)
    with write_slice_at_peace [OF assms(1) d w m1(1)] m1(2) frame leaves show ?thesis by metis
  qed
qed

lemma consume_shows: "at_peace m \<Longrightarrow> data_ref (snd (update_reader_state Register_reader m)) = Inr (payload m)"
  by (simp add: at_peace_payload update_reader_state_eq)
    (simp add: at_peace_def quiescent_def wf_message_def data_ref_def abs_channel_def)

lemma read_sync_effect:
  assumes "at_peace m" "handle_ok (capacity m) h" "pm_mode h \<noteq> ReadAsync"
    and "read_sync block [] h m = (r, h1, m1, es)" "r \<noteq> Py_blocks"
  shows "does_something h m h1 m1 (case r of Py_ok (Some d) \<Rightarrow> [d] | _ \<Rightarrow> [])"
proof (cases "last_read_sequence h = current_sequence m")
  case True
  with assms show ?thesis
    by (auto simp: read_sync_def read_alone current_sequence_def leaves_same split: if_splits)
next
  case False
  from assms(2,3) have none: "pm_receiver h = None" by (simp add: handle_ok_def)
  from assms(1) have m: "quiescent m" "\<not> writing_in_progress (get_sequence_state m)"
    by (simp_all add: at_peace_def)
  have "r = Py_ok (Some (payload m))" "h1 = h\<lparr>last_read_sequence := current_sequence m\<rparr>" "m1 = consume m"
    using read_sync_available [OF m(1) False m(2), of block] assms(4) at_peace_payload [OF assms(1)] by simp_all
  with none False assms(2) show ?thesis
    by (simp add: takes_from_def last_taken_def rx_open_def pending_def handle_ok_def)
qed

lemma read_effect:
  assumes "at_peace m" "handle_ok (capacity m) h"
    and "py_read block [] h m = (r, h1, m1, es)" "r \<noteq> Py_blocks"
  shows "does_something h m h1 m1 (case r of Py_ok (Some d) \<Rightarrow> [d] | _ \<Rightarrow> [])"
proof (cases "pm_mode h = ReadAsync")
  case False
  with assms(3) read_sync_effect [OF assms(1,2) False _ assms(4)] show ?thesis by (simp add: py_read_def)
next
  case True
  then obtain rt where rt: "pm_receiver h = Some rt" using assms(2) by (auto simp: handle_ok_def)
  show ?thesis
  proof (cases "items (rt_chan rt)")
    case Nil
    with True rt assms show ?thesis
      by (auto simp: py_read_def read_async_def chan_recv_def leaves_same split: if_splits)
  next
    case (Cons x xs)
    with True rt assms(2,3) show ?thesis
      by (auto simp: py_read_def read_async_def chan_recv_def leaves_def last_taken_def rx_open_def pending_def
          handle_ok_def)
  qed
qed

text \<open>A block that copies the message from a read guard does what \<open>read_sync\<close> does.\<close>

lemma read_guard_block:
  assumes "act (Act_read_guard block) h m = Some (h1, m1, got)" "can_read (pm_mode h)"
  obtains r es where "read_sync block [] h m = (r, h1, m1, es)" "r \<noteq> Py_blocks"
    "got = (case r of Py_ok (Some d) \<Rightarrow> [d] | _ \<Rightarrow> [])"
proof -
  obtain r0 m0 es where rd: "read (last_read_sequence h) block [] m = (r0, m0, es)" by (metis prod.exhaust)
  obtain r h' m' es' where sync: "read_sync block [] h m = (r, h', m', es')" by (metis prod.exhaust)
  have "r \<noteq> Py_blocks \<and> h' = h1 \<and> m' = m1 \<and> got = (case r of Py_ok (Some d) \<Rightarrow> [d] | _ \<Rightarrow> [])"
    using sync rd assms
    by (auto simp: read_sync_def py_read_guard_def check_read_permission_def rg_enter_def rg_exit_def rg_to_bytes_def
        rg_data_def PythonReadGuard_new_def Let_def split: outcome.splits option.splits sum.splits)
  with sync that show ?thesis by blast
qed

lemma reader_thread_effect:
  assumes "at_peace m" "handle_ok (capacity m) h" "reader_thread_step [] h m = Some (h1, m1, es)"
  shows "does_something h m h1 m1 []"
proof -
  obtain rt where rt: "pm_receiver h = Some rt" "tx_alive (rt_chan rt)"
    using assms(3) by (auto simp: reader_thread_step_def split: option.splits if_splits)
  then have async: "pm_mode h = ReadAsync" using assms(2) by (auto simp: handle_ok_def)
  from assms(1) have m: "quiescent m" "\<not> writing_in_progress (get_sequence_state m)" by (simp_all add: at_peace_def)
  consider "is_stopped m" | "\<not> is_stopped m" "rt_last rt \<noteq> current_sequence m"
    using reader_thread_waits [OF rt(1), of m] assms(3) by fastforce
  then show ?thesis
  proof cases
    case 1
    with assms(2,3) rt async show ?thesis
      by (auto simp: reader_thread_step_def leaves_def last_taken_def rx_open_def pending_def handle_ok_def)
  next
    case 2
    have m1: "m1 = consume m"
      using assms(3) rt 2 m(2) consume_shows [OF assms(1)]
      by (auto simp: reader_thread_step_def read_alone consume_def current_sequence_def Let_def split: option.splits)
    have h1: "h1 = h\<lparr>pm_receiver := Some \<lparr>rt_chan = (case chan_send \<lparr>rq_sequence = current_sequence m, rq_data = payload m\<rparr> (rt_chan rt) of
        None \<Rightarrow> (rt_chan rt)\<lparr>tx_alive := False\<rparr> | Some c \<Rightarrow> c), rt_last = current_sequence m\<rparr>\<rparr>"
      using assms(3) rt 2 m(2) consume_shows [OF assms(1)]
      by (auto simp: reader_thread_step_def read_alone current_sequence_def Let_def split: option.splits)
    show ?thesis
      using assms(2) rt async 2(2) m1 h1
      by (auto simp: takes_from_def last_taken_def rx_open_def pending_def handle_ok_def chan_send_def)
  qed
qed

lemma close_sender_frame:
  assumes "handle_ok cap h"
  shows "handle_ok cap (close_sender h)" "pm_mode (close_sender h) = pm_mode h"
    "pm_receiver (close_sender h) = pm_receiver h" "last_read_sequence (close_sender h) = last_read_sequence h"
proof -
  show "handle_ok cap (close_sender h)"
  proof (cases "pm_sender h")
    case (Some i)
    with assms have i: "i < length (pm_writers h)" by (simp add: handle_ok_def)
    from handle_ok_close [OF assms, of "(pm_writers h ! i)\<lparr>tx_alive := False\<rparr>" i] i Some
    show ?thesis by (simp add: close_sender_def handle_ok_def)
  qed (use assms in \<open>simp add: close_sender_def\<close>)
qed (simp_all add: close_sender_def split: option.splits)

lemma act_effect:
  assumes "at_peace m" "handle_ok (capacity m) h" "act a h m = Some (h1, m1, got)" "regular a h m"
  shows "does_something h m h1 m1 got"
proof (cases a)
  case (Act_write d)
  with assms(3) obtain r es where "py_write d [] h m = (r, h1, m1, es)" "r \<noteq> Py_blocks" "got = []"
    by (auto split: prod.splits py_result.splits)
  with py_write_effect [OF assms(1,2)] show ?thesis by blast
next
  case (Act_read block)
  with assms(3) obtain r es where r: "read_py block [] h m = (r, h1, m1, es)" "r \<noteq> Py_blocks"
    "got = (case r of Py_ok (Some d) \<Rightarrow> [d] | _ \<Rightarrow> [])"
    by (auto split: prod.splits py_result.splits option.splits)
  show ?thesis
  proof (cases "can_read (pm_mode h)")
    case True
    with r(1) have "py_read block [] h m = (r, h1, m1, es)" by (simp add: read_py_def check_read_permission_def)
    with read_effect [OF assms(1,2) _ r(2)] r(3) show ?thesis by blast
  next
    case False
    with r assms(2) show ?thesis by (auto simp: read_py_def check_read_permission_def intro: leaves_same)
  qed
next
  case Act_read_all
  with assms(3) obtain r es where "py_read False [] h m = (r, h1, m1, es)" "r \<noteq> Py_blocks"
    "got = (case r of Py_ok (Some d) \<Rightarrow> [d] | _ \<Rightarrow> [])"
    by (auto simp: read_one_def split: prod.splits py_result.splits option.splits)
  with read_effect [OF assms(1,2)] show ?thesis by blast
next
  case (Act_read_guard block)
  show ?thesis
  proof (cases "can_read (pm_mode h)")
    case True
    with assms(3) Act_read_guard obtain r es where "read_sync block [] h m = (r, h1, m1, es)" "r \<noteq> Py_blocks"
      "got = (case r of Py_ok (Some d) \<Rightarrow> [d] | _ \<Rightarrow> [])"
      using read_guard_block by blast
    with read_sync_effect [OF assms(1,2)] assms(4) Act_read_guard show ?thesis by simp
  next
    case False
    with assms(2,3) Act_read_guard show ?thesis
      by (auto simp: py_read_guard_def check_read_permission_def intro: leaves_same)
  qed
next
  case (Act_write_guard bs)
  with write_guard_effect [OF assms(1,2)] assms(3,4) show ?thesis by simp
next
  case Act_stop
  with assms(3) have "h1 = close_sender h" "m1 = stop m" "got = []" by (simp_all add: py_stop_def)
  with close_sender_frame [OF assms(2)] show ?thesis
    by (simp add: leaves_def last_taken_def rx_open_def pending_def cong: option.case_cong)
next
  case (Act_writer_thread j)
  with assms(3) obtain es where "writer_thread_step j [] h m = Some (h1, m1, es)" "got = []"
    by (auto split: option.splits)
  with writer_thread_effect [OF assms(1,2)] show ?thesis by blast
next
  case Act_reader_thread
  with assms(3) obtain es where "reader_thread_step [] h m = Some (h1, m1, es)" "got = []"
    by (auto split: option.splits)
  with reader_thread_effect [OF assms(1,2)] show ?thesis by blast
qed

section \<open>What one step does\<close>

abbreviation cur :: "system \<Rightarrow> u64" where
  "cur s \<equiv> current_sequence (sys_mem s)"

abbreviation rdr :: "system \<Rightarrow> ReadersStateCount" where
  "rdr s \<equiv> get_reader_state (sys_mem s)"

abbreviation reads :: "client \<Rightarrow> bool" where
  "reads c \<equiv> can_read (pm_mode (cl_handle c))"

text \<open>The memory up to the counters of the readers.\<close>

definition same_message :: "shared_message \<Rightarrow> shared_message \<Rightarrow> bool" where
  "same_message m m1 \<longleftrightarrow> at_peace m1 \<and> capacity m1 = capacity m \<and> current_sequence m1 = current_sequence m \<and>
     payload m1 = payload m"

lemma same_message_abs:
  assumes "abs_channel m1 = (abs_channel m)\<lparr>ch_readers := r, ch_stopped := b\<rparr>" "quiescent m1"
    and "at_peace m" "active_readers r = 0"
  shows "same_message m m1"
proof -
  note m1 = abs_eqD [OF assms(1)]
  have "at_peace m1" using assms(2-4) m1 by (simp add: at_peace_def abs_channel_sel)
  with m1 assms(1,3) show ?thesis
    by (simp add: same_message_def at_peace_payload capacity_def abs_channel_sel current_sequence_def)
qed

lemma consume_same:
  assumes "at_peace m"
  shows "same_message m (consume m)"
    "get_reader_state (consume m) = (get_reader_state m)\<lparr>data_consumed := data_consumed (get_reader_state m) + 1\<rparr>"
proof -
  have "abs_channel m = (abs_channel m)\<lparr>ch_stopped := ch_stopped (abs_channel m)\<rparr>" by simp
  with consume_effect(1) [of m] have "abs_channel (consume m) = (abs_channel m)\<lparr>ch_readers :=
      (get_reader_state m)\<lparr>data_consumed := data_consumed (get_reader_state m) + 1\<rparr>,
      ch_stopped := ch_stopped (abs_channel m)\<rparr>" by simp
  moreover have "quiescent (consume m)" using assms consume_effect(2) by (simp add: at_peace_def)
  ultimately show "same_message m (consume m)"
    by (rule same_message_abs [OF _ _ assms]) (use assms in \<open>simp add: at_peace_def\<close>)
  show "get_reader_state (consume m) = (get_reader_state m)\<lparr>data_consumed := data_consumed (get_reader_state m) + 1\<rparr>"
    using abs_eqD(4) [OF consume_effect(1) [of m]] by simp
qed

lemma stop_same:
  assumes "at_peace m"
  shows "same_message m (stop m)" "get_reader_state (stop m) = get_reader_state m"
proof -
  have "abs_channel (stop m) = (abs_channel m)\<lparr>ch_readers := get_reader_state m, ch_stopped := True\<rparr>"
    by (simp add: stop_refines abs_channel_sel(4) [symmetric])
  moreover have "quiescent (stop m)" using assms
    by (simp add: at_peace_def quiescent_def wf_message_def stop_def notify_reader_done_condvar_def notify_writer_condvar_def)
  ultimately show "same_message m (stop m)"
    by (rule same_message_abs [OF _ _ assms]) (use assms in \<open>simp add: at_peace_def\<close>)
  show "get_reader_state (stop m) = get_reader_state m"
    using abs_eqD(4) [OF stop_refines [of m]] by (simp add: abs_channel_sel)
qed

lemma registration_same:
  assumes "at_peace m" "mutate mu (get_reader_state m) = Inr r" "active_readers r = 0"
  shows "same_message m (snd (reader_registration mu m))" "get_reader_state (snd (reader_registration mu m)) = r"
proof -
  let ?m1 = "snd (reader_registration mu m)"
  have m1: "?m1 = m\<lparr>readers_state := ReadersStateCount_to_packed r\<rparr>"
    using assms(2) by (simp add: reader_registration_def update_reader_state_eq)
  then have "abs_channel ?m1 = (abs_channel m)\<lparr>ch_readers := r, ch_stopped := ch_stopped (abs_channel m)\<rparr>"
    by (simp add: abs_channel_readers)
  moreover have "quiescent ?m1" using m1 assms(1) by (simp add: at_peace_def quiescent_def wf_message_def)
  ultimately show "same_message m ?m1" by (rule same_message_abs [OF _ _ assms(1,3)])
  show "get_reader_state ?m1 = r" using m1 by (simp add: get_reader_state_def packed_simps)
qed

lemma open_effect:
  assumes "at_peace m" "PythonSharedMessage_new nm mode m = (Py_ok h, m1)"
  shows "same_message m m1"
    "\<exists>n. get_reader_state m1 = (get_reader_state m)\<lparr>consumers := n\<rparr> \<and>
       unat n = unat (consumers (get_reader_state m)) + of_bool (can_read mode)"
    "pm_mode h = mode" "last_taken h = 0" "rx_open h" "pending h = []" "handle_ok cap h"
proof -
  let ?r = "get_reader_state m"
  have h: "pm_mode h = mode" "pm_writers h = []" "pm_sender h = None" "last_read_sequence h = 0"
    "pm_receiver h = (if mode = ReadAsync then Some \<lparr>rt_chan = new_chan, rt_last = 0\<rparr> else None)"
    using assms(2) by (auto simp: PythonSharedMessage_new_def Let_def split: if_splits prod.splits outcome.splits)
  then show "pm_mode h = mode" "last_taken h = 0" "rx_open h" "pending h = []" "handle_ok cap h"
    by (auto simp: last_taken_def rx_open_def pending_def handle_ok_def new_chan_def)
  have "same_message m m1 \<and> (\<exists>n. get_reader_state m1 = ?r\<lparr>consumers := n\<rparr> \<and> unat n = unat (consumers ?r) + of_bool (can_read mode))"
  proof (cases "can_read mode")
    case False
    with assms have "m1 = m" by (simp add: PythonSharedMessage_new_def Let_def)
    with False assms(1) show ?thesis by (auto simp: same_message_def intro!: exI [of _ "consumers ?r"])
  next
    case True
    with assms(2) have add: "m1 = snd (reader_registration Add_reader m)" "consumers ?r \<noteq> 65535"
      by (auto simp: PythonSharedMessage_new_def add_reader_def reader_registration_def update_reader_state_eq Let_def
          split: if_splits prod.splits outcome.splits)
    have "consumers ?r + 1 \<noteq> 0"
    proof
      assume "consumers ?r + 1 = 0"
      then have "consumers ?r = - 1" by (simp add: eq_neg_iff_add_eq_0)
      with add(2) show False by simp
    qed
    then have "unat (consumers ?r + 1) = unat (consumers ?r) + 1"
      using unatSuc [of "consumers ?r"] by (simp add: add.commute)
    with registration_same [OF assms(1), of Add_reader "?r\<lparr>consumers := consumers ?r + 1\<rparr>"] add True assms(1)
    show ?thesis by (auto simp: at_peace_def)
  qed
  then show "same_message m m1" "\<exists>n. get_reader_state m1 = ?r\<lparr>consumers := n\<rparr> \<and>
      unat n = unat (consumers ?r) + of_bool (can_read mode)" by simp_all
qed

lemma drop_effect:
  assumes "at_peace m" "handle_ok cap h" "py_drop h m = (Py_ok h1, m1)"
  shows "same_message m m1"
    "\<exists>n. get_reader_state m1 = (get_reader_state m)\<lparr>consumers := n\<rparr> \<and>
       unat n + of_bool (can_read (pm_mode h)) = unat (consumers (get_reader_state m))"
    "pm_mode h1 = pm_mode h" "last_taken h1 = last_taken h" "handle_ok cap h1"
proof -
  let ?r = "get_reader_state m"
  let ?h = "(close_sender h)\<lparr>pm_receiver := map_option (\<lambda>rt. rt\<lparr>rt_chan := close_receiver (rt_chan rt)\<rparr>) (pm_receiver h)\<rparr>"
  have h1: "h1 = ?h"
    using assms(3) by (auto simp: py_drop_def Let_def split: if_splits prod.splits outcome.splits)
  show "pm_mode h1 = pm_mode h" "last_taken h1 = last_taken h" "handle_ok cap h1"
    using close_sender_frame [OF assms(2)] unfolding h1
    by (auto simp: last_taken_def handle_ok_def split: option.splits)
  have "same_message m m1 \<and> (\<exists>n. get_reader_state m1 = ?r\<lparr>consumers := n\<rparr> \<and>
      unat n + of_bool (can_read (pm_mode h)) = unat (consumers ?r))"
  proof (cases "can_read (pm_mode h)")
    case False
    with assms have "m1 = m" by (simp add: py_drop_def Let_def)
    with False assms(1) show ?thesis by (auto simp: same_message_def intro!: exI [of _ "consumers ?r"])
  next
    case True
    with assms(3) have rem: "m1 = snd (reader_registration Remove_reader m)" "consumers ?r \<noteq> 0"
      by (auto simp: py_drop_def remove_reader_def reader_registration_def update_reader_state_eq Let_def
          split: if_splits prod.splits outcome.splits)
    have "unat (consumers ?r - 1) + 1 = unat (consumers ?r)"
      using rem(2) unatSuc [of "consumers ?r - 1"] by simp
    with registration_same [OF assms(1), of Remove_reader "?r\<lparr>consumers := consumers ?r - 1\<rparr>"] rem True assms(1)
    show ?thesis by (auto simp: at_peace_def)
  qed
  then show "same_message m m1" "\<exists>n. get_reader_state m1 = ?r\<lparr>consumers := n\<rparr> \<and>
      unat n + of_bool (can_read (pm_mode h)) = unat (consumers ?r)" by simp_all
qed

definition sys_ok :: "system \<Rightarrow> bool" where
  "sys_ok s \<longleftrightarrow> at_peace (sys_mem s) \<and> (\<forall>c \<in> set (sys_clients s). handle_ok (capacity (sys_mem s)) (cl_handle c))"

text \<open>Client \<open>i\<close> of the new state, all others being as they were.\<close>

definition only_client :: "nat \<Rightarrow> system \<Rightarrow> client \<Rightarrow> system \<Rightarrow> bool" where
  "only_client i s c s' \<longleftrightarrow> i < length (sys_clients s) \<and> sys_clients s' = (sys_clients s)[i := c] \<and>
     cl_open c = cl_open (sys_clients s ! i) \<and> reads c = reads (sys_clients s ! i) \<and>
     cl_since c = cl_since (sys_clients s ! i)"

lemma sys_step_cases [consumes 2, case_names Open Drop Publish Take Leave]:
  assumes "sys_ok s" "sys_step s s'"
  obtains
    (Open) h n where "sys_clients s' = sys_clients s @ [new_client (length (sys_log s)) h]"
      "sys_log s' = sys_log s" "same_message (sys_mem s) (sys_mem s')" "rdr s' = (rdr s)\<lparr>consumers := n\<rparr>"
      "unat n = unat (consumers (rdr s)) + of_bool (can_read (pm_mode h))"
      "last_taken h = 0" "rx_open h" "pending h = []" "handle_ok (capacity (sys_mem s)) h"
  | (Drop) i h n where "i < length (sys_clients s)" "cl_open (sys_clients s ! i)"
      "sys_clients s' = (sys_clients s)[i := (sys_clients s ! i)\<lparr>cl_handle := h, cl_open := False\<rparr>]"
      "sys_log s' = sys_log s" "same_message (sys_mem s) (sys_mem s')" "rdr s' = (rdr s)\<lparr>consumers := n\<rparr>"
      "unat n + of_bool (reads (sys_clients s ! i)) = unat (consumers (rdr s))"
      "pm_mode h = pm_mode (cl_handle (sys_clients s ! i))" "last_taken h = last_taken (cl_handle (sys_clients s ! i))"
      "handle_ok (capacity (sys_mem s)) h"
  | (Publish) i h where "only_client i s ((sys_clients s ! i)\<lparr>cl_handle := h\<rparr>) s'"
      "sys_log s' = sys_log s @ [(cur s', payload (sys_mem s'))]" "cur s' = next_sequence (cur s)"
      "\<not> unread (sys_mem s)" "at_peace (sys_mem s')" "capacity (sys_mem s') = capacity (sys_mem s)"
      "rdr s' = (rdr s)\<lparr>data_consumed := 0\<rparr>"
      "last_taken h = last_taken (cl_handle (sys_clients s ! i))" "pm_receiver h = pm_receiver (cl_handle (sys_clients s ! i))"
      "handle_ok (capacity (sys_mem s)) h"
  | (Take) i h got where "only_client i s ((sys_clients s ! i)\<lparr>cl_handle := h,
        cl_taken := cl_taken (sys_clients s ! i) @ [(cur s, payload (sys_mem s))],
        cl_got := cl_got (sys_clients s ! i) @ got\<rparr>) s'"
      "sys_log s' = sys_log s" "same_message (sys_mem s) (sys_mem s')"
      "rdr s' = (rdr s)\<lparr>data_consumed := data_consumed (rdr s) + 1\<rparr>"
      "takes_from (cl_handle (sys_clients s ! i)) (sys_mem s) h (sys_mem s') got" "handle_ok (capacity (sys_mem s)) h"
  | (Leave) i h got where "only_client i s ((sys_clients s ! i)\<lparr>cl_handle := h,
        cl_got := cl_got (sys_clients s ! i) @ got\<rparr>) s'"
      "sys_log s' = sys_log s" "same_message (sys_mem s) (sys_mem s')" "rdr s' = rdr s"
      "leaves (cl_handle (sys_clients s ! i)) (sys_mem s) h (sys_mem s') got" "handle_ok (capacity (sys_mem s)) h"
proof -
  have peace: "at_peace (sys_mem s)" using assms(1) by (simp add: sys_ok_def)
  have ok: "handle_ok (capacity (sys_mem s)) (cl_handle (sys_clients s ! i))" if "i < length (sys_clients s)" for i
    using assms(1) that nth_mem by (simp add: sys_ok_def)
  from assms(2) show ?thesis
  proof (cases rule: sys_step.cases)
    case (sys_open nm mode h m1)
    note effect = open_effect [OF peace sys_open(2)]
    from effect(2) obtain n where "get_reader_state m1 = (rdr s)\<lparr>consumers := n\<rparr>"
      "unat n = unat (consumers (rdr s)) + of_bool (can_read mode)" by blast
    with effect sys_open(1) Open [of h n] show ?thesis by simp
  next
    case (sys_drop i h1 m1)
    note effect = drop_effect [OF peace ok [OF sys_drop(2)] sys_drop(4)]
    from effect(2) obtain n where "get_reader_state m1 = (rdr s)\<lparr>consumers := n\<rparr>"
      "unat n + of_bool (reads (sys_clients s ! i)) = unat (consumers (rdr s))" by blast
    with effect sys_drop Drop [of i h1 n] show ?thesis by simp
  next
    case (sys_act i a h1 m1 got)
    let ?c = "sys_clients s ! i"
    have effect: "does_something (cl_handle ?c) (sys_mem s) h1 m1 got"
      using act_effect [OF peace ok [OF sys_act(2)] sys_act(5) sys_act(4)] .
    have only: "only_client i s (note_client (sys_mem s) h1 got ?c) s'"
      using effect sys_act(1,2) by (simp add: only_client_def after_act_def note_client_def)
    have m1: "sys_mem s' = m1" "sys_log s' = note_log (sys_mem s) m1 (sys_log s)"
      using sys_act(1) by (simp_all add: after_act_def)
    from effect consider (P) "publishes_to (cl_handle ?c) (sys_mem s) h1 m1 got"
      | (T) "takes_from (cl_handle ?c) (sys_mem s) h1 m1 got" | (L) "leaves (cl_handle ?c) (sys_mem s) h1 m1 got"
      by blast
    then show ?thesis
    proof cases
      case P
      then have "note_client (sys_mem s) h1 got ?c = ?c\<lparr>cl_handle := h1\<rparr>"
        by (simp add: note_client_def publishes_to_def)
      moreover have "current_sequence m1 \<noteq> cur s"
        using P next_sequence_neq [OF current_sequence_masked] by (simp add: publishes_to_def)
      ultimately show ?thesis
        using P only m1 effect Publish [where i = i and h = h1] by (simp add: publishes_to_def note_log_def)
    next
      case T
      then have "note_client (sys_mem s) h1 got ?c = ?c\<lparr>cl_handle := h1,
          cl_taken := cl_taken ?c @ [(cur s, payload (sys_mem s))], cl_got := cl_got ?c @ got\<rparr>"
        by (auto simp: note_client_def takes_from_def)
      with T only m1 effect consume_same [OF peace] Take [where i = i and h = h1 and got = got] show ?thesis
        by (simp add: takes_from_def note_log_def same_message_def)
    next
      case L
      then have "note_client (sys_mem s) h1 got ?c = ?c\<lparr>cl_handle := h1, cl_got := cl_got ?c @ got\<rparr>"
        by (simp add: note_client_def leaves_def)
      moreover have "same_message (sys_mem s) m1" "get_reader_state m1 = rdr s"
        using L stop_same [OF peace] peace by (auto simp: leaves_def same_message_def)
      ultimately show ?thesis
        using L only m1 effect Leave [where i = i and h = h1 and got = got] by (simp add: note_log_def same_message_def)
    qed
  qed
qed

lemma sys_ok_step:
  assumes "sys_ok s" "sys_step s s'"
  shows "sys_ok s'"
  using assms(1,2)
proof (cases rule: sys_step_cases)
  case Open
  then show ?thesis using assms(1) by (auto simp: sys_ok_def same_message_def new_client_def)
next
  case Drop
  then show ?thesis using assms(1)
    by (auto simp: sys_ok_def same_message_def dest!: in_set_updateD)
next
  case Publish
  then show ?thesis using assms(1)
    by (auto simp: sys_ok_def only_client_def dest!: in_set_updateD)
next
  case Take
  then show ?thesis using assms(1)
    by (auto simp: sys_ok_def same_message_def only_client_def dest!: in_set_updateD)
next
  case Leave
  then show ?thesis using assms(1)
    by (auto simp: sys_ok_def same_message_def only_client_def dest!: in_set_updateD)
qed

end
