(* ===== verification/Python_Delivery.thy ===== *)
theory Python_Delivery
  imports Python_System "HOL-Library.Sublist"
begin

text \<open>
  The guarantees of the whole library for the handles that share a message, by invariants of the
  histories of \<open>Python_System\<close>, in which calls do not overlap: every registered reader gets every message
  exactly once and in order, the writer waits for as many readers as the policy asks for, and the
  circumstances under which both fail: the drop of a reading handle, \<open>read_all\<close> on a handle opened for
  writing, and a read guard on a handle with a reader thread.
\<close>

section \<open>Invariants\<close>

lemma sys_initial_facts:
  assumes "sys_initial policy s"
  shows "at_peace (sys_mem s)" "cur s = 0" "sys_clients s = []" "sys_log s = []"
    "rdr s = \<lparr>target_read = to_count policy, consumers = 0, active_readers = 0, data_consumed = 0\<rparr>"
proof -
  from assms obtain n where n: "n < 2 ^ 64"
    "sys_mem s = fst (snd (set_target_read_count (to_count policy) [] (fresh_message n)))"
    by (auto simp: sys_initial_def)
  note m = configured_memory [OF n(1), of "to_count policy", folded n(2)]
  have "\<not> writing_in_progress (get_sequence_state (sys_mem s))"
  proof -
    obtain r es where run: "set_target_read_count (to_count policy) [] (fresh_message n) = (r, sys_mem s, es)"
      unfolding n(2) by (metis prod.collapse)
    have "writer_mutex (fresh_message n) = UNLOCKED" by (simp add: fresh_message_def UNLOCKED_def)
    from set_target_refines [OF this run] have "ch_writing (abs_channel (sys_mem s)) = False" by (simp add: abs_fresh)
    then show ?thesis by (simp add: abs_channel_sel)
  qed
  with m show "at_peace (sys_mem s)" by (simp add: at_peace_def)
  show "cur s = 0" "rdr s = \<lparr>target_read = to_count policy, consumers = 0, active_readers = 0, data_consumed = 0\<rparr>"
    using m by simp_all
  show "sys_clients s = []" "sys_log s = []" using assms by (simp_all add: sys_initial_def)
qed

lemma sys_ok_reach: "sys_reach policy s \<Longrightarrow> sys_ok s"
proof (erule sr.invariant_rule)
  show "sys_ok s" if "sys_initial policy s" for s using sys_initial_facts [OF that] by (simp add: sys_ok_def)
qed (rule sys_ok_step)

text \<open>Counting clients.\<close>

abbreviation count :: "('a \<Rightarrow> bool) \<Rightarrow> 'a list \<Rightarrow> nat" where
  "count P xs \<equiv> length (filter P xs)"

lemma count_update:
  "i < length xs \<Longrightarrow> count P (xs[i := x]) + of_bool (P (xs ! i)) = count P xs + of_bool (P x)"
proof (induction xs arbitrary: i)
  case (Cons y ys)
  then show ?case by (cases i) auto
qed simp

lemma count_all: "count P xs = count Q xs \<Longrightarrow> (\<And>x. P x \<Longrightarrow> Q x) \<Longrightarrow> x \<in> set xs \<Longrightarrow> Q x \<Longrightarrow> P x"
proof (induction xs)
  case (Cons y ys)
  have "count P ys \<le> count Q ys" using Cons.prems(2) by (induction ys) auto
  with Cons show ?case by (cases "P y"; cases "Q y") auto
qed simp

abbreviation listed :: "client \<Rightarrow> bool" where
  "listed c \<equiv> cl_open c \<and> reads c"

lemma consumers_reach:
  assumes "sys_reach policy s"
  shows "target_read (rdr s) = to_count policy \<and> unat (consumers (rdr s)) = count listed (sys_clients s)"
  using assms
proof (rule sr.reach_rule)
  show "target_read (rdr s) = to_count policy \<and> unat (consumers (rdr s)) = count listed (sys_clients s)"
    if "sys_initial policy s" for s
    using sys_initial_facts [OF that] by simp
  show "target_read (rdr s') = to_count policy \<and> unat (consumers (rdr s')) = count listed (sys_clients s')"
    if reach: "sys_reach policy s" and inv: "target_read (rdr s) = to_count policy \<and>
      unat (consumers (rdr s)) = count listed (sys_clients s)" and step: "sys_step s s'" for s s'
    using sys_ok_reach [OF reach] step
  proof (cases rule: sys_step_cases)
    case (Open h n)
    with inv show ?thesis by (simp add: new_client_def)
  next
    case (Drop i h n)
    with inv count_update [OF Drop(1), of listed "(sys_clients s ! i)\<lparr>cl_handle := h, cl_open := False\<rparr>"]
    show ?thesis by simp
  next
    case (Publish i h)
    with inv count_update [of i "sys_clients s" listed "(sys_clients s ! i)\<lparr>cl_handle := h\<rparr>"]
    show ?thesis by (simp add: only_client_def)
  next
    case (Take i h got)
    with inv count_update [of i "sys_clients s" listed "(sys_clients s ! i)\<lparr>cl_handle := h,
        cl_taken := cl_taken (sys_clients s ! i) @ [(cur s, payload (sys_mem s))],
        cl_got := cl_got (sys_clients s ! i) @ got\<rparr>"]
    show ?thesis by (simp add: only_client_def)
  next
    case (Leave i h got)
    with inv count_update [of i "sys_clients s" listed "(sys_clients s ! i)\<lparr>cl_handle := h,
        cl_got := cl_got (sys_clients s ! i) @ got\<rparr>"]
    show ?thesis by (simp add: only_client_def)
  qed
qed

text \<open>The log of the publications and the memory.\<close>

definition log_ok :: "system \<Rightarrow> bool" where
  "log_ok s \<longleftrightarrow> cur s = (next_sequence ^^ length (sys_log s)) 0 \<and>
     (sys_log s \<noteq> [] \<longrightarrow> last (sys_log s) = (cur s, payload (sys_mem s)))"

lemma log_ok_reach: "sys_reach policy s \<Longrightarrow> log_ok s"
proof (erule sr.reach_rule)
  show "log_ok s" if "sys_initial policy s" for s
    using sys_initial_facts [OF that] by (simp add: log_ok_def)
  show "log_ok s'" if reach: "sys_reach policy s" and inv: "log_ok s" and step: "sys_step s s'" for s s'
    using sys_ok_reach [OF reach] step
    by (cases rule: sys_step_cases) (use inv in \<open>auto simp: log_ok_def same_message_def\<close>)
qed

text \<open>What a client has taken: in the order of publication, the last one if and only if it holds its number.\<close>

definition so_far :: "system \<Rightarrow> PythonSharedMessage \<Rightarrow> (u64 \<times> bytes) list" where
  "so_far s h = (if last_taken h = cur s then sys_log s else butlast (sys_log s))"

definition client_ok :: "system \<Rightarrow> client \<Rightarrow> bool" where
  "client_ok s c \<longleftrightarrow>
     (\<exists>k \<le> length (sys_log s). last_taken (cl_handle c) = (next_sequence ^^ k) 0) \<and>
     cl_since c \<le> length (sys_log s) \<and>
     subseq (cl_taken c) (so_far s (cl_handle c)) \<and>
     (cl_open c \<longrightarrow> rx_open (cl_handle c) \<and> cl_got c @ pending (cl_handle c) = map snd (cl_taken c))"

lemma so_far_log: "\<exists>rest. sys_log s = so_far s h @ rest"
  by (cases "sys_log s" rule: rev_cases) (auto simp: so_far_def)

lemma so_far_publish:
  assumes "sys_log s' = sys_log s @ [x]"
  shows "\<exists>rest. so_far s' h = so_far s h @ rest"
proof -
  obtain rest where "sys_log s = so_far s h @ rest" using so_far_log by blast
  moreover have "so_far s' h = sys_log s @ [x] \<or> so_far s' h = sys_log s" using assms by (simp add: so_far_def)
  ultimately show ?thesis by auto
qed

lemma client_ok_frame:
  "cur s' = cur s \<Longrightarrow> sys_log s' = sys_log s \<Longrightarrow> client_ok s' c = client_ok s c"
  by (simp add: client_ok_def so_far_def)

lemma client_ok_publish:
  assumes "client_ok s c" "sys_log s' = sys_log s @ [x]"
  shows "client_ok s' c"
proof -
  obtain rest where "so_far s' (cl_handle c) = so_far s (cl_handle c) @ rest"
    using so_far_publish [OF assms(2)] by blast
  with assms show ?thesis by (auto simp: client_ok_def intro: le_SucI)
qed

text \<open>A client that has not taken the current message can take it, and only then.\<close>

lemma log_nonempty:
  assumes "log_ok s" "client_ok s c" "last_taken (cl_handle c) \<noteq> cur s"
  shows "sys_log s = butlast (sys_log s) @ [(cur s, payload (sys_mem s))]"
proof -
  have "sys_log s \<noteq> []" using assms by (auto simp: log_ok_def client_ok_def)
  with assms(1) show ?thesis by (metis append_butlast_last_id log_ok_def)
qed

lemma client_ok_take:
  assumes log: "log_ok s" and ok: "client_ok s c" and takes: "takes_from (cl_handle c) (sys_mem s) h m1 got"
  shows "client_ok s (c\<lparr>cl_handle := h, cl_taken := cl_taken c @ [(cur s, payload (sys_mem s))], cl_got := cl_got c @ got\<rparr>)"
    (is "client_ok s ?c")
proof -
  have h: "last_taken h = cur s" "last_taken (cl_handle c) \<noteq> cur s" using takes by (simp_all add: takes_from_def)
  from log_nonempty [OF log ok h(2)] have "so_far s h = so_far s (cl_handle c) @ [(cur s, payload (sys_mem s))]"
    using h by (simp add: so_far_def)
  moreover have "subseq (cl_taken c) (so_far s (cl_handle c))" using ok by (simp add: client_ok_def)
  ultimately have "subseq (cl_taken ?c) (so_far s (cl_handle ?c))" by (simp add: list_emb_append_mono)
  moreover have "\<exists>k \<le> length (sys_log s). last_taken (cl_handle ?c) = (next_sequence ^^ k) 0"
    using log h(1) by (auto simp: log_ok_def)
  moreover have "cl_got ?c @ pending (cl_handle ?c) = map snd (cl_taken ?c)" if "cl_open c"
  proof -
    have "rx_open (cl_handle c)" "cl_got c @ pending (cl_handle c) = map snd (cl_taken c)"
      using ok that by (simp_all add: client_ok_def)
    moreover from this takes have "got @ pending h = pending (cl_handle c) @ [payload (sys_mem s)]"
      by (simp add: takes_from_def)
    ultimately show ?thesis by simp
  qed
  ultimately show ?thesis using ok takes by (simp add: client_ok_def takes_from_def)
qed

lemma client_ok_leave:
  assumes "client_ok s c" "leaves (cl_handle c) (sys_mem s) h m1 got"
  shows "client_ok s (c\<lparr>cl_handle := h, cl_got := cl_got c @ got\<rparr>)"
  using assms by (auto simp: client_ok_def leaves_def so_far_def)

lemma clients_ok_reach: "sys_reach policy s \<Longrightarrow> \<forall>c \<in> set (sys_clients s). client_ok s c"
proof (erule sr.reach_rule)
  show "\<forall>c \<in> set (sys_clients s). client_ok s c" if "sys_initial policy s" for s
    using sys_initial_facts [OF that] by simp
  show "\<forall>c \<in> set (sys_clients s'). client_ok s' c"
    if reach: "sys_reach policy s" and inv: "\<forall>c \<in> set (sys_clients s). client_ok s c" and step: "sys_step s s'"
    for s s'
  proof -
    have at: "client_ok s (sys_clients s ! i)" if "i < length (sys_clients s)" for i using inv that by simp
    have upd: "\<forall>c \<in> set ((sys_clients s)[i := c']). client_ok s' c"
      if "client_ok s' c'" "\<forall>c \<in> set (sys_clients s). client_ok s' c" for i c'
      using that by (auto dest!: in_set_updateD)
    have frame: "client_ok s' c = client_ok s c" if "same_message (sys_mem s) (sys_mem s')" "sys_log s' = sys_log s" for c
      using that by (intro client_ok_frame) (simp_all add: same_message_def)
    show ?thesis
      using sys_ok_reach [OF reach] step
    proof (cases rule: sys_step_cases)
      case (Open h n)
      then have "client_ok s (new_client (length (sys_log s)) h)" by (auto simp: client_ok_def new_client_def)
      with Open(1) inv frame [OF Open(3,2)] show ?thesis by simp
    next
      case (Drop i h n)
      from at [OF Drop(1)] Drop(9) have "client_ok s ((sys_clients s ! i)\<lparr>cl_handle := h, cl_open := False\<rparr>)"
        by (simp add: client_ok_def so_far_def)
      with Drop(3) inv frame [OF Drop(5,4)] upd show ?thesis by simp
    next
      case (Publish i h)
      then have i: "i < length (sys_clients s)" "sys_clients s' = (sys_clients s)[i := (sys_clients s ! i)\<lparr>cl_handle := h\<rparr>]"
        by (simp_all add: only_client_def)
      from at [OF i(1)] Publish(8,9) have "client_ok s ((sys_clients s ! i)\<lparr>cl_handle := h\<rparr>)"
        by (simp add: client_ok_def so_far_def rx_open_def pending_def)
      from upd [OF client_ok_publish [OF this Publish(2)]] i(2) inv client_ok_publish [OF _ Publish(2)]
      show ?thesis by simp
    next
      case (Take i h got)
      from at client_ok_take [OF log_ok_reach [OF reach] _ Take(5)] Take(1) inv frame [OF Take(3,2)] upd show ?thesis
        by (simp add: only_client_def)
    next
      case (Leave i h got)
      from at client_ok_leave [OF _ Leave(5)] Leave(1) inv frame [OF Leave(3,2)] upd show ?thesis
        by (simp add: only_client_def)
    qed
  qed
qed

section \<open>Counting the readers of a message\<close>

text \<open>No handle that reads has been dropped, and no handle opened for writing has read through \<open>read_all\<close>.\<close>

abbreviation kept :: "client \<Rightarrow> bool" where
  "kept c \<equiv> (reads c \<longrightarrow> cl_open c) \<and> (\<not> reads c \<longrightarrow> cl_taken c = [])"

definition all_kept :: "system \<Rightarrow> bool" where
  "all_kept s \<longleftrightarrow> (\<forall>c \<in> set (sys_clients s). kept c)"

text \<open>A client that has taken the current message.\<close>

abbreviation caught_up :: "system \<Rightarrow> client \<Rightarrow> bool" where
  "caught_up s c \<equiv> reads c \<and> last_taken (cl_handle c) = cur s"

lemma all_kept_nth: "all_kept s \<longleftrightarrow> (\<forall>i < length (sys_clients s). kept (sys_clients s ! i))"
  by (auto simp: all_kept_def all_set_conv_all_nth)

lemma kept_only:
  "only_client i s c s' \<Longrightarrow> all_kept s' \<Longrightarrow> cl_taken c = cl_taken (sys_clients s ! i) @ xs \<Longrightarrow> all_kept s"
  by (auto simp: all_kept_nth only_client_def nth_list_update split: if_splits)

lemma kept_client:
  assumes "only_client i s c s'" "all_kept s'"
  shows "kept c"
proof -
  from assms(1) have "c \<in> set (sys_clients s')" by (simp add: only_client_def set_update_memI)
  with assms(2) show ?thesis by (simp add: all_kept_def)
qed

lemma kept_before:
  assumes "sys_ok s" "sys_step s s'" "all_kept s'"
  shows "all_kept s"
  using assms(1,2)
proof (cases rule: sys_step_cases)
  case (Open h n)
  with assms(3) show ?thesis by (simp add: all_kept_def)
next
  case (Drop i h n)
  with assms(3) show ?thesis by (auto simp: all_kept_nth nth_list_update split: if_splits)
next
  case (Publish i h)
  then show ?thesis using kept_only [OF Publish(1) assms(3)] by simp
next
  case (Take i h got)
  then show ?thesis using kept_only [OF Take(1) assms(3)] by simp
next
  case (Leave i h got)
  then show ?thesis using kept_only [OF Leave(1) assms(3)] by simp
qed

lemma fresh_number:
  assumes "log_ok s" "client_ok s c" "Suc (length (sys_log s)) < 2 ^ 62"
  shows "last_taken (cl_handle c) \<noteq> next_sequence (cur s)"
proof -
  from assms(2) obtain k where k: "k \<le> length (sys_log s)" "last_taken (cl_handle c) = (next_sequence ^^ k) 0"
    by (auto simp: client_ok_def)
  have "next_sequence (cur s) = (next_sequence ^^ Suc (length (sys_log s))) 0" using assms(1) by (simp add: log_ok_def)
  also have "\<dots> = of_nat (Suc (length (sys_log s)))" using assms(3) by (rule sequence_iterates)
  finally have "unat (next_sequence (cur s)) = Suc (length (sys_log s))"
    using assms(3) unat_of_nat_u64 [of "Suc (length (sys_log s))"] by simp
  moreover have "unat (last_taken (cl_handle c)) = k"
    using k assms(3) sequence_iterates [of k] unat_of_nat_u64 [of k] by simp
  ultimately show ?thesis using k(1) by auto
qed

lemma current_nonzero:
  assumes "log_ok s" "sys_log s \<noteq> []"
  shows "cur s \<noteq> 0"
proof -
  obtain n where "length (sys_log s) = Suc n" using assms(2) by (cases "length (sys_log s)") auto
  then show ?thesis using assms(1) next_sequence_nonzero by (simp add: log_ok_def)
qed

lemma unat_u16: "unat (w :: u16) < 65536"
  using unsigned_less [of w] by simp

lemma count_mono: "(\<And>x. x \<in> set xs \<Longrightarrow> P x \<Longrightarrow> Q x) \<Longrightarrow> count P xs \<le> count Q xs"
  by (induction xs) auto

definition consumed_exact :: "system \<Rightarrow> bool" where
  "consumed_exact s \<longleftrightarrow> (sys_log s \<noteq> [] \<longrightarrow> unat (data_consumed (rdr s)) = count (caught_up s) (sys_clients s))"

lemma consumed_take:
  assumes reach: "sys_reach policy s" "sys_reach policy s'" and kept: "all_kept s'"
    and only: "only_client i s c s'" and c: "last_taken (cl_handle c) = cur s" "reads c"
    and old: "last_taken (cl_handle (sys_clients s ! i)) \<noteq> cur s"
    and mem: "cur s' = cur s" "rdr s' = (rdr s)\<lparr>data_consumed := data_consumed (rdr s) + 1\<rparr>" "sys_log s' = sys_log s"
    and inv: "consumed_exact s"
  shows "consumed_exact s'"
  unfolding consumed_exact_def
proof
  assume "sys_log s' \<noteq> []"
  with mem inv have dc: "unat (data_consumed (rdr s)) = count (caught_up s) (sys_clients s)"
    by (simp add: consumed_exact_def)
  have i: "i < length (sys_clients s)" "sys_clients s' = (sys_clients s)[i := c]"
    using only by (simp_all add: only_client_def)
  from count_update [OF i(1), of "caught_up s" c] c old
  have more: "count (caught_up s) (sys_clients s') = Suc (count (caught_up s) (sys_clients s))" by (simp add: i(2))
  have "count (caught_up s) (sys_clients s') \<le> count listed (sys_clients s')"
    using kept by (intro count_mono) (auto simp: all_kept_def)
  also have "\<dots> < 65536" using consumers_reach [OF reach(2)] unat_u16 [of "consumers (rdr s')"] by simp
  finally have "unat (data_consumed (rdr s) + 1) = Suc (count (caught_up s) (sys_clients s))"
    using dc more by (intro unat_inc_u16) simp_all
  with more mem show "unat (data_consumed (rdr s')) = count (caught_up s') (sys_clients s')" by simp
qed

lemma consumed_exact_reach:
  assumes "sys_reach policy s"
  shows "all_kept s \<longrightarrow> length (sys_log s) < 2 ^ 62 \<longrightarrow> consumed_exact s"
  using assms
proof (rule sr.reach_rule)
  show "all_kept s \<longrightarrow> length (sys_log s) < 2 ^ 62 \<longrightarrow> consumed_exact s" if "sys_initial policy s" for s
    using sys_initial_facts [OF that] by (simp add: consumed_exact_def)
  show "all_kept s' \<longrightarrow> length (sys_log s') < 2 ^ 62 \<longrightarrow> consumed_exact s'"
    if reach: "sys_reach policy s" and ih: "all_kept s \<longrightarrow> length (sys_log s) < 2 ^ 62 \<longrightarrow> consumed_exact s"
      and step: "sys_step s s'" for s s'
  proof (intro impI)
    assume kept: "all_kept s'" and small: "length (sys_log s') < 2 ^ 62"
    note ok = sys_ok_reach [OF reach] and log = log_ok_reach [OF reach] and clients = clients_ok_reach [OF reach]
    have reach': "sys_reach policy s'" using reach step by (rule sys_reach_step)
    have before: "length (sys_log s) < 2 ^ 62 \<Longrightarrow> consumed_exact s" using ih kept_before [OF ok step kept] by blast
    show "consumed_exact s'"
      using ok step
    proof (cases rule: sys_step_cases)
      case (Open h n)
      with before small current_nonzero [OF log] show ?thesis
        by (auto simp: consumed_exact_def new_client_def same_message_def)
    next
      case (Drop i h n)
      let ?c = "(sys_clients s ! i)\<lparr>cl_handle := h, cl_open := False\<rparr>"
      from count_update [OF Drop(1), of "caught_up s" ?c] Drop(8,9)
      have "count (caught_up s) (sys_clients s') = count (caught_up s) (sys_clients s)" by (simp add: Drop(3))
      with Drop(4-6) before small show ?thesis by (simp add: consumed_exact_def same_message_def)
    next
      case (Publish i h)
      have old: "\<forall>c \<in> set (sys_clients s). last_taken (cl_handle c) \<noteq> cur s'"
        using fresh_number [OF log] clients Publish(2,3) small by auto
      have i: "i < length (sys_clients s)" "sys_clients s' = (sys_clients s)[i := (sys_clients s ! i)\<lparr>cl_handle := h\<rparr>]"
        using Publish(1) by (simp_all add: only_client_def)
      have "\<forall>c \<in> set (sys_clients s'). last_taken (cl_handle c) \<noteq> cur s'"
        using old Publish(8) nth_mem [OF i(1)] unfolding i(2)
        by (auto dest!: in_set_updateD)
      then have "count (caught_up s') (sys_clients s') = 0" by (auto simp: filter_empty_conv)
      with Publish(7) show ?thesis by (simp add: consumed_exact_def)
    next
      case (Take i h got)
      from Take(5) have "last_taken h = cur s" "last_taken (cl_handle (sys_clients s ! i)) \<noteq> cur s"
        by (simp_all add: takes_from_def)
      moreover have "can_read (pm_mode h)" using kept_client [OF Take(1) kept] by auto
      ultimately show ?thesis
        using Take(2-4) before small
        by (intro consumed_take [OF reach reach' kept Take(1)]) (simp_all add: same_message_def)
    next
      case (Leave i h got)
      let ?c = "(sys_clients s ! i)\<lparr>cl_handle := h, cl_got := cl_got (sys_clients s ! i) @ got\<rparr>"
      have i: "i < length (sys_clients s)" "sys_clients s' = (sys_clients s)[i := ?c]" "reads ?c = reads (sys_clients s ! i)"
        using Leave(1) by (simp_all add: only_client_def)
      from count_update [OF i(1), of "caught_up s" ?c] i(3) Leave(5)
      have "count (caught_up s) (sys_clients s') = count (caught_up s) (sys_clients s)"
        by (simp add: i(2) leaves_def)
      with Leave(2-4) before small show ?thesis by (simp add: consumed_exact_def same_message_def)
    qed
  qed
qed

text \<open>
  When the writers wait for everybody, whoever is listed has taken the current message when the next one
  is published.
\<close>

lemma publication_awaits:
  assumes reach: "sys_reach policy s" and kept: "all_kept s" and small: "length (sys_log s) < 2 ^ 62"
    and log: "sys_log s \<noteq> []" and read: "\<not> unread (sys_mem s)"
  shows "min (unat (to_count policy)) (count reads (sys_clients s)) \<le> count (caught_up s) (sys_clients s)"
proof -
  have same: "filter listed (sys_clients s) = filter reads (sys_clients s)"
    using kept by (intro filter_cong) (auto simp: all_kept_def)
  have "get_target_consumed (rdr s) \<le> data_consumed (rdr s)"
    using read current_nonzero [OF log_ok_reach [OF reach] log]
    by (auto simp: unread_iff current_sequence_def not_less word_gt_0)
  then have "min (unat (target_read (rdr s))) (unat (consumers (rdr s))) \<le> unat (data_consumed (rdr s))"
    by (auto simp: get_target_consumed_def word_le_nat_alt min_def split: if_splits)
  with consumers_reach [OF reach] consumed_exact_reach [OF reach] kept small log same show ?thesis
    by (simp add: consumed_exact_def)
qed

definition complete :: "system \<Rightarrow> client \<Rightarrow> bool" where
  "complete s c \<longleftrightarrow> cl_taken c = drop (cl_since c - 1) (so_far s (cl_handle c))"

lemma complete_publish:
  assumes log: "log_ok s" and ok: "client_ok s c" and "complete s c" and small: "Suc (length (sys_log s)) < 2 ^ 62"
    and caught: "sys_log s \<noteq> [] \<longrightarrow> last_taken (cl_handle c) = cur s"
    and s': "sys_log s' = sys_log s @ [x]" "cur s' = next_sequence (cur s)"
  shows "complete s' c"
proof -
  have "so_far s (cl_handle c) = sys_log s" using caught by (auto simp: so_far_def)
  moreover have "so_far s' (cl_handle c) = sys_log s"
    using fresh_number [OF log ok small] s' by (simp add: so_far_def)
  ultimately show ?thesis using assms(3) by (simp add: complete_def)
qed

lemma complete_take:
  assumes log: "log_ok s" and ok: "client_ok s c" and "complete s c" and "takes_from (cl_handle c) (sys_mem s) h m1 got"
  shows "complete s (c\<lparr>cl_handle := h, cl_taken := cl_taken c @ [(cur s, payload (sys_mem s))], cl_got := cl_got c @ got\<rparr>)"
proof -
  have h: "last_taken h = cur s" "last_taken (cl_handle c) \<noteq> cur s" using assms(4) by (simp_all add: takes_from_def)
  note nonempty = log_nonempty [OF log ok h(2)]
  then have "so_far s h = so_far s (cl_handle c) @ [(cur s, payload (sys_mem s))]" using h by (simp add: so_far_def)
  moreover have "cl_since c - 1 \<le> length (butlast (sys_log s))" using ok by (simp add: client_ok_def diff_le_mono)
  ultimately show ?thesis using assms(3) h(2) by (simp add: complete_def so_far_def)
qed

lemma complete_frame: "cur s' = cur s \<Longrightarrow> sys_log s' = sys_log s \<Longrightarrow> complete s' c = complete s c"
  by (simp add: complete_def so_far_def)

definition readers_complete :: "system \<Rightarrow> bool" where
  "readers_complete s \<longleftrightarrow> (\<forall>c \<in> set (sys_clients s). reads c \<longrightarrow> complete s c)"

lemma complete_update:
  assumes "readers_complete s" "\<And>c. c \<in> set (sys_clients s) \<Longrightarrow> reads c \<Longrightarrow> complete s c \<Longrightarrow> complete s' c"
    and "sys_clients s' = (sys_clients s)[i := c']" "reads c' \<Longrightarrow> complete s' c'"
  shows "readers_complete s'"
  unfolding readers_complete_def
proof (intro ballI impI)
  fix c assume c: "c \<in> set (sys_clients s')" "reads c"
  then have "c = c' \<or> c \<in> set (sys_clients s)"
    using assms(3) by (auto dest!: in_set_updateD)
  with assms c(2) show "complete s' c" by (auto simp: readers_complete_def)
qed

lemma readers_complete_step:
  assumes reach: "sys_reach All s" and kept: "all_kept s" and small: "length (sys_log s') < 2 ^ 62"
    and inv: "readers_complete s" and step: "sys_step s s'"
  shows "readers_complete s'"
proof -
  note ok = sys_ok_reach [OF reach] and log = log_ok_reach [OF reach]
  have at: "reads (sys_clients s ! i) \<Longrightarrow> complete s (sys_clients s ! i)" "client_ok s (sys_clients s ! i)"
    if "i < length (sys_clients s)" for i
    using inv clients_ok_reach [OF reach] nth_mem [OF that] by (simp_all add: readers_complete_def)
  have frame: "complete s' c = complete s c" if "same_message (sys_mem s) (sys_mem s')" "sys_log s' = sys_log s" for c
    using that by (intro complete_frame) (simp_all add: same_message_def)
  show ?thesis
    using ok step
  proof (cases rule: sys_step_cases)
    case (Open h n)
    have "complete s (new_client (length (sys_log s)) h)"
    proof (cases "sys_log s = []")
      case False
      with current_nonzero [OF log] Open(6) show ?thesis by (simp add: complete_def new_client_def so_far_def)
    qed (simp add: complete_def new_client_def so_far_def)
    with Open(1) inv frame [OF Open(3,2)] show ?thesis by (simp add: readers_complete_def)
  next
    case (Drop i h n)
    have "reads (sys_clients s ! i) \<Longrightarrow> complete s ((sys_clients s ! i)\<lparr>cl_handle := h, cl_open := False\<rparr>)"
      using at(1) [OF Drop(1)] Drop(9) by (simp add: complete_def so_far_def)
    moreover have "reads ((sys_clients s ! i)\<lparr>cl_handle := h, cl_open := False\<rparr>) = reads (sys_clients s ! i)"
      using Drop(8) by simp
    ultimately show ?thesis
      by (intro complete_update [OF inv _ Drop(3)]) (simp_all only: frame [OF Drop(5,4)])
  next
    case (Publish i h)
    have i: "i < length (sys_clients s)" "sys_clients s' = (sys_clients s)[i := (sys_clients s ! i)\<lparr>cl_handle := h\<rparr>]"
      "reads ((sys_clients s ! i)\<lparr>cl_handle := h\<rparr>) = reads (sys_clients s ! i)"
      using Publish(1) by (simp_all add: only_client_def)
    have small': "length (sys_log s) < 2 ^ 62" "Suc (length (sys_log s)) < 2 ^ 62" using Publish(2) small by simp_all
    have caught: "last_taken (cl_handle c) = cur s" if "c \<in> set (sys_clients s)" "reads c" "sys_log s \<noteq> []" for c
    proof -
      have "count reads (sys_clients s) \<le> count listed (sys_clients s)"
        using kept by (intro count_mono) (simp add: all_kept_def)
      also have "\<dots> \<le> 65535" using consumers_reach [OF reach] unat_u16 [of "consumers (rdr s)"] by simp
      finally have "count reads (sys_clients s) \<le> 65535" .
      with publication_awaits [OF reach kept small'(1) that(3) Publish(4)]
      have "count reads (sys_clients s) \<le> count (caught_up s) (sys_clients s)" by simp
      then have "count (caught_up s) (sys_clients s) = count reads (sys_clients s)"
        using count_mono [of "sys_clients s" "caught_up s" reads] by simp
      from count_all [OF this _ that(1)] that(2) show ?thesis by blast
    qed
    have new: "complete s' c" if "c \<in> set (sys_clients s)" "reads c" "complete s c" for c
      using complete_publish [OF log _ that(3) small'(2) _ Publish(2,3)] clients_ok_reach [OF reach] caught that by blast
    have "reads (sys_clients s ! i) \<Longrightarrow> complete s' ((sys_clients s ! i)\<lparr>cl_handle := h\<rparr>)"
      using new [OF nth_mem [OF i(1)]] at(1) [OF i(1)] Publish(8) by (simp add: complete_def so_far_def)
    then show ?thesis by (intro complete_update [OF inv new i(2)]) (simp_all only: i(3))
  next
    case (Take i h got)
    then have i: "i < length (sys_clients s)" by (simp add: only_client_def)
    have clients: "sys_clients s' = (sys_clients s)[i := (sys_clients s ! i)\<lparr>cl_handle := h,
        cl_taken := cl_taken (sys_clients s ! i) @ [(cur s, payload (sys_mem s))],
        cl_got := cl_got (sys_clients s ! i) @ got\<rparr>]"
      using Take(1) by (simp add: only_client_def)
    have "reads (sys_clients s ! i) \<Longrightarrow> complete s ((sys_clients s ! i)\<lparr>cl_handle := h,
        cl_taken := cl_taken (sys_clients s ! i) @ [(cur s, payload (sys_mem s))],
        cl_got := cl_got (sys_clients s ! i) @ got\<rparr>)"
      using complete_take [OF log at(2) [OF i] at(1) [OF i] Take(5)] .
    moreover have "reads ((sys_clients s ! i)\<lparr>cl_handle := h,
        cl_taken := cl_taken (sys_clients s ! i) @ [(cur s, payload (sys_mem s))],
        cl_got := cl_got (sys_clients s ! i) @ got\<rparr>) = reads (sys_clients s ! i)"
      using Take(1) by (simp add: only_client_def)
    ultimately show ?thesis
      by (intro complete_update [OF inv _ clients]) (simp_all only: frame [OF Take(3,2)])
  next
    case (Leave i h got)
    then have i: "i < length (sys_clients s)" by (simp add: only_client_def)
    have "reads (sys_clients s ! i) \<Longrightarrow>
        complete s ((sys_clients s ! i)\<lparr>cl_handle := h, cl_got := cl_got (sys_clients s ! i) @ got\<rparr>)"
      using at(1) [OF i] Leave(5) by (simp add: complete_def so_far_def leaves_def)
    moreover have clients: "sys_clients s' = (sys_clients s)[i := (sys_clients s ! i)\<lparr>cl_handle := h,
        cl_got := cl_got (sys_clients s ! i) @ got\<rparr>]"
      and "reads ((sys_clients s ! i)\<lparr>cl_handle := h, cl_got := cl_got (sys_clients s ! i) @ got\<rparr>) =
        reads (sys_clients s ! i)"
      using Leave(1) by (simp_all add: only_client_def)
    ultimately show ?thesis
      by (intro complete_update [OF inv _ clients]) (simp_all only: frame [OF Leave(3,2)])
  qed
qed

lemma readers_complete_reach:
  assumes "sys_reach All s"
  shows "all_kept s \<longrightarrow> length (sys_log s) < 2 ^ 62 \<longrightarrow> readers_complete s"
  using assms
proof (rule sr.reach_rule)
  show "all_kept s \<longrightarrow> length (sys_log s) < 2 ^ 62 \<longrightarrow> readers_complete s" if "sys_initial All s" for s
    using sys_initial_facts [OF that] by (simp add: readers_complete_def)
  show "all_kept s' \<longrightarrow> length (sys_log s') < 2 ^ 62 \<longrightarrow> readers_complete s'"
    if "sys_reach All s" "all_kept s \<longrightarrow> length (sys_log s) < 2 ^ 62 \<longrightarrow> readers_complete s" "sys_step s s'" for s s'
  proof (intro impI)
    assume kept: "all_kept s'" and small: "length (sys_log s') < 2 ^ 62"
    have "length (sys_log s) \<le> length (sys_log s')"
      using sys_ok_reach [OF that(1)] that(3) by (cases rule: sys_step_cases) simp_all
    with readers_complete_step [OF that(1) _ small _ that(3)] that(2) small
      kept_before [OF sys_ok_reach [OF that(1)] that(3) kept]
    show "readers_complete s'" by simp
  qed
qed

section \<open>Histories by execution\<close>

datatype sys_event = Ev_open OperationMode | Ev_act nat action | Ev_drop nat

fun sys_exec :: "sys_event \<Rightarrow> system \<Rightarrow> system option" where
  "sys_exec (Ev_open mode) s =
     (case PythonSharedMessage_new ''msg'' mode (sys_mem s) of
        (Py_ok h, m1) \<Rightarrow> Some (s\<lparr>sys_mem := m1, sys_clients := sys_clients s @ [new_client (length (sys_log s)) h]\<rparr>)
      | _ \<Rightarrow> None)"
| "sys_exec (Ev_act i a) s =
     (if i < length (sys_clients s) \<and> (cl_open (sys_clients s ! i) \<or> by_thread a) \<and>
         regular a (cl_handle (sys_clients s ! i)) (sys_mem s)
      then (case act a (cl_handle (sys_clients s ! i)) (sys_mem s) of
              None \<Rightarrow> None
            | Some (h1, m1, got) \<Rightarrow> Some (after_act i h1 m1 got s))
      else None)"
| "sys_exec (Ev_drop i) s =
     (if i < length (sys_clients s) \<and> cl_open (sys_clients s ! i)
      then (case py_drop (cl_handle (sys_clients s ! i)) (sys_mem s) of
              (Py_ok h1, m1) \<Rightarrow> Some (s\<lparr>sys_mem := m1,
                sys_clients := (sys_clients s)[i := (sys_clients s ! i)\<lparr>cl_handle := h1, cl_open := False\<rparr>]\<rparr>)
            | _ \<Rightarrow> None)
      else None)"

fun sys_run :: "sys_event list \<Rightarrow> system \<Rightarrow> system option" where
  "sys_run [] s = Some s"
| "sys_run (e # es) s = (case sys_exec e s of None \<Rightarrow> None | Some s' \<Rightarrow> sys_run es s')"

lemma sys_exec_step: "sys_exec e s = Some s' \<Longrightarrow> sys_step s s'"
  by (cases e) (auto split: prod.splits py_result.splits if_splits option.splits intro: sys_open sys_act sys_drop)

lemma sys_run_reach: "sys_run es s = Some s' \<Longrightarrow> sys_reach policy s \<Longrightarrow> sys_reach policy s'"
  by (induction es arbitrary: s) (auto split: option.splits dest!: sys_exec_step intro: sys_reach_step)

definition start_system :: "ReaderWaitPolicy \<Rightarrow> nat \<Rightarrow> system" where
  "start_system policy n =
     \<lparr>sys_mem = fst (snd (set_target_read_count (to_count policy) [] (fresh_message n))), sys_clients = [], sys_log = []\<rparr>"

lemma start_system_reach: "n < 2 ^ 64 \<Longrightarrow> sys_reach policy (start_system policy n)"
  by (rule sys_reach_initial) (auto simp: sys_initial_def start_system_def)

text \<open>A writer and two readers; message 1 is read by one of them, who is then dropped; message 2 is published.\<close>

definition drop_history :: "sys_event list" where
  "drop_history = [Ev_open WriteSync, Ev_open ReadSync, Ev_open ReadSync, Ev_act 0 (Act_write [1]),
     Ev_act 1 (Act_read False), Ev_drop 1, Ev_act 0 (Act_write [2])]"

text \<open>A writer, a reader and a reader with a background thread, and two messages.\<close>

definition relay_history :: "sys_event list" where
  "relay_history = [Ev_open WriteSync, Ev_open ReadSync, Ev_open ReadAsync, Ev_act 0 (Act_write [1]),
     Ev_act 1 (Act_read True), Ev_act 2 Act_reader_thread, Ev_act 0 (Act_write [2]), Ev_act 2 Act_reader_thread,
     Ev_act 2 (Act_read True)]"

text \<open>A writer and a reader; message 1 is taken by \<open>read_all\<close> on the writer's handle; message 2 is published.\<close>

definition read_all_history :: "sys_event list" where
  "read_all_history = [Ev_open WriteSync, Ev_open ReadSync, Ev_act 0 (Act_write [1]), Ev_act 0 Act_read_all,
     Ev_act 0 (Act_write [2])]"

definition state_after :: "sys_event list \<Rightarrow> system" where
  "state_after es = the (sys_run es (start_system All 2))"

lemmas exec_simps = start_system_def set_target_read_count_def mutex_lock_alone fresh_message_def UNLOCKED_def
  LOCKED_def update_reader_state_eq get_reader_state_def get_sequence_state_def ReadersStateCount_from_def
  ReadersStateCount_to_packed_def SequenceState_from_def SequenceState_to_packed_def mask_numerals shift_defs
  mutex_unlock_def PythonSharedMessage_new_def add_reader_def remove_reader_def reader_registration_def
  new_client_def py_write_def check_write_permission_def write_sync_def write_slice_def start_write_alone
  is_stopped_def unread_iff publish_write_eq capacity_def data_ref_def overwrite_prefix_def next_sequence_def
  get_target_consumed_def read_py_def check_read_permission_def py_read_def read_sync_def read_alone
  release_active_reader_def notify_reader_done_condvar_def read_async_def chan_recv_def chan_send_def
  read_one_def py_write_guard_def SharedMessage_write_def py_read_guard_def PythonReadGuard_new_def rg_enter_def
  rg_exit_def rg_to_bytes_def rg_data_def reader_thread_step_def new_chan_def after_act_def note_client_def note_log_def last_taken_def payload_def
  current_sequence_def py_drop_def close_sender_def close_receiver_def Let_def

lemma state_after_reach:
  assumes "\<exists>s. sys_run es (start_system All 2) = Some s"
  shows "sys_reach All (state_after es)"
proof -
  from assms have "sys_run es (start_system All 2) = Some (state_after es)" by (auto simp: state_after_def)
  then show ?thesis by (rule sys_run_reach) (rule start_system_reach, simp)
qed

lemma relay_outcome:
  "sys_reach All (state_after relay_history)"
  "sys_log (state_after relay_history) = [(1, [1]), (2, [2])]"
  "\<forall>c \<in> set (sys_clients (state_after relay_history)). cl_open c"
  "length (sys_clients (state_after relay_history)) = 3"
  "pm_mode (cl_handle (sys_clients (state_after relay_history) ! 2)) = ReadAsync"
  "cl_got (sys_clients (state_after relay_history) ! 2) = [[1]]"
  "last_taken (cl_handle (sys_clients (state_after relay_history) ! 2)) = current_sequence (sys_mem (state_after relay_history))"
  "cl_since (sys_clients (state_after relay_history) ! 2) = 0"
  "\<forall>c \<in> set (sys_clients (state_after relay_history)). \<not> can_read (pm_mode (cl_handle c)) \<longrightarrow> cl_taken c = []"
proof -
  show "sys_reach All (state_after relay_history)"
    by (rule state_after_reach) (simp add: relay_history_def exec_simps)
qed (simp_all add: state_after_def relay_history_def exec_simps)

lemma drop_outcome:
  "sys_reach All (state_after drop_history)"
  "sys_log (state_after drop_history) = [(1, [1]), (2, [2])]"
  "length (sys_clients (state_after drop_history)) = 3"
  "cl_open (sys_clients (state_after drop_history) ! 2)"
  "pm_mode (cl_handle (sys_clients (state_after drop_history) ! 2)) = ReadSync"
  "cl_since (sys_clients (state_after drop_history) ! 2) = 0"
  "cl_taken (sys_clients (state_after drop_history) ! 2) = []"
  "\<exists>h m. act (Act_read True) (cl_handle (sys_clients (state_after drop_history) ! 2))
     (sys_mem (state_after drop_history)) = Some (h, m, [[2]])"
proof -
  show "sys_reach All (state_after drop_history)"
    by (rule state_after_reach) (simp add: drop_history_def exec_simps)
qed (simp_all add: state_after_def drop_history_def exec_simps)

lemma read_all_outcome:
  "sys_reach All (state_after read_all_history)"
  "sys_log (state_after read_all_history) = [(1, [1]), (2, [2])]"
  "\<forall>c \<in> set (sys_clients (state_after read_all_history)). cl_open c"
  "length (sys_clients (state_after read_all_history)) = 2"
  "pm_mode (cl_handle (sys_clients (state_after read_all_history) ! 1)) = ReadSync"
  "cl_since (sys_clients (state_after read_all_history) ! 1) = 0"
  "cl_taken (sys_clients (state_after read_all_history) ! 1) = []"
  "\<exists>h m. act (Act_read True) (cl_handle (sys_clients (state_after read_all_history) ! 1))
     (sys_mem (state_after read_all_history)) = Some (h, m, [[2]])"
proof -
  show "sys_reach All (state_after read_all_history)"
    by (rule state_after_reach) (simp add: read_all_history_def exec_simps)
qed (simp_all add: state_after_def read_all_history_def exec_simps)

section \<open>Properties\<close>

text \<open>
  C3: With the policy \<open>All\<close> no reader misses a message, as long as calls do not overlap. In every history of
  handles opened, used (\<open>write\<close>, \<open>read\<close>, \<open>read_all\<close>, \<open>with\<close> blocks on guards) and stopped, with their background
  threads, in which every call, block and iteration of a thread runs without another one in between, no
  reading handle was dropped, no handle opened for writing was read through \<open>read_all\<close>, and fewer than
  \<open>2 ^ 62\<close> messages were published: every reading handle has taken, in order and exactly once, all messages
  from the one that was current when it was opened up to the last, or up to the last but one; and what its
  reads have returned, followed by what waits in its queue, are exactly their payloads. The
  conditions on the handles are needed: see \<open>dropped_reader_loses_message\<close>, \<open>read_all_loses_message\<close> and
  \<open>guard_takes_twice\<close>.
\<close>

theorem no_reader_misses_a_message:
  assumes "sys_reach All s" "length (sys_log s) < 2 ^ 62"
    and "\<forall>c \<in> set (sys_clients s). can_read (pm_mode (cl_handle c)) \<longrightarrow> cl_open c"
    and "\<forall>c \<in> set (sys_clients s). \<not> can_read (pm_mode (cl_handle c)) \<longrightarrow> cl_taken c = []"
    and "c \<in> set (sys_clients s)" "can_read (pm_mode (cl_handle c))"
  shows "cl_got c @ pending (cl_handle c) = map snd (cl_taken c) \<and>
    cl_taken c = drop (cl_since c - 1)
      (if last_taken (cl_handle c) = current_sequence (sys_mem s) then sys_log s else butlast (sys_log s))"
proof -
  have kept: "all_kept s" using assms(3,4) by (simp add: all_kept_def)
  have "client_ok s c" using clients_ok_reach [OF assms(1)] assms(5) by blast
  then have "cl_got c @ pending (cl_handle c) = map snd (cl_taken c)" using assms(3,5,6) by (simp add: client_ok_def)
  moreover have "complete s c"
    using readers_complete_reach [OF assms(1)] kept assms(2,5,6) by (simp add: readers_complete_def)
  ultimately show ?thesis by (simp add: complete_def so_far_def)
qed

theorem no_reader_misses_a_message_witness:
  "cl_taken (sys_clients (state_after relay_history) ! 2) = [(1, [1]), (2, [2])] \<and>
   cl_got (sys_clients (state_after relay_history) ! 2) = [[1]] \<and>
   pending (cl_handle (sys_clients (state_after relay_history) ! 2)) = [[2]]"
proof -
  let ?c = "sys_clients (state_after relay_history) ! 2"
  have "?c \<in> set (sys_clients (state_after relay_history))" using relay_outcome(4) by simp
  from no_reader_misses_a_message [OF relay_outcome(1) _ _ relay_outcome(9) this] relay_outcome(2-8) show ?thesis by auto
qed







text \<open>
  C39: Dropping a reader loses a message of another. There is a history, with the policy \<open>All\<close> and the calls
  of one writer and two readers, after which two messages have been published while an open reading handle,
  registered before the first of them, has taken neither, and its next \<open>read\<close> returns the second: the
  consumption of the handle that was dropped still counts, the handle no longer does.
\<close>

theorem dropped_reader_loses_message:
  "\<exists>s c. sys_reach All s \<and> sys_log s = [(1, [1]), (2, [2])] \<and> c \<in> set (sys_clients s) \<and> cl_open c \<and>
     can_read (pm_mode (cl_handle c)) \<and> cl_since c = 0 \<and> cl_taken c = [] \<and>
     (\<exists>h m. act (Act_read True) (cl_handle c) (sys_mem s) = Some (h, m, [[2]]))"
  using drop_outcome
  by (intro exI [of _ "state_after drop_history"] exI [of _ "sys_clients (state_after drop_history) ! 2"]) simp

text \<open>
  C34: \<open>read_all\<close> on a handle opened for writing loses a message of a reader. The function skips the check of
  the mode, so that its consumption counts although the handle is not registered: with the policy \<open>All\<close>
  and no handle dropped, two messages have been published while the only reader, open since before the
  first, has taken neither.
\<close>

theorem read_all_loses_message:
  "\<exists>s c. sys_reach All s \<and> sys_log s = [(1, [1]), (2, [2])] \<and> list_all cl_open (sys_clients s) \<and>
     c \<in> set (sys_clients s) \<and> can_read (pm_mode (cl_handle c)) \<and> cl_since c = 0 \<and> cl_taken c = [] \<and>
     (\<exists>h m. act (Act_read True) (cl_handle c) (sys_mem s) = Some (h, m, [[2]]))"
  using read_all_outcome
  by (intro exI [of _ "state_after read_all_history"] exI [of _ "sys_clients (state_after read_all_history) ! 1"])
    (simp add: list_all_iff)

text \<open>
  C35: A read guard of a handle with a reader thread takes a message twice. The thread keeps the number it has
  read for itself and \<open>read_guard\<close> looks at the number that \<open>read\<close> last fetched from the queue, so that after
  an iteration of the thread the guard shows the same message again, and its release counts as the
  consumption of a second reader.
\<close>

theorem guard_takes_twice:
  assumes "at_peace m" "\<not> is_stopped m" "handle_ok cap h" "pm_mode h = ReadAsync" "tx_alive (rt_chan (the (pm_receiver h)))"
    and "last_taken h \<noteq> current_sequence m" "last_read_sequence h \<noteq> current_sequence m"
  shows "\<exists>h1 h2 m1 m2. act Act_reader_thread h m = Some (h1, m1, []) \<and>
    act (Act_read_guard False) h1 m1 = Some (h2, m2, [payload m]) \<and> last_read_sequence h2 = last_taken h1 \<and>
    data_consumed (get_reader_state m2) = data_consumed (get_reader_state m) + 2"
proof -
  obtain rt where rt: "pm_receiver h = Some rt" using assms(3,4) by (auto simp: handle_ok_def)
  have "\<exists>rt1. act Act_reader_thread h m = Some (h\<lparr>pm_receiver := Some rt1\<rparr>, consume m, []) \<and>
      rt_last rt1 = current_sequence m"
    using assms rt consume_shows [OF assms(1)]
    by (cases "rx_alive (rt_chan rt)")
      (auto simp: reader_thread_step_def read_alone consume_def current_sequence_def last_taken_def at_peace_def
        chan_send_def Let_def)
  then obtain rt1 where th: "act Act_reader_thread h m = Some (h\<lparr>pm_receiver := Some rt1\<rparr>, consume m, [])"
      "rt_last rt1 = current_sequence m" by blast
  let ?h1 = "h\<lparr>pm_receiver := Some rt1\<rparr>"
  note same = consume_same [OF assms(1)]
  have m1: "at_peace (consume m)" "current_sequence (consume m) = current_sequence m" "payload (consume m) = payload m"
    using same(1) by (simp_all add: same_message_def)
  have "act (Act_read_guard False) ?h1 (consume m) =
      Some (?h1\<lparr>last_read_sequence := current_sequence m\<rparr>, consume (consume m), [payload m])"
    using assms(4,7) m1 consume_shows [OF m1(1)]
    by (simp add: py_read_guard_def check_read_permission_def read_alone current_sequence_def at_peace_def
        PythonReadGuard_new_def rg_enter_def rg_exit_def rg_to_bytes_def rg_data_def consume_def)
  moreover have "data_consumed (get_reader_state (consume (consume m))) = data_consumed (get_reader_state m) + 2"
    using same(2) consume_same(2) [OF m1(1)] by simp
  ultimately show ?thesis using th by (auto simp: last_taken_def)
qed

theorem guard_takes_twice_witness:
  "\<exists>h1 h2 m1 m2. act Act_reader_thread (sample_handle ReadAsync) sample_message = Some (h1, m1, []) \<and>
     act (Act_read_guard False) h1 m1 = Some (h2, m2, [[1, 2]])"
proof -
  note abs = abs_eqD [OF sample_message_facts(2)]
  have "at_peace sample_message" "payload sample_message = [1, 2]" "current_sequence sample_message = 1"
    "\<not> is_stopped sample_message"
    using sample_message_facts abs sample_data
    by (simp_all add: at_peace_def payload_def current_sequence_def abs_channel_sel)
  moreover have "handle_ok 8 (sample_handle ReadAsync)" "last_taken (sample_handle ReadAsync) = 0"
    "tx_alive (rt_chan (the (pm_receiver (sample_handle ReadAsync))))"
    by (simp_all add: sample_handle_def handle_ok_def last_taken_def new_chan_def)
  moreover have "last_read_sequence (sample_handle ReadAsync) = 0" "pm_mode (sample_handle ReadAsync) = ReadAsync"
    by (simp_all add: sample_handle_def)
  ultimately show ?thesis using guard_takes_twice [of sample_message 8 "sample_handle ReadAsync"] by auto
qed

end
