(* ===== verification/Spec2Isabelle.thy ===== *)
theory Spec2Isabelle
  imports Message_Behaviour Message_Guarantees Message_Board Message_Progress Message_Solo Python_Behaviour
    Python_Delivery
begin

text \<open>
  Verification of \<open>rs_ipc\<close>, a library for messages between processes through shared memory, written in
  Rust (\<open>src/src\<close>) with Python bindings (\<open>src/src/python\<close>).

  \<^bold>\<open>The program.\<close> A message lives in a shared memory object that one process creates and others open
  (\<open>memory_mapper.rs\<close>). It is a \<open>repr(C)\<close> structure (\<open>SharedMessage\<close> in \<open>shared_message/mod.rs\<close>) of two
  packed atomic words (\<open>packed.rs\<close>: sequence number with two flags; four 16-bit counters of readers), the
  size of the payload, a futex mutex that serialises writers (\<open>sync/lock\<close>), two futex condition variables
  (\<open>sync/condvar.rs\<close>: readers wait for news on one, writers for readers on the other) and the payload.
  A writer locks the mutex, waits until enough readers have consumed the last message, raises the writing
  flag, waits until no reader is active, fills the payload and publishes it under the next number. A
  reader waits for a number it has not seen, registers as active, verifies that nothing changed, and
  reads through a guard (\<open>guard.rs\<close>) whose drop counts the consumption. \<open>stop\<close> ends all waiting. The
  bindings wrap a message in an object with a mode, file-like guards, and background threads for the
  asynchronous modes.

  \<^bold>\<open>The theories.\<close>
  \<^item> \<open>Ipc_Prelude\<close>: word types, the collections \<open>packed_simps\<close>, \<open>op_simps\<close>, \<open>machine_simps\<close>, and the
    interfaces shared by the components: the locale \<open>reachability\<close> (reachable states of a step relation
    and their invariants), \<open>simulation\<close> (one step relation seen through another), \<open>call_refinement\<close>
    (histories of calls that implement a specification); counting of threads, buffers, word arithmetic.
  \<^item> \<open>Packed\<close>: the two packed words, bit by bit (\<open>packed.rs\<close>).
  \<^item> \<open>Futex_Lock\<close>: \<open>FutexLock\<close> and \<open>SharedMutex\<close>, one atomic access per step, any number of threads; mutual
    exclusion and no lost wake-up.
  \<^item> \<open>Condvar\<close>: \<open>SharedCondvar\<close> likewise.
  \<^item> \<open>Shared_Message\<close>: every function of \<open>SharedMessage\<close> and of its guards as a function over a whole call.
    Other threads act only where the call sleeps: the argument \<open>env\<close> lists what they do to the memory
    during each sleep, and a call that sleeps with nobody left to act has the outcome \<open>Blocks\<close>.
  \<^item> \<open>Message_Spec\<close>: the abstract channel, and the refinement of every call (\<open>interpretation msg\<close>).
  \<^item> \<open>Message_Behaviour\<close>: properties of whole calls: refinement of histories, round trip, every branch of
    \<open>write_slice\<close>, stopping, waiting and being woken, numbering, registration.
  \<^item> \<open>Message_Steps\<close>: the same functions again, as machines of one atomic access per step, and the
    interleaving \<open>world_step\<close> of any number of threads that call them in any order.
  \<^item> \<open>Message_Safety\<close>, \<open>Message_Invariants\<close>, \<open>Message_Wakeups\<close>: the invariants of the interleaving. The mutex
    of the message is seen through \<open>Futex_Lock\<close> (\<open>interpretation wl\<close> of \<open>simulation\<close>) and both condition
    variables through \<open>Condvar\<close> (locale \<open>condvar_user\<close> with its \<open>sublocale\<close> of \<open>simulation\<close>, interpreted as
    \<open>wcv\<close> and \<open>dcv\<close>), so what was proved of them alone holds inside the message.
  \<^item> \<open>Message_Guarantees\<close>: the guarantees under concurrency (no data race, integrity and stability of
    reads, numbering, exact counters, well-formed memory, no forgotten sleeper), and executable schedules
    for the witnesses and for the interleavings in which the code fails.
  \<^item> \<open>Message_Board\<close>: what the message promises with its synchronisation abstracted away, a notice board with
    five events, and the simulation of the board by the interleaving (\<open>interpretation wb\<close>); every
    acknowledged write was posted with its own payload during the call.
  \<^item> \<open>Message_Progress\<close>: when no thread inside a call can make a step, what each of them waits for; after
    \<open>stop\<close>, nothing but guards that are still held and, for readers, the cases that \<open>stop\<close> forgets.
  \<^item> \<open>Message_Solo\<close>: the two models agree on undisturbed runs, with a bound on the number of accesses; the
    compare-exchange loop is atomic, and goes round only when the word changed or the weak exchange
    failed spuriously.
  \<^item> \<open>Memory_Mapper\<close>: layout of the structure, \<open>cast_from_void_ptr\<close>, \<open>create\<close>, \<open>open\<close> and drop of the mapper.
    Every system call may fail, \<open>munmap\<close> and \<open>shm_unlink\<close> included. The contract of the trait \<open>SlicePtrCast\<close> is the locale \<open>slice_ptr_cast\<close>, interpreted as \<open>smp\<close>.
  \<^item> \<open>Python_Types\<close>, \<open>Python_Guards\<close>, \<open>Python_Message\<close>: the bindings: modes, policies, queues, buffer
    protocol; the read and write guards; the message object, its two background threads and the batch
    functions. \<open>Python_Behaviour\<close>: their properties.
  \<^item> \<open>Python_System\<close>: the composition of all of this: any number of handles on one message, their method
    calls, \<open>with\<close> blocks on guards and iterations of their background threads, one after the other in any
    order (\<open>interpretation sr\<close> of \<open>reachability\<close>), with histories of what was published, taken and returned.
    \<open>Python_Delivery\<close>: in such histories, delivery of every message to every reader exactly once and in
    order, and back-pressure; how the drop of a reader, \<open>read_all\<close> on a writing handle and a guard on a
    handle with a reader thread break them.

  \<^bold>\<open>Parameters.\<close> The futex system call is the record \<open>futex_kernel\<close> with the documented behaviour as
  \<open>futex_laws\<close> (spurious returns and signals included); the calls of the operating system that the mapper
  makes are the record \<open>os\<close> with \<open>shm_laws\<close>; \<open>PyBuffer_FillInfo\<close> is a function with \<open>fill_laws\<close>; the
  Python function given to \<open>read_all_map\<close> is a function argument. Each has an instance that satisfies its
  laws (\<open>fifo_kernel\<close>, \<open>plain_os\<close>, the identity), used by the witnesses.

  \<^bold>\<open>Reading of the code.\<close> Integers keep their width and wrap around, as in a release build. Accesses are
  sequentially consistent: the locked instructions of x86 give this for the store of the writing flag
  followed by the load of the reader counters and for its counterpart in \<open>read\<close>; the orderings \<open>Release\<close>
  and \<open>Acquire\<close> written in the code alone do not. \<open>compare_exchange_weak\<close> may fail spuriously in any step
  of the interleaving. The copy of \<open>write_slice\<close> is one byte per step. The assertions of
  \<open>notify_one\<close> and \<open>notify_all\<close> that the wake-up succeeds (\<open>condvar.rs\<close>, lines 32 and 38) are taken to hold, threads can be spawned, and the standard mutexes around the queue ends of
  the bindings are not poisoned.

  \<^bold>\<open>Granularity.\<close> A step of \<open>world_step\<close> is one atomic access, of any thread: this is where calls
  overlap. A step of \<open>sys_step\<close> is one method call of the bindings, one \<open>with\<close> block on a guard, or one iteration
  of a background thread, made when it does not have to wait and without another step in between; by
  \<open>solo_runs_agree\<close> such a step is what the accesses of one thread amount to when they are not interrupted.
  The properties of \<open>Python_Delivery\<close> are about histories of such steps only: when calls overlap, a reader
  that registers while a writer is past its look at the counters is not waited for, and two threads that
  read through one handle at the same time may get the same message.

  \<^bold>\<open>Bounds.\<close> Nothing runs on fuel. The waiting loops of \<open>Shared_Message\<close> terminate because each sleep uses
  up an entry of \<open>env\<close>, so not returning is the outcome \<open>Blocks\<close> and never a missing result; the machines
  have no bound on the number of threads except where a counter is 16 bits wide (fewer than 65536) or a
  wake-up is limited to \<open>i32::MAX\<close> sleepers; the bounds of \<open>solo_runs_agree\<close> (20 accesses and one per byte,
  1020 to fall asleep) count the straight-line code, and the 1000 spins of \<open>wait\<close>.

  \<^bold>\<open>What the proofs show to be wrong.\<close> \<open>start_write\<close> reads the counters before its first ticket, so that a
  writer and its only reader can sleep for ever; a write guard dropped without \<open>publish\<close> strands readers and its
  bytes can become visible; \<open>stop\<close> can leave a reader asleep; \<open>remove_reader\<close> does not wake the writer; the
  counter of active readers wraps at 65536 guards; the payload starts at offset 252; a refused \<open>open\<close> keeps
  its mapping; the error of a refused \<open>shm_unlink\<close> is ignored and leaves a name behind; guards release after unmapping when they hold the last reference; a non-blocking read can block; the drop of a reader lets a writer replace a message
  that another reader has not seen, and so do \<open>read_all\<close> on a handle opened for writing and a read guard on
  a handle with a reader thread; the configured capacity wraps around. Each has a theorem in the theory of its component.

  \<^bold>\<open>Not modelled.\<close> The results of the futex wrappers: the callers of \<open>futex_wait\<close> and the lock ignore
  them, the condition variable only asserts them. In \<open>sys_step\<close>, guards that are held across other steps or
  dropped without publishing (they are in the interleaving and in \<open>Python_Guards\<close>), and overlapping calls. What
  a consumer of the buffer protocol does with an exported view, which is up to the interpreter; message texts of errors; the thread pool
  of \<open>read_all\<close> (its readers are independent); memory models weaker than sequential consistency; module
  declarations, tests and benchmarks.
\<close>

end
